(* ===== verification/Prelude.thy ===== *)
theory Prelude
  imports Main "HOL-Library.Word"
begin

unbundle bit_operations_syntax

text \<open>
  What every component shares: the machine types of an LP64 target, the outcome of a C function
  that may not return normally, the byte memory with its word accesses, and the collections of
  hints that carry the component proofs.

  Addresses are natural numbers. C pointer arithmetic that leaves the address space is undefined,
  so it is not wrapped; wherever the source casts a pointer to an unsigned integer and computes
  there, the model writes the reduction modulo \<open>2 ^ 64\<close> out. Sizes and counters keep their
  width: \<open>size_t\<close> is a 64-bit word, \<open>uint32_t\<close> a 32-bit word.
\<close>

type_synonym addr = nat
type_synonym size_t = "64 word"
type_synonym u32 = "32 word"
type_synonym byte = "8 word"
type_synonym bytes = "addr \<Rightarrow> byte"

abbreviation (input) NULL :: addr where "NULL \<equiv> 0"

named_theorems layout "sizes, offsets and constants of the C structures"
named_theorems frame "what an operation leaves unchanged"

subsection \<open>Outcomes\<close>

text \<open>
  A call either returns a value or stops: \<open>Exit\<close> is \<open>exit(-1)\<close> after a message on stderr,
  \<open>Deadlock\<close> is \<open>pthread_mutex_lock\<close> on a mutex that its own thread still holds, and \<open>Undefined\<close> is a
  step for which C gives no meaning (an array index out of bounds, a loop that never leaves its
  list, a write through an address that is not mapped).
\<close>

datatype stop = Exit | Deadlock | Undefined

type_synonym 'a outcome = "stop + 'a"

definition bindE :: "'a outcome \<Rightarrow> ('a \<Rightarrow> 'b outcome) \<Rightarrow> 'b outcome" where
  "bindE m f = (case m of Inl e \<Rightarrow> Inl e | Inr x \<Rightarrow> f x)"

lemma bindE_simps [simp]:
  "bindE (Inl e) f = Inl e"
  "bindE (Inr x) f = f x"
  by (simp_all add: bindE_def)

lemma bindE_Inr_iff: "bindE m f = Inr y \<longleftrightarrow> (\<exists>x. m = Inr x \<and> f x = Inr y)"
  by (cases m) auto

lemma bindE_assoc: "bindE (bindE m f) g = bindE m (\<lambda>x. bindE (f x) g)"
  by (cases m) auto

text \<open>A loop over a list that stops at the first step that does not return.\<close>

fun foldE :: "('b \<Rightarrow> 'a \<Rightarrow> 'a outcome) \<Rightarrow> 'b list \<Rightarrow> 'a \<Rightarrow> 'a outcome" where
  "foldE f [] s = Inr s"
| "foldE f (x # xs) s = bindE (f x s) (foldE f xs)"

lemma foldE_append: "foldE f (xs @ ys) s = bindE (foldE f xs s) (foldE f ys)"
  by (induction xs arbitrary: s) (auto simp: bindE_def split: sum.splits)

definition from_option :: "'a option \<Rightarrow> 'a outcome" where
  "from_option x = (case x of None \<Rightarrow> Inl Undefined | Some v \<Rightarrow> Inr v)"

lemma from_option_simps [simp]:
  "from_option None = Inl Undefined"
  "from_option (Some v) = Inr v"
  by (simp_all add: from_option_def)

text \<open>Reading a C array: an index outside it has no value.\<close>

definition array_get :: "'a list \<Rightarrow> nat \<Rightarrow> 'a option" where
  "array_get xs i = (if i < length xs then Some (xs ! i) else None)"

lemma array_get_Some [simp]: "i < length xs \<Longrightarrow> array_get xs i = Some (xs ! i)"
  by (simp add: array_get_def)

lemma array_get_None [simp]: "length xs \<le> i \<Longrightarrow> array_get xs i = None"
  by (simp add: array_get_def)

subsection \<open>Byte memory: memcpy, memcmp, memset\<close>

definition load_bytes :: "bytes \<Rightarrow> addr \<Rightarrow> nat \<Rightarrow> byte list" where
  "load_bytes m a n = map (\<lambda>i. m (a + i)) [0..<n]"

definition store_bytes :: "bytes \<Rightarrow> addr \<Rightarrow> byte list \<Rightarrow> bytes" where
  "store_bytes m a bs = (\<lambda>x. if a \<le> x \<and> x < a + length bs then bs ! (x - a) else m x)"

definition memcpy :: "bytes \<Rightarrow> addr \<Rightarrow> addr \<Rightarrow> nat \<Rightarrow> bytes" where
  "memcpy m dst src n = store_bytes m dst (load_bytes m src n)"

definition memset :: "bytes \<Rightarrow> addr \<Rightarrow> byte \<Rightarrow> nat \<Rightarrow> bytes" where
  "memset m a v n = store_bytes m a (replicate n v)"

text \<open>\<open>memcmp\<close> is used for equality only: \<open>memcmp_zero\<close> is \<open>memcmp(...) == 0\<close>.\<close>

definition memcmp_zero :: "bytes \<Rightarrow> addr \<Rightarrow> addr \<Rightarrow> nat \<Rightarrow> bool" where
  "memcmp_zero m a b n \<longleftrightarrow> load_bytes m a n = load_bytes m b n"

lemma length_load_bytes [simp]: "length (load_bytes m a n) = n"
  by (simp add: load_bytes_def)

lemma load_bytes_eq_iff:
  "load_bytes m a n = load_bytes m' b n \<longleftrightarrow> (\<forall>i<n. m (a + i) = m' (b + i))"
  by (auto simp: load_bytes_def)

lemma nth_load_bytes [simp]: "i < n \<Longrightarrow> load_bytes m a n ! i = m (a + i)"
  by (simp add: load_bytes_def)

lemma load_store_same [simp]: "load_bytes (store_bytes m a bs) a (length bs) = bs"
  by (rule nth_equalityI) (auto simp: store_bytes_def)

lemma load_store_other [frame]:
  "b + n \<le> a \<or> a + length bs \<le> b \<Longrightarrow> load_bytes (store_bytes m a bs) b n = load_bytes m b n"
  by (auto simp: load_bytes_def store_bytes_def)

lemma load_memcpy_same [simp]: "load_bytes (memcpy m d s n) d n = load_bytes m s n"
  using load_store_same [of m d "load_bytes m s n"] by (simp add: memcpy_def)

lemma load_memcpy_other [frame]:
  "b + k \<le> d \<or> d + n \<le> b \<Longrightarrow> load_bytes (memcpy m d s n) b k = load_bytes m b k"
  by (simp add: memcpy_def load_store_other)

lemma memcpy_outside [frame]: "x < d \<or> d + n \<le> x \<Longrightarrow> memcpy m d s n x = m x"
  by (auto simp: memcpy_def store_bytes_def)

lemma load_memset_same [simp]: "load_bytes (memset m a v n) a n = replicate n v"
  using load_store_same [of m a "replicate n v"] by (simp add: memset_def)

lemma memset_outside [frame]: "x < a \<or> a + n \<le> x \<Longrightarrow> memset m a v n x = m x"
  by (auto simp: memset_def store_bytes_def)

text \<open>The 8-byte little-endian read of \<open>*(uintptr_t *)p\<close>, at any alignment.\<close>

definition load_u64 :: "bytes \<Rightarrow> addr \<Rightarrow> 64 word" where
  "load_u64 m a = foldr (\<lambda>b acc. push_bit 8 acc OR ucast b) (load_bytes m a 8) 0"

lemma load_u64_cong: "(\<And>i. i < 8 \<Longrightarrow> m (a + i) = m' (a + i)) \<Longrightarrow> load_u64 m a = load_u64 m' a"
proof -
  assume "\<And>i. i < 8 \<Longrightarrow> m (a + i) = m' (a + i)"
  then have "load_bytes m a 8 = load_bytes m' a 8"
    by (simp add: load_bytes_eq_iff)
  then show ?thesis by (simp add: load_u64_def)
qed

subsection \<open>Words\<close>

lemma u32_bound: "unat (x :: u32) < 2 ^ 32"
  using unsigned_less [of x, where 'a = nat] by simp

lemma unat_u32_size_t: "unat (ucast (x :: u32) :: size_t) = unat x"
  using u32_bound [of x] by (simp add: unsigned_ucast_eq take_bit_nat_eq_self)

lemma unat_mult_small: "unat x * unat y < 2 ^ 64 \<Longrightarrow> unat (x * y) = unat x * unat y" for x y :: size_t
  by (simp add: unat_word_ariths)

lemma unat_Suc_small: "unat x + 1 < 2 ^ 64 \<Longrightarrow> unat (x + 1) = unat x + 1" for x :: size_t
  by (simp add: unat_word_ariths)

subsection \<open>Maps and lists\<close>

lemma map_fun_upd_notin [simp]: "x \<notin> set xs \<Longrightarrow> map (f(x := v)) xs = map f xs"
  by (induction xs) auto

text \<open>Unfolding \<open>[0..<n]\<close> for a numeral \<open>n\<close>, so that a finite check is a simplification.\<close>

lemma upt_0_step: "2 \<le> n \<Longrightarrow> [0..<n] = 0 # Suc 0 # [2..<n]"
  by (simp add: upt_conv_Cons numeral_2_eq_2)

lemma last_in_Cons: "last (a # xs) \<in> set (a # xs)"
  by (rule last_in_set) simp

lemma hd_in_snoc: "hd (ys @ [b]) \<in> set (ys @ [b])"
  by (rule hd_in_set) simp

end
