(* ===== verification/Ring_Interface.thy ===== *)
theory Ring_Interface
  imports Prelude
begin

text \<open>
  What the allocator relies on when it keeps spans and blocks in intrusive lists: a store of many
  disjoint rings, described by a map from each head to the nodes it holds. The locale \<open>ring_store\<close>
  states the laws of the single operations; the combinations the allocator performs (moving a
  node to another list, taking the first node, moving it and starting a list afresh) are proved
  here once. \<open>Link_List\<close> interprets the locale on the model of \<open>src/list.h\<close>.
\<close>

type_synonym ring_map = "addr \<rightharpoonup> addr list"

definition ring_nodes :: "ring_map \<Rightarrow> addr set" where
  "ring_nodes R = {a. \<exists>h xs. R h = Some xs \<and> a \<in> set (h # xs)}"

lemma not_ring_node: "n \<notin> ring_nodes R \<Longrightarrow> R h = Some xs \<Longrightarrow> n \<notin> set (h # xs)"
  unfolding ring_nodes_def by blast

lemma ring_nodesI: "R h = Some xs \<Longrightarrow> a \<in> set (h # xs) \<Longrightarrow> a \<in> ring_nodes R"
  unfolding ring_nodes_def by blast

lemma ring_nodes_upd: "ring_nodes (R(h \<mapsto> xs)) \<subseteq> ring_nodes R \<union> set (h # xs)"
  unfolding ring_nodes_def by (auto split: if_splits)

locale ring_store =
  fixes rings :: "'l \<Rightarrow> ring_map \<Rightarrow> bool"
    and init :: "'l \<Rightarrow> addr \<Rightarrow> 'l"
    and add :: "'l \<Rightarrow> addr \<Rightarrow> addr \<Rightarrow> 'l"
    and add_tail :: "'l \<Rightarrow> addr \<Rightarrow> addr \<Rightarrow> 'l"
    and del :: "'l \<Rightarrow> addr \<Rightarrow> 'l"
    and empty :: "'l \<Rightarrow> addr \<Rightarrow> bool"
    and first :: "'l \<Rightarrow> addr \<Rightarrow> addr"
  assumes distinct: "rings L R \<Longrightarrow> R h = Some xs \<Longrightarrow> distinct (h # xs)"
    and disjoint: "rings L R \<Longrightarrow> R h = Some xs \<Longrightarrow> R k = Some zs \<Longrightarrow> h \<noteq> k \<Longrightarrow>
      set (h # xs) \<inter> set (k # zs) = {}"
    and init: "rings L R \<Longrightarrow> R h \<noteq> None \<or> h \<notin> ring_nodes R \<Longrightarrow> rings (init L h) (R(h \<mapsto> []))"
    and add: "rings L R \<Longrightarrow> R h = Some xs \<Longrightarrow> n \<notin> ring_nodes R \<Longrightarrow> rings (add L n h) (R(h \<mapsto> n # xs))"
    and add_tail: "rings L R \<Longrightarrow> R h = Some xs \<Longrightarrow> n \<notin> ring_nodes R \<Longrightarrow>
      rings (add_tail L n h) (R(h \<mapsto> xs @ [n]))"
    and del: "rings L R \<Longrightarrow> R h = Some xs \<Longrightarrow> e \<in> set xs \<Longrightarrow> rings (del L e) (R(h \<mapsto> remove1 e xs))"
    and forget: "rings L R \<Longrightarrow> rings L (R(h := None))"
    and empty: "rings L R \<Longrightarrow> R h = Some xs \<Longrightarrow> empty L h \<longleftrightarrow> xs = []"
    and first: "rings L R \<Longrightarrow> R h = Some (x # xs) \<Longrightarrow> first L h = x"
begin

lemma member_once:
  assumes "rings L R" "R h = Some xs" "e \<in> set xs" "R k = Some zs" "e \<in> set (k # zs)"
  shows "k = h"
  using assms disjoint [OF assms(1,2,4)] by auto

lemma removed_fresh:
  assumes r: "rings L R" "R h = Some xs" and e: "e \<in> set xs"
  shows "e \<notin> ring_nodes (R(h \<mapsto> remove1 e xs))"
proof
  assume "e \<in> ring_nodes (R(h \<mapsto> remove1 e xs))"
  then obtain k zs where k: "(R(h \<mapsto> remove1 e xs)) k = Some zs" "e \<in> set (k # zs)"
    unfolding ring_nodes_def by blast
  have d: "e \<notin> set (h # remove1 e xs)" using distinct [OF r] e by auto
  show False
  proof (cases "k = h")
    case True
    with k d show ?thesis by auto
  next
    case False
    with k member_once [OF r e, of k zs] show ?thesis by auto
  qed
qed

text \<open>Taking a node out of one list and appending it to another.\<close>

lemma move_to_tail:
  assumes r: "rings L R" "R h = Some xs" and e: "e \<in> set xs" and k: "R k = Some zs" "k \<noteq> h"
  shows "rings (add_tail (del L e) e k) (R(h \<mapsto> remove1 e xs, k \<mapsto> zs @ [e]))"
  using add_tail [OF del [OF r e] _ removed_fresh [OF r e], of k zs] k by simp

text \<open>Taking the first node of a list.\<close>

lemma take_first:
  assumes r: "rings L R" "R h = Some (x # xs)"
  shows "\<not> empty L h" "first L h = x" "rings (del L (first L h)) (R(h \<mapsto> xs))"
    "x \<notin> ring_nodes (R(h \<mapsto> xs))"
proof -
  show "\<not> empty L h" using empty [OF r] by simp
  show f: "first L h = x" by (rule first [OF r])
  show "rings (del L (first L h)) (R(h \<mapsto> xs))"
    unfolding f using del [OF r, of x] by simp
  show "x \<notin> ring_nodes (R(h \<mapsto> xs))"
    using removed_fresh [OF r, of x] by simp
qed

text \<open>Moving a node, then making the list \<open>j\<close> hold a single fresh node.\<close>

lemma move_and_restart:
  assumes r: "rings L R" "R h = Some xs" and e: "e \<in> set xs" and k: "R k = Some zs" "k \<noteq> h"
    and j: "R j = Some ys" "j \<noteq> h" "j \<noteq> k" and b: "b \<notin> ring_nodes R"
  shows "rings (add (init (add_tail (del L e) e k) j) b j)
           (R(h \<mapsto> remove1 e xs, k \<mapsto> zs @ [e], j \<mapsto> [b]))"
proof -
  let ?R = "R(h \<mapsto> remove1 e xs, k \<mapsto> zs @ [e])"
  have m: "rings (add_tail (del L e) e k) ?R" by (rule move_to_tail [OF r e k])
  have i: "rings (init (add_tail (del L e) e k) j) (?R(j \<mapsto> []))"
    by (rule init [OF m]) (use j in simp)
  have "b \<noteq> e" "b \<notin> set (h # xs)" "b \<notin> set (k # zs)" "b \<noteq> j"
    using not_ring_node [OF b r(2)] not_ring_node [OF b k(1)] not_ring_node [OF b j(1)] e by auto
  then have "b \<notin> ring_nodes (?R(j \<mapsto> []))"
    using b set_remove1_subset [of e xs] unfolding ring_nodes_def by (auto split: if_splits)
  from add [OF i _ this, of j "[]"] show ?thesis by simp
qed

end

end
