(* ===== verification/Link_List.thy ===== *)
theory Link_List
  imports Ring_Interface
begin

text \<open>
  \<open>src/list.h\<close>: the circular doubly linked list that is embedded in its elements. The memory of
  all list heads is a record of two field maps, \<open>nxt\<close> and \<open>prv\<close>, over node addresses; a node is the
  address of a \<open>struct list_head\<close>. The predicate \<open>dll L h xs\<close> says that the ring through the head
  \<open>h\<close> holds exactly the nodes \<open>xs\<close>, in this order, with consistent back links; the lemmas show that
  each operation of the header is the list operation it is named after, on every ring it touches,
  and leaves every disjoint ring alone.
\<close>

record links =
  nxt :: "addr \<Rightarrow> addr"
  prv :: "addr \<Rightarrow> addr"

subsection \<open>The operations of the header\<close>

definition INIT_LIST_HEAD :: "links \<Rightarrow> addr \<Rightarrow> links" where
  "INIT_LIST_HEAD L list = L\<lparr>nxt := (nxt L)(list := list), prv := (prv L)(list := list)\<rparr>"

text \<open>\<open>__list_add(_new, prev, next)\<close>, the four stores in their order.\<close>

definition do_list_add :: "links \<Rightarrow> addr \<Rightarrow> addr \<Rightarrow> addr \<Rightarrow> links" where
  "do_list_add L new prev next =
     (let L1 = L\<lparr>nxt := (nxt L)(new := next)\<rparr>;
          L2 = L1\<lparr>prv := (prv L1)(next := new)\<rparr>;
          L3 = L2\<lparr>nxt := (nxt L2)(prev := new)\<rparr>
      in L3\<lparr>prv := (prv L3)(new := prev)\<rparr>)"

definition list_add :: "links \<Rightarrow> addr \<Rightarrow> addr \<Rightarrow> links" where
  "list_add L new head = do_list_add L new head (nxt L head)"

definition list_add_tail :: "links \<Rightarrow> addr \<Rightarrow> addr \<Rightarrow> links" where
  "list_add_tail L new head = do_list_add L new (prv L head) head"

definition do_list_del :: "links \<Rightarrow> addr \<Rightarrow> addr \<Rightarrow> links" where
  "do_list_del L prev next =
     (let L1 = L\<lparr>nxt := (nxt L)(prev := next)\<rparr> in L1\<lparr>prv := (prv L1)(next := prev)\<rparr>)"

definition list_del :: "links \<Rightarrow> addr \<Rightarrow> links" where
  "list_del L entry = do_list_del L (prv L entry) (nxt L entry)"

definition list_empty :: "links \<Rightarrow> addr \<Rightarrow> bool" where
  "list_empty L list \<longleftrightarrow> nxt L list = list \<and> prv L list = list"

definition do_list_splice :: "links \<Rightarrow> addr \<Rightarrow> addr \<Rightarrow> addr \<Rightarrow> links" where
  "do_list_splice L list prev next =
     (let first = nxt L list; last = prv L list;
          L1 = L\<lparr>prv := (prv L)(first := prev)\<rparr>;
          L2 = L1\<lparr>nxt := (nxt L1)(prev := first)\<rparr>;
          L3 = L2\<lparr>nxt := (nxt L2)(last := next)\<rparr>
      in L3\<lparr>prv := (prv L3)(next := last)\<rparr>)"

definition list_splice :: "links \<Rightarrow> addr \<Rightarrow> addr \<Rightarrow> links" where
  "list_splice L list head =
     (if \<not> list_empty L list then do_list_splice L list head (nxt L head) else L)"

definition list_splice_tail :: "links \<Rightarrow> addr \<Rightarrow> addr \<Rightarrow> links" where
  "list_splice_tail L list head =
     (if \<not> list_empty L list then do_list_splice L list (prv L head) head else L)"

text \<open>\<open>list_for_each\<close>: the nodes visited from \<open>pos\<close> until the head; None if it never comes round.\<close>

partial_function (option) list_for_each_from :: "links \<Rightarrow> addr \<Rightarrow> addr \<Rightarrow> addr list option" where
  "list_for_each_from L head pos =
     (if pos = head then Some []
      else Option.bind (list_for_each_from L head (nxt L pos)) (\<lambda>r. Some (pos # r)))"

definition list_for_each :: "links \<Rightarrow> addr \<Rightarrow> addr list option" where
  "list_for_each L head = list_for_each_from L head (nxt L head)"

partial_function (option) list_for_each_prev_from :: "links \<Rightarrow> addr \<Rightarrow> addr \<Rightarrow> addr list option"
  where
  "list_for_each_prev_from L head pos =
     (if pos = head then Some []
      else Option.bind (list_for_each_prev_from L head (prv L pos)) (\<lambda>r. Some (pos # r)))"

definition list_for_each_prev :: "links \<Rightarrow> addr \<Rightarrow> addr list option" where
  "list_for_each_prev L head = list_for_each_prev_from L head (prv L head)"

text \<open>\<open>list_entry\<close> / \<open>container_of\<close>: from a member's address to its structure's.\<close>

definition list_entry :: "addr \<Rightarrow> nat \<Rightarrow> addr" where
  "list_entry ptr member_offset = ptr - member_offset"

lemma list_entry_member [simp]: "list_entry (s + off) off = s"
  by (simp add: list_entry_def)

subsection \<open>Segments and rings\<close>

fun seg :: "links \<Rightarrow> addr \<Rightarrow> addr list \<Rightarrow> addr \<Rightarrow> bool" where
  "seg L a [] b \<longleftrightarrow> nxt L a = b \<and> prv L b = a"
| "seg L a (x # xs) b \<longleftrightarrow> nxt L a = x \<and> prv L x = a \<and> seg L x xs b"

definition dll :: "links \<Rightarrow> addr \<Rightarrow> addr list \<Rightarrow> bool" where
  "dll L h xs \<longleftrightarrow> distinct (h # xs) \<and> seg L h xs h"

lemma dllI [intro]: "distinct (h # xs) \<Longrightarrow> seg L h xs h \<Longrightarrow> dll L h xs"
  by (simp add: dll_def)

lemma seg_append: "seg L a (xs @ y # ys) b \<longleftrightarrow> seg L a xs y \<and> seg L y ys b"
  by (induction xs arbitrary: a) auto

lemma seg_cong:
  "seg L a xs b \<Longrightarrow> (\<And>x. x \<in> set (a # xs) \<Longrightarrow> nxt L' x = nxt L x) \<Longrightarrow>
   (\<And>x. x \<in> set (b # xs) \<Longrightarrow> prv L' x = prv L x) \<Longrightarrow> seg L' a xs b"
  by (induction xs arbitrary: a) auto

lemma dll_cong:
  "dll L h xs \<Longrightarrow> (\<And>x. x \<in> set (h # xs) \<Longrightarrow> nxt L' x = nxt L x \<and> prv L' x = prv L x) \<Longrightarrow> dll L' h xs"
  by (auto simp: dll_def intro: seg_cong)

lemma seg_first: "seg L a xs b \<Longrightarrow> nxt L a = hd (xs @ [b])"
  by (cases xs) auto

lemma seg_last: "seg L a xs b \<Longrightarrow> prv L b = last (a # xs)"
  by (induction xs arbitrary: a) auto

lemma dll_next: "dll L h xs \<Longrightarrow> nxt L h = hd (xs @ [h])"
  by (simp add: dll_def seg_first)

lemma dll_prev: "dll L h xs \<Longrightarrow> prv L h = last (h # xs)"
  using seg_last [of L h xs h] by (simp add: dll_def)

lemma dll_distinct: "dll L h xs \<Longrightarrow> distinct (h # xs)"
  by (simp add: dll_def)

lemma list_empty_iff: "dll L h xs \<Longrightarrow> list_empty L h \<longleftrightarrow> xs = []"
  using dll_next [of L h xs] by (cases xs) (auto simp: list_empty_def dll_def)

lemma INIT_LIST_HEAD_dll [intro, simp]: "dll (INIT_LIST_HEAD L h) h []"
  by (simp add: INIT_LIST_HEAD_def dll_def)

subsection \<open>Insertion, deletion and splicing on rings\<close>

lemma nxt_do_list_add: "nxt (do_list_add L n p q) = ((nxt L)(n := q))(p := n)"
  and prv_do_list_add: "prv (do_list_add L n p q) = ((prv L)(q := n))(n := p)"
  by (simp_all add: do_list_add_def)

lemma nxt_do_list_del: "nxt (do_list_del L p q) = (nxt L)(p := q)"
  and prv_do_list_del: "prv (do_list_del L p q) = (prv L)(q := p)"
  by (simp_all add: do_list_del_def)

lemmas link_simps = nxt_do_list_add prv_do_list_add nxt_do_list_del prv_do_list_del

lemma list_add_dll:
  assumes d: "dll L h xs" and n: "n \<notin> set (h # xs)"
  shows "dll (list_add L n h) h (n # xs)"
proof (cases xs)
  case Nil
  with d n show ?thesis by (auto simp: dll_def list_add_def link_simps)
next
  case (Cons x ys)
  from d Cons have s: "seg L x ys h" and x: "nxt L h = x" "distinct (h # x # ys)"
    by (auto simp: dll_def)
  have "seg (do_list_add L n h x) x ys h"
    by (rule seg_cong [OF s]) (use x n Cons in \<open>auto simp: link_simps\<close>)
  with x n Cons show ?thesis by (auto simp: dll_def list_add_def link_simps)
qed

lemma list_add_tail_dll:
  assumes d: "dll L h xs" and n: "n \<notin> set (h # xs)"
  shows "dll (list_add_tail L n h) h (xs @ [n])"
proof (cases xs rule: rev_cases)
  case Nil
  with d n show ?thesis by (auto simp: dll_def list_add_tail_def link_simps)
next
  case (snoc ys y)
  from d snoc have s: "seg L h ys y" and y: "prv L h = y" "distinct (h # ys @ [y])"
    by (auto simp: dll_def seg_append)
  have "seg (do_list_add L n y h) h ys y"
    by (rule seg_cong [OF s]) (use y n snoc in \<open>auto simp: link_simps\<close>)
  with y n snoc show ?thesis by (auto simp: dll_def list_add_tail_def seg_append link_simps)
qed

lemma list_del_seg:
  assumes s: "seg L a xs e" "seg L e ys b"
    and d: "distinct (xs @ e # ys)" "a \<notin> set (xs @ e # ys)" "b \<notin> set (xs @ e # ys)"
  shows "seg (list_del L e) a (xs @ ys) b"
proof -
  let ?L = "list_del L e"
  note ends = seg_last [OF s(1)] seg_first [OF s(2)]
  show ?thesis
  proof (cases ys)
    case Nil
    show ?thesis
    proof (cases xs rule: rev_cases)
      case Nil
      with \<open>ys = []\<close> s d show ?thesis by (auto simp: list_del_def link_simps)
    next
      case (snoc zs z)
      with s d have "seg L a zs z" by (auto simp: seg_append)
      then have "seg ?L a zs z"
        by (rule seg_cong) (use snoc d \<open>ys = []\<close> ends in \<open>auto simp: list_del_def link_simps\<close>)
      with snoc \<open>ys = []\<close> ends d s show ?thesis
        by (auto simp: list_del_def link_simps seg_append)
    qed
  next
    case (Cons y zs)
    with s have "seg L y zs b" by auto
    moreover have "prv L e \<notin> set ys"
      using ends(1) last_in_Cons [of a xs] d by auto
    ultimately have t: "seg ?L y zs b"
      using Cons d ends by (auto simp: list_del_def link_simps elim!: seg_cong)
    show ?thesis
    proof (cases xs rule: rev_cases)
      case Nil
      with Cons t ends d show ?thesis by (auto simp: list_del_def link_simps)
    next
      case (snoc ws w)
      with s d have "seg L a ws w" by (auto simp: seg_append)
      then have "seg ?L a ws w"
        by (rule seg_cong) (use snoc Cons d ends in \<open>auto simp: list_del_def link_simps\<close>)
      with snoc Cons t ends d show ?thesis
        by (auto simp: list_del_def link_simps seg_append)
    qed
  qed
qed

lemma list_del_dll:
  assumes "dll L h (xs @ e # ys)"
  shows "dll (list_del L e) h (xs @ ys)"
  using assms by (auto simp: dll_def seg_append intro!: list_del_seg)

lemma list_del_remove1:
  assumes "dll L h xs" "e \<in> set xs"
  shows "dll (list_del L e) h (remove1 e xs)"
proof -
  from assms(2) obtain ys zs where "xs = ys @ e # zs" "e \<notin> set ys"
    using split_list_first [of e xs] by blast
  then show ?thesis
    using list_del_dll [of L h ys e zs] assms(1) by (simp add: remove1_append)
qed

lemma nxt_do_list_splice:
    "dll L l ys \<Longrightarrow> ys \<noteq> [] \<Longrightarrow> nxt (do_list_splice L l p b) = ((nxt L)(p := hd ys))(last ys := b)"
  and prv_do_list_splice:
    "dll L l ys \<Longrightarrow> ys \<noteq> [] \<Longrightarrow> prv (do_list_splice L l p b) = ((prv L)(hd ys := p))(b := last ys)"
  using dll_next [of L l ys] dll_prev [of L l ys] by (auto simp: do_list_splice_def Let_def)

lemmas splice_simps = nxt_do_list_splice prv_do_list_splice

text \<open>The spliced nodes stand between the two nodes they were put between.\<close>

lemma do_list_splice_seg:
  assumes l: "dll L l ys" "ys \<noteq> []" and "p \<notin> set ys" "b \<notin> set ys"
  shows "seg (do_list_splice L l p b) p ys b"
proof (cases ys)
  case (Cons f zs)
  have "seg (do_list_splice L l p b) f zs b"
  proof (cases zs rule: rev_cases)
    case Nil
    with Cons assms show ?thesis by (auto simp: splice_simps)
  next
    case (snoc ws w)
    with l Cons have w: "seg L f ws w" "distinct (f # ws @ [w])" by (auto simp: dll_def seg_append)
    have "seg (do_list_splice L l p b) f ws w"
      by (rule seg_cong [OF w(1)]) (use snoc Cons w assms in \<open>auto simp: splice_simps\<close>)
    with snoc Cons assms w show ?thesis by (auto simp: splice_simps seg_append)
  qed
  moreover have "last ys \<noteq> p" "b \<noteq> hd ys"
    using assms last_in_set [of ys] hd_in_set [of ys] by auto
  ultimately show ?thesis using Cons assms by (auto simp: splice_simps)
qed (use l in simp)

lemma list_splice_tail_dll:
  assumes l: "dll L l ys" and h: "dll L h xs" and d: "set (l # ys) \<inter> set (h # xs) = {}"
  shows "dll (list_splice_tail L l h) h (xs @ ys)"
proof (cases "ys = []")
  case True
  with l h show ?thesis by (simp add: list_splice_tail_def list_empty_iff)
next
  case False
  let ?L = "do_list_splice L l (prv L h) h"
  have eq: "list_splice_tail L l h = ?L"
    using False l by (simp add: list_splice_tail_def list_empty_iff)
  have p: "prv L h = last (h # xs)" using h by (rule dll_prev)
  then have "prv L h \<notin> set ys" using d last_in_Cons [of h xs] by auto
  then have y: "seg ?L (prv L h) ys h"
    using d by (intro do_list_splice_seg [OF l False]) auto
  have di: "distinct (h # xs @ ys)" using l h d by (auto simp: dll_def)
  show ?thesis
  proof (cases xs rule: rev_cases)
    case Nil
    with y p di eq show ?thesis by (auto simp: dll_def)
  next
    case (snoc zs z)
    with h have z: "seg L h zs z" by (auto simp: dll_def seg_append)
    have "seg ?L h zs z"
      by (rule seg_cong [OF z])
         (use snoc di p hd_in_set [OF False] last_in_set [OF False] in
           \<open>auto simp: splice_simps [OF l False] False\<close>)
    with snoc y p di eq show ?thesis by (auto simp: dll_def seg_append)
  qed
qed

lemma list_splice_dll:
  assumes l: "dll L l ys" and h: "dll L h xs" and d: "set (l # ys) \<inter> set (h # xs) = {}"
  shows "dll (list_splice L l h) h (ys @ xs)"
proof (cases "ys = []")
  case True
  with l h show ?thesis by (simp add: list_splice_def list_empty_iff)
next
  case False
  let ?L = "do_list_splice L l h (nxt L h)"
  have eq: "list_splice L l h = ?L"
    using False l by (simp add: list_splice_def list_empty_iff)
  have p: "nxt L h = hd (xs @ [h])" using h by (rule dll_next)
  then have "nxt L h \<notin> set ys" using d hd_in_snoc [of xs h] by auto
  then have y: "seg ?L h ys (nxt L h)"
    using d by (intro do_list_splice_seg [OF l False]) auto
  have di: "distinct (h # ys @ xs)" using l h d by (auto simp: dll_def)
  show ?thesis
  proof (cases xs)
    case Nil
    with y p di eq show ?thesis by (auto simp: dll_def)
  next
    case (Cons z zs)
    with h have z: "seg L z zs h" by (auto simp: dll_def)
    have "hd ys \<notin> set xs" "last ys \<notin> set xs"
      using di hd_in_set [OF False] last_in_set [OF False] by auto
    then have "seg ?L z zs h"
      using Cons di p hd_in_set [OF False]
      by (intro seg_cong [OF z]) (auto simp: splice_simps [OF l False])
    with Cons y p di eq show ?thesis by (auto simp: dll_def seg_append)
  qed
qed

subsection \<open>Frames: other rings are untouched\<close>

lemma list_add_frame [frame]:
  assumes "dll L h xs" "dll L k zs" "set (h # xs) \<inter> set (k # zs) = {}" "n \<notin> set (k # zs)"
  shows "dll (list_add L n h) k zs"
proof -
  have "nxt L h \<notin> set (k # zs)"
    using dll_next [OF assms(1)] hd_in_snoc [of xs h] assms(3) by auto
  then show ?thesis
    using assms by (intro dll_cong [OF assms(2)]) (auto simp: list_add_def link_simps)
qed

lemma list_add_tail_frame [frame]:
  assumes "dll L h xs" "dll L k zs" "set (h # xs) \<inter> set (k # zs) = {}" "n \<notin> set (k # zs)"
  shows "dll (list_add_tail L n h) k zs"
proof -
  have "prv L h \<notin> set (k # zs)"
    using dll_prev [OF assms(1)] last_in_Cons [of h xs] assms(3) by auto
  then show ?thesis
    using assms by (intro dll_cong [OF assms(2)]) (auto simp: list_add_tail_def link_simps)
qed

lemma dll_neighbours:
  assumes "dll L h xs" "e \<in> set xs"
  shows "nxt L e \<in> set (h # xs)" "prv L e \<in> set (h # xs)"
proof -
  obtain ys zs where xs: "xs = ys @ e # zs" using assms(2) by (auto simp: in_set_conv_decomp)
  then have s: "seg L h ys e" "seg L e zs h" using assms(1) by (auto simp: dll_def seg_append)
  show "nxt L e \<in> set (h # xs)"
    using seg_first [OF s(2)] hd_in_snoc [of zs h] xs by auto
  show "prv L e \<in> set (h # xs)"
    using seg_last [OF s(1)] last_in_Cons [of h ys] xs by auto
qed

lemma list_del_frame [frame]:
  assumes "dll L h xs" "e \<in> set xs" "dll L k zs" "set (h # xs) \<inter> set (k # zs) = {}"
  shows "dll (list_del L e) k zs"
  using dll_neighbours [OF assms(1,2)] assms(4)
  by (intro dll_cong [OF assms(3)]) (auto simp: list_del_def link_simps)

lemma INIT_LIST_HEAD_frame [frame]:
  "dll L k zs \<Longrightarrow> h \<notin> set (k # zs) \<Longrightarrow> dll (INIT_LIST_HEAD L h) k zs"
  by (erule dll_cong) (auto simp: INIT_LIST_HEAD_def)

lemma list_splice_tail_frame [frame]:
  assumes "dll L l ys" "dll L h xs" "dll L k zs" "set (k # zs) \<inter> set (l # ys @ h # xs) = {}"
  shows "dll (list_splice_tail L l h) k zs"
proof (cases "ys = []")
  case True
  with assms show ?thesis by (simp add: list_splice_tail_def list_empty_iff)
next
  case False
  have "prv L h \<notin> set (k # zs)"
    using dll_prev [OF assms(2)] last_in_Cons [of h xs] assms(4) by auto
  moreover have "hd ys \<in> set ys" "last ys \<in> set ys" using False by auto
  ultimately show ?thesis
    using assms False
    by (intro dll_cong [OF assms(3)])
       (auto simp: list_splice_tail_def list_empty_iff splice_simps)
qed

subsection \<open>Traversal\<close>

lemma list_for_each_from_seg:
  "seg L a xs h \<Longrightarrow> h \<notin> set xs \<Longrightarrow> list_for_each_from L h (nxt L a) = Some xs"
  by (induction xs arbitrary: a) (auto simp: list_for_each_from.simps)

lemma list_for_each_dll: "dll L h xs \<Longrightarrow> list_for_each L h = Some xs"
  by (auto simp: dll_def list_for_each_def intro: list_for_each_from_seg)

lemma list_for_each_prev_from_seg:
  "seg L h xs b \<Longrightarrow> h \<notin> set xs \<Longrightarrow> list_for_each_prev_from L h (prv L b) = Some (rev xs)"
proof (induction xs arbitrary: b rule: rev_induct)
  case Nil
  then show ?case by (simp add: list_for_each_prev_from.simps)
next
  case (snoc x xs)
  then have "seg L h xs x" "prv L b = x" "x \<noteq> h" by (auto simp: seg_append)
  with snoc show ?case by (simp add: list_for_each_prev_from.simps [of L h x])
qed

lemma list_for_each_prev_dll: "dll L h xs \<Longrightarrow> list_for_each_prev L h = Some (rev xs)"
  by (auto simp: dll_def list_for_each_prev_def intro: list_for_each_prev_from_seg)

subsection \<open>Systems of disjoint rings\<close>

text \<open>
  A program owns many rings in one memory. \<open>rings L R\<close>: every head \<open>h\<close> in the domain of \<open>R\<close> heads a
  ring of exactly the nodes \<open>R h\<close>, and no node belongs to two rings.
\<close>

definition rings :: "links \<Rightarrow> ring_map \<Rightarrow> bool" where
  "rings L R \<longleftrightarrow>
     (\<forall>h xs. R h = Some xs \<longrightarrow> dll L h xs) \<and>
     (\<forall>h k xs zs. R h = Some xs \<and> R k = Some zs \<and> h \<noteq> k \<longrightarrow> set (h # xs) \<inter> set (k # zs) = {})"

lemma rings_dll: "rings L R \<Longrightarrow> R h = Some xs \<Longrightarrow> dll L h xs"
  by (simp add: rings_def)

lemma rings_disjoint:
  "rings L R \<Longrightarrow> R h = Some xs \<Longrightarrow> R k = Some zs \<Longrightarrow> h \<noteq> k \<Longrightarrow> set (h # xs) \<inter> set (k # zs) = {}"
  unfolding rings_def by blast

text \<open>Changing one ring: enough that the others keep their shape and the new nodes are not theirs.\<close>

lemma rings_update:
  assumes R: "rings L R" and new: "dll L' h ys"
    and frame: "\<And>k zs. R k = Some zs \<Longrightarrow> k \<noteq> h \<Longrightarrow> dll L' k zs"
    and disj: "\<And>k zs. R k = Some zs \<Longrightarrow> k \<noteq> h \<Longrightarrow> set (h # ys) \<inter> set (k # zs) = {}"
  shows "rings L' (R(h \<mapsto> ys))"
proof -
  have "set (a # xs) \<inter> set (b # zs) = {}"
    if "(R(h \<mapsto> ys)) a = Some xs" "(R(h \<mapsto> ys)) b = Some zs" "a \<noteq> b" for a b xs zs
  proof -
    consider "a = h" | "b = h" | "a \<noteq> h" "b \<noteq> h" by blast
    then show ?thesis
    proof cases
      case 1
      with that disj [of b zs] show ?thesis by auto
    next
      case 2
      with that disj [of a xs] show ?thesis by auto
    next
      case 3
      with that show ?thesis by (intro rings_disjoint [OF R]) auto
    qed
  qed
  moreover have "dll L' k zs" if "(R(h \<mapsto> ys)) k = Some zs" for k zs
    using that new frame by (auto split: if_splits)
  ultimately show ?thesis unfolding rings_def by blast
qed

lemma rings_add:
  assumes R: "rings L R" "R h = Some xs" and n: "n \<notin> ring_nodes R"
  shows "rings (list_add L n h) (R(h \<mapsto> n # xs))"
proof (rule rings_update [OF R(1)])
  show "dll (list_add L n h) h (n # xs)"
    using R not_ring_node [OF n R(2)] by (intro list_add_dll rings_dll)
  fix k zs assume k: "R k = Some zs" "k \<noteq> h"
  then have d: "set (h # xs) \<inter> set (k # zs) = {}" by (intro rings_disjoint [OF R]) auto
  have r: "dll L h xs" "dll L k zs" using R k by (auto intro: rings_dll)
  show "dll (list_add L n h) k zs"
    by (rule list_add_frame [OF r d not_ring_node [OF n k(1)]])
  show "set (h # n # xs) \<inter> set (k # zs) = {}"
    using d not_ring_node [OF n k(1)] by auto
qed

lemma rings_add_tail:
  assumes R: "rings L R" "R h = Some xs" and n: "n \<notin> ring_nodes R"
  shows "rings (list_add_tail L n h) (R(h \<mapsto> xs @ [n]))"
proof (rule rings_update [OF R(1)])
  show "dll (list_add_tail L n h) h (xs @ [n])"
    using R not_ring_node [OF n R(2)] by (intro list_add_tail_dll rings_dll)
  fix k zs assume k: "R k = Some zs" "k \<noteq> h"
  then have d: "set (h # xs) \<inter> set (k # zs) = {}" by (intro rings_disjoint [OF R]) auto
  have r: "dll L h xs" "dll L k zs" using R k by (auto intro: rings_dll)
  show "dll (list_add_tail L n h) k zs"
    by (rule list_add_tail_frame [OF r d not_ring_node [OF n k(1)]])
  show "set (h # xs @ [n]) \<inter> set (k # zs) = {}"
    using d not_ring_node [OF n k(1)] by auto
qed

lemma rings_del:
  assumes R: "rings L R" "R h = Some xs" and e: "e \<in> set xs"
  shows "rings (list_del L e) (R(h \<mapsto> remove1 e xs))"
proof (rule rings_update [OF R(1)])
  show "dll (list_del L e) h (remove1 e xs)"
    using R e by (intro list_del_remove1 rings_dll)
  fix k zs assume k: "R k = Some zs" "k \<noteq> h"
  then have d: "set (h # xs) \<inter> set (k # zs) = {}" by (intro rings_disjoint [OF R]) auto
  have r: "dll L h xs" "dll L k zs" using R k by (auto intro: rings_dll)
  show "dll (list_del L e) k zs" by (rule list_del_frame [OF r(1) e r(2) d])
  show "set (h # remove1 e xs) \<inter> set (k # zs) = {}"
    using d set_remove1_subset [of e xs] by auto
qed

text \<open>One whole ring is moved to the end of another; its own head is left behind.\<close>

lemma rings_splice_tail:
  assumes R: "rings L R" "R l = Some ys" "R h = Some xs" "l \<noteq> h"
  shows "rings (list_splice_tail L l h) (R(l := None, h \<mapsto> xs @ ys))"
proof (rule rings_update)
  show "rings L (R(l := None))" using R(1) unfolding rings_def by (auto split: if_splits)
  have d: "set (l # ys) \<inter> set (h # xs) = {}" using R by (intro rings_disjoint [OF R(1)])
  show "dll (list_splice_tail L l h) h (xs @ ys)"
    using R d by (intro list_splice_tail_dll rings_dll)
  fix k zs assume k: "(R(l := None)) k = Some zs" "k \<noteq> h"
  then have k': "R k = Some zs" "k \<noteq> l" by (auto split: if_splits)
  have e: "set (k # zs) \<inter> set (l # ys) = {}" "set (k # zs) \<inter> set (h # xs) = {}"
    using rings_disjoint [OF R(1) k'(1) R(2) k'(2)] rings_disjoint [OF R(1) k'(1) R(3) k(2)] by auto
  have "set (k # zs) \<inter> set (l # ys @ h # xs) = {}" using e by auto
  then show "dll (list_splice_tail L l h) k zs"
    using R k'(1) by (intro list_splice_tail_frame [where ys = ys and xs = xs] rings_dll)
  show "set (h # xs @ ys) \<inter> set (k # zs) = {}" using e by auto
qed

lemma rings_init:
  assumes R: "rings L R" and h: "R h \<noteq> None \<or> h \<notin> ring_nodes R"
  shows "rings (INIT_LIST_HEAD L h) (R(h \<mapsto> []))"
proof (rule rings_update [OF R])
  fix k zs assume k: "R k = Some zs" "k \<noteq> h"
  have "h \<notin> set (k # zs)"
    using h k rings_disjoint [OF R _ k(1), of h] not_ring_node [of h R k zs] by (cases "R h") auto
  then show "dll (INIT_LIST_HEAD L h) k zs" "set (h # []) \<inter> set (k # zs) = {}"
    using k R by (auto intro: INIT_LIST_HEAD_frame rings_dll)
qed simp

lemma rings_forget: "rings L R \<Longrightarrow> rings L (R(h := None))"
  unfolding rings_def by (auto split: if_splits)

lemma rings_empty [simp]: "rings L Map.empty"
  by (simp add: rings_def)

text \<open>The list of \<open>src/list.h\<close> provides the store the allocator asks for.\<close>

interpretation lh: ring_store rings INIT_LIST_HEAD list_add list_add_tail list_del list_empty nxt
proof unfold_locales
  fix L R h x and xs :: "addr list"
  assume r: "rings L R"
  { assume "R h = Some xs"
    with r have d: "dll L h xs" by (rule rings_dll)
    show "distinct (h # xs)" using d by (rule dll_distinct)
    show "list_empty L h \<longleftrightarrow> xs = []" using d by (rule list_empty_iff) }
  assume "R h = Some (x # xs)"
  with r have "dll L h (x # xs)" by (rule rings_dll)
  then show "nxt L h = x" by (simp add: dll_next)
qed (fact rings_disjoint rings_init rings_add rings_add_tail rings_del rings_forget)+

end
