(* ===== verification/Size_Class.thy ===== *)
theory Size_Class
  imports Prelude
begin

text \<open>
  The size classes of \<open>src/wlmalloc.c\<close> (the tables \<open>cls2size\<close>, \<open>sizemap8\<close>, \<open>sizemap256\<close> and the
  function \<open>size2cls\<close>) and the program of \<open>src/sizeclass.c\<close> that prints such tables. The lemmas show
  that \<open>size2cls\<close> picks the smallest class that holds a request, and compare the printed tables with
  the ones the allocator contains.
\<close>

definition DEFAULT_CLASS_NUM :: nat where [layout]: "DEFAULT_CLASS_NUM = 29"
definition LARGE_CLASS :: nat where [layout]: "LARGE_CLASS = 31"

definition cls2size :: "nat list" where
  "cls2size =
    [16, 24, 32, 40, 48, 56, 64, 72, 80, 88, 96, 104, 112, 120, 128, 192, 256, 384, 512, 768,
     1024, 1536, 2048, 3072, 4096, 6144, 8192, 12288, 16384, 0, 0, 0]"

definition sizemap8 :: "nat list" where
  "sizemap8 =
    [0, 0, 1, 2, 3, 4, 5, 6, 7, 8, 9, 10, 11, 12, 13, 14, 15, 15, 15, 15, 15, 15, 15, 15, 16, 16,
     16, 16, 16, 16, 16, 16, 17, 17, 17, 17, 17, 17, 17, 17, 17, 17, 17, 17, 17, 17, 17, 17, 18,
     18, 18, 18, 18, 18, 18, 18, 18, 18, 18, 18, 18, 18, 18, 18]"

definition sizemap256 :: "nat list" where
  "sizemap256 =
    [0, 18, 19, 20, 21, 21, 22, 22, 23, 23, 23, 23, 24, 24, 24, 24, 25, 25, 25, 25, 25, 25, 25,
     25, 26, 26, 26, 26, 26, 26, 26, 26, 27, 27, 27, 27, 27, 27, 27, 27, 27, 27, 27, 27, 27, 27,
     27, 27, 28, 28, 28, 28, 28, 28, 28, 28, 28, 28, 28, 28, 28, 28, 28, 28]"

text \<open>\<open>size2cls\<close>; a size of 0 would read \<open>sizemap8\<close> at \<open>(0 - 1) >> 3\<close>, far outside the table.\<close>

definition size2cls :: "size_t \<Rightarrow> nat option" where
  "size2cls sz =
     (if sz \<le> 512 then array_get sizemap8 (unat (drop_bit 3 (sz - 1)))
      else if sz \<le> 16384 then array_get sizemap256 (unat (drop_bit 8 (sz - 1)))
      else Some LARGE_CLASS)"

subsection \<open>The generator\<close>

type_synonym gen_state = "nat list \<times> nat"

partial_function (option) gen_cls2size_small :: "nat \<Rightarrow> gen_state \<Rightarrow> gen_state option" where
  "gen_cls2size_small cursize s =
     (if cursize \<le> 128
      then (case s of (t, curcls) \<Rightarrow> gen_cls2size_small (cursize + 8) (t[curcls := cursize], curcls + 1))
      else Some s)"

partial_function (option) gen_cls2size_big :: "nat \<Rightarrow> gen_state \<Rightarrow> gen_state option" where
  "gen_cls2size_big cursize s =
     (if cursize < 16384
      then (case s of (t, curcls) \<Rightarrow>
        gen_cls2size_big (2 * cursize)
          (t[curcls := cursize + cursize div 2, curcls + 1 := 2 * cursize], curcls + 2))
      else Some s)"

definition gen_cls2size :: "nat list option" where
  "gen_cls2size =
     Option.bind (gen_cls2size_small 16 (replicate 64 0, 0)) (\<lambda>s.
     Option.bind (gen_cls2size_big 128 s) (\<lambda>(t, _). Some t))"

text \<open>
  One loop of \<open>gen_size2cls\<close>: sizes from \<open>cursize\<close> to \<open>limit\<close> in steps of \<open>step\<close>, the class moving
  up by at most one per step, table \<open>t\<close> written at \<open>(cursize - 1) >> shift\<close>. The class reached at the
  end of the first loop is where the second one starts.
\<close>

partial_function (option) gen_size2cls_loop ::
  "nat list \<Rightarrow> nat \<Rightarrow> nat \<Rightarrow> nat \<Rightarrow> nat \<Rightarrow> gen_state \<Rightarrow> gen_state option" where
  "gen_size2cls_loop sizes limit step shift cursize s =
     (if cursize \<le> limit
      then (case s of (t, curcls) \<Rightarrow>
        if cursize > sizes ! curcls
        then gen_size2cls_loop sizes limit step shift (cursize + step)
               (t[(cursize - 1) div 2 ^ shift := curcls + 1], curcls + 1)
        else gen_size2cls_loop sizes limit step shift (cursize + step)
               (t[(cursize - 1) div 2 ^ shift := curcls], curcls))
      else Some s)"

definition gen_size2cls :: "nat list \<Rightarrow> (nat list \<times> nat list) option" where
  "gen_size2cls sizes =
     Option.bind (gen_size2cls_loop sizes 512 8 3 16 (replicate 128 0, 0)) (\<lambda>(t8, curcls).
     Option.bind (gen_size2cls_loop sizes 16384 256 8 512 (replicate 128 0, curcls)) (\<lambda>(t512, _).
     Some (t8, t512)))"

subsection \<open>The tables\<close>

lemma length_tables [simp]:
  "length cls2size = 32" "length sizemap8 = 64" "length sizemap256 = 64"
  by (simp_all add: cls2size_def sizemap8_def sizemap256_def)

lemma cls2size_facts:
  "list_all (\<lambda>c. 16 \<le> cls2size ! c \<and> cls2size ! c \<le> 16384 \<and> cls2size ! c mod 8 = 0) [0..<29]"
  by (simp add: cls2size_def upt_0_step)

lemma cls2size_range:
  assumes "c < 29"
  shows "16 \<le> cls2size ! c" "cls2size ! c \<le> 16384" "cls2size ! c mod 8 = 0"
  using bspec [OF cls2size_facts [unfolded list_all_iff set_upt], of c] assms by simp_all

lemma cls2size_step: "list_all (\<lambda>c. cls2size ! c < cls2size ! Suc c) [0..<28]"
  by (simp add: cls2size_def upt_0_step)

lemma cls2size_less: "c < d \<Longrightarrow> d < 29 \<Longrightarrow> cls2size ! c < cls2size ! d"
proof (induction d)
  case (Suc d)
  then have "cls2size ! d < cls2size ! Suc d" 
    using bspec [OF cls2size_step [unfolded list_all_iff set_upt], of d] by simp
  with Suc show ?case by (cases "c = d") auto
qed simp

text \<open>
  Each entry of a map covers a range of sizes: its class holds the largest of them and the class
  below does not hold the smallest.
\<close>

definition entry_ok :: "nat \<Rightarrow> nat list \<Rightarrow> nat \<Rightarrow> bool" where
  "entry_ok w t j \<longleftrightarrow>
     (let c = t ! j in c < 29 \<and> w * j + w \<le> cls2size ! c \<and> (0 < c \<longrightarrow> cls2size ! (c - 1) \<le> w * j))"

lemma sizemap8_ok: "list_all (entry_ok 8 sizemap8) [0..<64]"
  by (simp add: entry_ok_def cls2size_def sizemap8_def upt_0_step)

lemma sizemap256_ok: "list_all (entry_ok 256 sizemap256) [2..<64]"
  by (simp add: entry_ok_def cls2size_def sizemap256_def)

lemma entry_tight:
  assumes ok: "entry_ok w t j" and n: "w * j < n" "n \<le> w * j + w"
  shows "t ! j < 29 \<and> n \<le> cls2size ! (t ! j) \<and> (\<forall>d < t ! j. cls2size ! d < n)"
proof -
  have "cls2size ! d < n" if d: "d < t ! j" for d
  proof -
    have "d = t ! j - 1 \<or> d < t ! j - 1" "t ! j - 1 < 29"
      using d ok by (auto simp: entry_ok_def Let_def)
    then have "cls2size ! d \<le> cls2size ! (t ! j - 1)"
      using cls2size_less [of d "t ! j - 1"] by auto
    with d ok n show ?thesis by (auto simp: entry_ok_def Let_def)
  qed
  with ok n show ?thesis by (auto simp: entry_ok_def Let_def)
qed

lemma unat_pred: "0 < sz \<Longrightarrow> unat (sz - 1 :: size_t) = unat sz - 1"
  by (simp add: unat_minus_one word_neq_0_conv)

lemma drop_pred:
  assumes "0 < sz" "w = 2 ^ k"
  shows "unat (drop_bit k (sz - 1 :: size_t)) = (unat sz - 1) div w"
    "w * ((unat sz - 1) div w) < unat sz" "unat sz \<le> w * ((unat sz - 1) div w) + w"
proof -
  show "unat (drop_bit k (sz - 1)) = (unat sz - 1) div w"
    unfolding unat_drop_bit_eq using assms by (simp add: drop_bit_eq_div [where ?'a = nat] unat_pred)
  have p: "0 < unat sz" "0 < w" using assms by (simp_all add: unat_gt_0)
  have "(unat sz - 1) mod w < w" using p by simp
  moreover have "w * ((unat sz - 1) div w) + (unat sz - 1) mod w = unat sz - 1"
    by (rule mult_div_mod_eq)
  ultimately show "w * ((unat sz - 1) div w) < unat sz"
    "unat sz \<le> w * ((unat sz - 1) div w) + w" using p by linarith+
qed

text \<open>The class of a small request, as a fact for the allocator.\<close>

lemma size2cls_small:
  assumes "0 < sz" "sz \<le> 16384"
  shows "\<exists>c. size2cls sz = Some c \<and> c < 29 \<and> unat sz \<le> cls2size ! c \<and> (\<forall>d<c. cls2size ! d < unat sz)"
proof (cases "sz \<le> 512")
  case True
  let ?j = "(unat sz - 1) div 8"
  have d: "unat (drop_bit 3 (sz - 1)) = ?j" "8 * ?j < unat sz" "unat sz \<le> 8 * ?j + 8"
    using drop_pred [OF assms(1), of 8 3] by simp_all
  have j: "?j < 64" using True by (simp add: word_le_nat_alt)
  then have "entry_ok 8 sizemap8 ?j"
    by (intro bspec [OF sizemap8_ok [unfolded list_all_iff set_upt]]) simp
  from entry_tight [OF this d(2,3)] show ?thesis
    using True d(1) j by (simp add: size2cls_def)
next
  case False
  let ?j = "(unat sz - 1) div 256"
  have d: "unat (drop_bit 8 (sz - 1)) = ?j" "256 * ?j < unat sz" "unat sz \<le> 256 * ?j + 256"
    using drop_pred [OF assms(1), of 256 8] by simp_all
  have j: "2 \<le> ?j" "?j < 64" using False assms by (simp_all add: word_le_nat_alt)
  then have "entry_ok 256 sizemap256 ?j"
    by (intro bspec [OF sizemap256_ok [unfolded list_all_iff set_upt]]) simp
  from entry_tight [OF this d(2,3)] show ?thesis
    using False assms d(1) j by (simp add: size2cls_def)
qed

lemma size2cls_large: "16384 < sz \<Longrightarrow> size2cls sz = Some LARGE_CLASS"
  by (simp add: size2cls_def word_le_nat_alt word_less_nat_alt)

lemma size2cls_zero: "size2cls 0 = None"
proof -
  have "unat (drop_bit 3 (- 1 :: size_t)) = 2 ^ 61 - 1"
    by (simp add: unat_drop_bit_eq drop_bit_eq_div)
  then show ?thesis by (simp add: size2cls_def)
qed

subsection \<open>What the generator prints\<close>

lemma zeros32:
  "replicate 32 (0::nat) =
    [0, 0, 0, 0, 0, 0, 0, 0, 0, 0, 0, 0, 0, 0, 0, 0, 0, 0, 0, 0, 0, 0, 0, 0, 0, 0, 0, 0, 0, 0, 0, 0]"
  by (simp add: numeral_eq_Suc)

lemma zeros64:
  "replicate 64 (0::nat) = replicate 32 0 @ replicate 32 0"
  "replicate 128 (0::nat) = replicate 32 0 @ replicate 32 0 @ replicate 32 0 @ replicate 32 0"
  by (simp_all flip: replicate_add)

lemma gen_cls2size_eq: "gen_cls2size = Some (cls2size @ replicate 32 0)"
  unfolding zeros64 zeros32 gen_cls2size_def cls2size_def
  by (simp add: gen_cls2size_small.simps gen_cls2size_big.simps)

lemma gen_size2cls8_eq:
  "gen_size2cls_loop cls2size 512 8 3 16 (replicate 128 0, 0) = Some (sizemap8 @ replicate 64 0, 18)"
  unfolding cls2size_def sizemap8_def zeros64 zeros32
  by (simp add: gen_size2cls_loop.simps)

lemma gen_size2cls512_eq:
  "gen_size2cls_loop cls2size 16384 256 8 512 (replicate 128 0, 18) = Some (sizemap256 @ replicate 64 0, 28)"
  unfolding cls2size_def sizemap256_def zeros64 zeros32
  by (simp add: gen_size2cls_loop.simps)

end
