(* ===== verification/Base_Correct.thy ===== *)
theory Base_Correct
  imports Link_List Size_Class
begin

text \<open>
  The properties of the two bases of the allocator: the intrusive list of \<open>src/list.h\<close> and the size
  classes of \<open>src/wlmalloc.c\<close> with their generator \<open>src/sizeclass.c\<close>.
\<close>

subsection \<open>Lists\<close>

text \<open>A ring of the nodes 100 and 200 with head 300, beside an empty one with head 400.\<close>

definition demo_links :: links where
  "demo_links = list_add_tail (list_add_tail (INIT_LIST_HEAD (INIT_LIST_HEAD \<lparr>nxt = (\<lambda>_. 0), prv = (\<lambda>_. 0)\<rparr> 400) 300) 100 300) 200 300"

definition demo_rings :: ring_map where
  "demo_rings = [400 \<mapsto> [], 300 \<mapsto> [100, 200]]"

lemma demo_rings_ok: "rings demo_links demo_rings"
proof -
  have "rings (INIT_LIST_HEAD \<lparr>nxt = (\<lambda>_. 0), prv = (\<lambda>_. 0)\<rparr> 400) [400 \<mapsto> []]"
    using lh.init [of _ Map.empty 400] by (simp add: ring_nodes_def)
  from lh.init [OF this, of 300]
  have a: "rings (INIT_LIST_HEAD (INIT_LIST_HEAD \<lparr>nxt = (\<lambda>_. 0), prv = (\<lambda>_. 0)\<rparr> 400) 300) [400 \<mapsto> [], 300 \<mapsto> []]"
    by (simp add: ring_nodes_def split: if_splits)
  from lh.add_tail [OF a, of 300 "[]" 100]
  have b: "rings (list_add_tail (INIT_LIST_HEAD (INIT_LIST_HEAD \<lparr>nxt = (\<lambda>_. 0), prv = (\<lambda>_. 0)\<rparr> 400) 300) 100 300)
      [400 \<mapsto> [], 300 \<mapsto> [100]]"
    by (simp add: ring_nodes_def split: if_splits)
  from lh.add_tail [OF b, of 300 "[100]" 200] show ?thesis
    by (simp add: ring_nodes_def demo_links_def demo_rings_def split: if_splits)
qed

text \<open>
  C21: \<open>list_add\<close> puts a new node in front of a list, \<open>list_add_tail\<close> at its end; every other list of
  the memory stays the list it was.
\<close>

theorem list_add_refines:
  assumes "rings L R" "R h = Some xs" "n \<notin> ring_nodes R"
  shows "rings (list_add L n h) (R(h \<mapsto> n # xs)) \<and> rings (list_add_tail L n h) (R(h \<mapsto> xs @ [n]))"
  by (rule conjI [OF lh.add [OF assms] lh.add_tail [OF assms]])

lemma list_add_refines_witness:
  "rings (list_add demo_links 500 300) (demo_rings(300 \<mapsto> [500, 100, 200])) \<and>
   rings (list_add_tail demo_links 500 300) (demo_rings(300 \<mapsto> [100, 200, 500]))"
  using list_add_refines [OF demo_rings_ok, of 300 "[100, 200]" 500]
  by (simp add: demo_rings_def ring_nodes_def split: if_splits)

text \<open>C22: \<open>list_del\<close> takes exactly its node out of the list that holds it, whichever list that is.\<close>

theorem list_del_refines:
  assumes "rings L R" "R h = Some xs" "e \<in> set xs"
  shows "rings (list_del L e) (R(h \<mapsto> remove1 e xs)) \<and> e \<notin> ring_nodes (R(h \<mapsto> remove1 e xs))"
  by (rule conjI [OF lh.del [OF assms] lh.removed_fresh [OF assms]])

lemma list_del_refines_witness:
  "rings (list_del demo_links 100) (demo_rings(300 \<mapsto> [200])) \<and> 100 \<notin> ring_nodes (demo_rings(300 \<mapsto> [200]))"
  using list_del_refines [OF demo_rings_ok, of 300 "[100, 200]" 100] by (simp add: demo_rings_def)

text \<open>
  The traversals end and meet every node of the list once, forwards in order and backwards in
  reverse; \<open>list_empty\<close> holds of the list without nodes only.
\<close>

theorem list_traversal:
  assumes "rings L R" "R h = Some xs"
  shows "list_for_each L h = Some xs \<and> list_for_each_prev L h = Some (rev xs) \<and> distinct xs \<and>
    (list_empty L h \<longleftrightarrow> xs = [])"
  using list_for_each_dll [OF rings_dll [OF assms]] list_for_each_prev_dll [OF rings_dll [OF assms]]
    lh.distinct [OF assms] lh.empty [OF assms] by simp

lemma list_traversal_witness:
  "list_for_each demo_links 300 = Some [100, 200] \<and> list_for_each_prev demo_links 300 = Some [200, 100] \<and>
   \<not> list_empty demo_links 300"
  using list_traversal [OF demo_rings_ok, of 300 "[100, 200]"] by (simp add: demo_rings_def)

text \<open>
  \<open>list_splice\<close> puts all nodes of one list in front of another, \<open>list_splice_tail\<close> at its end, in
  their order.
\<close>

theorem list_splice_joins:
  assumes "rings L R" "R l = Some ys" "R h = Some xs" "l \<noteq> h"
  shows "dll (list_splice L l h) h (ys @ xs) \<and> dll (list_splice_tail L l h) h (xs @ ys)"
proof -
  have d: "set (l # ys) \<inter> set (h # xs) = {}" by (rule lh.disjoint [OF assms])
  note r = rings_dll [OF assms(1,2)] rings_dll [OF assms(1,3)]
  show ?thesis by (rule conjI [OF list_splice_dll [OF r d] list_splice_tail_dll [OF r d]])
qed

lemma list_splice_joins_witness:
  "dll (list_splice demo_links 300 400) 400 [100, 200] \<and> dll (list_splice_tail demo_links 300 400) 400 [100, 200]"
  using list_splice_joins [OF demo_rings_ok, of 300 "[100, 200]" 400 "[]"] by (simp add: demo_rings_def)

subsection \<open>Size classes\<close>

text \<open>
  C23: Every size from 1 to 16384 has a class, read inside the tables, whose blocks are large enough,
  and no smaller class would do.
\<close>

theorem size_class_tight:
  assumes "0 < sz" "sz \<le> 16384"
  shows "\<exists>c<29. size2cls sz = Some c \<and> unat sz \<le> cls2size ! c \<and> (\<forall>d<c. cls2size ! d < unat sz)"
  using size2cls_small [OF assms] by blast

lemma size_class_tight_witness:
  "\<exists>c<29. size2cls 100 = Some c \<and> 100 \<le> cls2size ! c"
  using size_class_tight [of 100] by auto

text \<open>
  C24: The generator makes the three tables of \<open>src/wlmalloc.c\<close>: run on the sizes it computed it gives
  \<open>sizemap8\<close> and \<open>sizemap256\<close>, each in the first 64 places of its array.
\<close>

theorem generator_makes_tables:
  "gen_cls2size = Some (cls2size @ replicate 32 0) \<and>
   gen_size2cls cls2size = Some (sizemap8 @ replicate 64 0, sizemap256 @ replicate 64 0)"
  unfolding gen_size2cls_def gen_size2cls8_eq by (simp add: gen_size2cls512_eq gen_cls2size_eq)

end
