(* ===== verification/Span.thy ===== *)
theory Span
  imports Link_List Size_Class
begin

text \<open>
  The span of \<open>src/wlmalloc.h\<close>: a header of 72 bytes followed by 16384 bytes of blocks of one size
  class. The part of the memory the allocator itself reads and writes is a record: the list heads
  (\<open>lnk\<close>) and the span headers by the address of their span (\<open>span_at\<close>). A free block holds a list
  head at its own address. Offsets are those of an LP64 target.
\<close>

definition PAGE :: nat where [layout]: "PAGE = 4096"
definition SPAN_DATA_SIZE :: nat where [layout]: "SPAN_DATA_SIZE = 16384"
definition sizeof_span :: nat where [layout]: "sizeof_span = 72"
definition SPAN_SIZE :: nat where [layout]: "SPAN_SIZE = 16456"
definition ALLOC_UNIT :: nat where [layout]: "ALLOC_UNIT = 134217728"
definition POOL_OWNER :: addr where [layout]: "POOL_OWNER = 48059"
definition LARGE_OWNER :: addr where [layout]: "LARGE_OWNER = 43690"

text \<open>\<open>offsetof(span_t, blk_list)\<close> and \<open>offsetof(span_t, node)\<close>.\<close>

definition blk_list :: nat where [layout]: "blk_list = 40"
definition node :: nat where [layout]: "node = 56"

lemma SPAN_SIZE_parts: "SPAN_SIZE = SPAN_DATA_SIZE + sizeof_span"
  by (simp add: layout)

text \<open>\<open>ROUNDUP\<close> and \<open>GET_HEADER\<close>, in the unsigned 64-bit arithmetic of the casts.\<close>

definition ROUNDUP :: "size_t \<Rightarrow> size_t \<Rightarrow> size_t" where
  "ROUNDUP x n = (x + n - 1) div n * n"

definition GET_HEADER :: "addr \<Rightarrow> addr" where
  "GET_HEADER ptr = ptr - ptr mod SPAN_SIZE"

datatype span_state_t = IN_USE | SUSPEND | FREE

record span_t =
  owner :: addr
  state :: span_state_t
  cls :: nat
  blk_size :: u32
  free_blk :: addr
  free_cnt :: u32

record heap =
  lnk :: links
  span_at :: "addr \<Rightarrow> span_t"

definition upd_span :: "addr \<Rightarrow> (span_t \<Rightarrow> span_t) \<Rightarrow> 'a heap_scheme \<Rightarrow> 'a heap_scheme" where
  "upd_span sp f h = h\<lparr>span_at := (span_at h)(sp := f (span_at h sp))\<rparr>"

definition upd_lnk :: "(links \<Rightarrow> links) \<Rightarrow> 'a heap_scheme \<Rightarrow> 'a heap_scheme" where
  "upd_lnk f h = h\<lparr>lnk := f (lnk h)\<rparr>"

subsection \<open>Operations\<close>

definition span_init :: "'a heap_scheme \<Rightarrow> addr \<Rightarrow> nat \<Rightarrow> 'a heap_scheme outcome" where
  "span_init h span size_cls =
     bindE (from_option (array_get cls2size size_cls)) (\<lambda>size.
       let h1 = upd_span span (\<lambda>s. s\<lparr>cls := size_cls\<rparr>) h;
           h2 = upd_span span (\<lambda>s. s\<lparr>blk_size := of_nat size\<rparr>) h1;
           h3 = upd_span span (\<lambda>s. s\<lparr>free_cnt := of_nat SPAN_DATA_SIZE div blk_size s\<rparr>) h2;
           h4 = upd_span span (\<lambda>s. s\<lparr>free_blk := span + sizeof_span\<rparr>) h3
       in Inr (upd_lnk (\<lambda>L. INIT_LIST_HEAD L (span + blk_list)) h4))"

definition get_blk :: "'a heap_scheme \<Rightarrow> addr \<Rightarrow> addr \<times> 'a heap_scheme" where
  "get_blk h span =
     (if \<not> list_empty (lnk h) (span + blk_list)
      then (let ret = nxt (lnk h) (span + blk_list);
                h1 = upd_lnk (\<lambda>L. list_del L (nxt L (span + blk_list))) h
            in (ret, upd_span span (\<lambda>s. s\<lparr>free_cnt := free_cnt s - 1\<rparr>) h1))
      else (let ret = free_blk (span_at h span);
                h1 = upd_span span (\<lambda>s. s\<lparr>free_blk := free_blk s + unat (blk_size s)\<rparr>) h
            in (ret, upd_span span (\<lambda>s. s\<lparr>free_cnt := free_cnt s - 1\<rparr>) h1)))"

text \<open>
  The body the three branches of \<open>span_free_blk\<close> share; they differ in the mutex around it and in
  the list \<open>free_list\<close> that a completely free span moves to.
\<close>

definition release_blk :: "'a heap_scheme \<Rightarrow> addr \<Rightarrow> addr \<Rightarrow> addr \<Rightarrow> 'a heap_scheme" where
  "release_blk h span blk free_list =
     (let h1 = upd_span span (\<lambda>s. s\<lparr>free_cnt := free_cnt s + 1\<rparr>) h;
          s = span_at h1 span;
          h2 = (if state s = SUSPEND \<and> free_cnt s = of_nat SPAN_DATA_SIZE div blk_size s
                then (let a = upd_lnk (\<lambda>L. list_del L (span + node)) h1;
                          b = upd_lnk (\<lambda>L. list_add_tail L (span + node) free_list) a;
                          c = upd_lnk (\<lambda>L. INIT_LIST_HEAD L (span + blk_list)) b
                      in upd_span span (\<lambda>s. s\<lparr>state := FREE\<rparr>) c)
                else h1)
      in upd_lnk (\<lambda>L. list_add L blk (span + blk_list)) h2)"

lemma upd_simps [simp]:
  "lnk (upd_span sp f h) = lnk h"
  "span_at (upd_span sp f h) = (span_at h)(sp := f (span_at h sp))"
  "lnk (upd_lnk g h) = g (lnk h)"
  "span_at (upd_lnk g h) = span_at h"
  "heap.more (upd_span sp f h) = heap.more h"
  "heap.more (upd_lnk g h) = heap.more h"
  by (simp_all add: upd_span_def upd_lnk_def)

subsection \<open>The blocks of a span\<close>

text \<open>How many blocks of class \<open>c\<close> a span holds, and the first \<open>u\<close> of them.\<close>

definition cap :: "nat \<Rightarrow> nat" where
  "cap c = SPAN_DATA_SIZE div cls2size ! c"

definition blk_addr :: "addr \<Rightarrow> nat \<Rightarrow> nat \<Rightarrow> addr" where
  "blk_addr sp c i = sp + sizeof_span + i * cls2size ! c"

definition blocks :: "addr \<Rightarrow> nat \<Rightarrow> nat \<Rightarrow> addr set" where
  "blocks sp c u = blk_addr sp c ` {..<u}"

lemma cap_bounds: "c < 29 \<Longrightarrow> 1 \<le> cap c" "c < 29 \<Longrightarrow> cap c \<le> 1024"
proof -
  assume c: "c < 29"
  show "1 \<le> cap c"
    using cls2size_range [OF c] by (simp add: cap_def layout Suc_le_eq div_greater_zero_iff)
  have "16384 div cls2size ! c \<le> 16384 div 16"
    using cls2size_range(1) [OF c] by (intro div_le_mono2) auto
  then show "cap c \<le> 1024" by (simp add: cap_def layout)
qed

lemma cap_fits: "c < 29 \<Longrightarrow> cap c * cls2size ! c \<le> SPAN_DATA_SIZE"
  by (simp add: cap_def)

lemma blk_addr_inj:
  assumes "c < 29" shows "blk_addr sp c i = blk_addr sp c j \<longleftrightarrow> i = j"
  using cls2size_range(1) [OF assms] by (auto simp: blk_addr_def)

lemma blk_addr_notin: "c < 29 \<Longrightarrow> u \<le> i \<Longrightarrow> blk_addr sp c i \<notin> blocks sp c u"
  by (auto simp: blocks_def blk_addr_inj)

lemma card_blocks: "c < 29 \<Longrightarrow> card (blocks sp c u) = u"
  unfolding blocks_def by (subst card_image) (auto simp: inj_on_def blk_addr_inj)

lemma blocks_Suc: "blocks sp c (Suc u) = insert (blk_addr sp c u) (blocks sp c u)"
  by (simp add: blocks_def lessThan_Suc)

lemma blocks_mono: "u \<le> v \<Longrightarrow> blocks sp c u \<subseteq> blocks sp c v"
  by (auto simp: blocks_def)

lemma finite_blocks [simp]: "finite (blocks sp c u)"
  by (simp add: blocks_def)

text \<open>A block lies whole inside the span's data.\<close>

lemma block_inside:
  assumes c: "c < 29" and b: "b \<in> blocks sp c (cap c)"
  shows "sp + sizeof_span \<le> b" "b + cls2size ! c \<le> sp + SPAN_SIZE"
proof -
  obtain i where i: "i < cap c" "b = blk_addr sp c i" using b by (auto simp: blocks_def)
  then have "Suc i * cls2size ! c \<le> cap c * cls2size ! c" by (intro mult_le_mono1) auto
  with cap_fits [OF c] i show "sp + sizeof_span \<le> b" "b + cls2size ! c \<le> sp + SPAN_SIZE"
    by (simp_all add: blk_addr_def SPAN_SIZE_parts)
qed

lemma blocks_apart:
  assumes c: "c < 29" and b: "b \<in> blocks sp c u" "b' \<in> blocks sp c u" "b \<noteq> b'"
  shows "b + cls2size ! c \<le> b' \<or> b' + cls2size ! c \<le> b"
proof -
  obtain i j where ij: "b = blk_addr sp c i" "b' = blk_addr sp c j" using b by (auto simp: blocks_def)
  with b(3) have "i \<noteq> j" by auto
  then have "Suc i \<le> j \<or> Suc j \<le> i" by arith
  then have "Suc i * cls2size ! c \<le> j * cls2size ! c \<or> Suc j * cls2size ! c \<le> i * cls2size ! c"
    using mult_le_mono1 [of "Suc i" j "cls2size ! c"] mult_le_mono1 [of "Suc j" i "cls2size ! c"] by blast
  with ij show ?thesis by (auto simp: blk_addr_def)
qed

text \<open>Aligned spans: the header is found from any address inside.\<close>

lemma GET_HEADER_inside:
  assumes "sp mod SPAN_SIZE = 0" "sp \<le> a" "a < sp + SPAN_SIZE"
  shows "GET_HEADER a = sp"
proof -
  obtain q where "sp = SPAN_SIZE * q" using assms(1) by auto
  moreover obtain r where "a = sp + r" "r < SPAN_SIZE"
    using assms(2,3) by (metis le_add_diff_inverse less_diff_conv2 add.commute)
  ultimately show ?thesis by (simp add: GET_HEADER_def)
qed

lemma block_header:
  assumes "c < 29" "sp mod SPAN_SIZE = 0" "b \<in> blocks sp c (cap c)"
  shows "GET_HEADER b = sp"
  using block_inside [OF assms(1,3)] cls2size_range(1) [OF assms(1)] assms(2)
  by (intro GET_HEADER_inside) auto

subsection \<open>The span invariant\<close>

text \<open>
  \<open>span_ok s sp fl A\<close>: of the span at \<open>sp\<close> with header \<open>s\<close>, the first \<open>u\<close> blocks have been handed out
  at some time; \<open>A\<close> are the ones the program holds now and \<open>fl\<close> the ones on the free list;
  \<open>free_cnt\<close> counts the free list and the blocks never handed out.
\<close>

definition span_ok :: "span_t \<Rightarrow> addr \<Rightarrow> addr list \<Rightarrow> addr set \<Rightarrow> bool" where
  "span_ok s sp fl A \<longleftrightarrow>
     cls s < 29 \<and> unat (blk_size s) = cls2size ! cls s \<and>
     (\<exists>u \<le> cap (cls s). free_blk s = blk_addr sp (cls s) u \<and> set fl \<union> A = blocks sp (cls s) u \<and>
        set fl \<inter> A = {} \<and> distinct fl \<and> unat (free_cnt s) = length fl + (cap (cls s) - u))"

lemma span_ok_cls: "span_ok s sp fl A \<Longrightarrow> cls s < 29" "span_ok s sp fl A \<Longrightarrow> unat (blk_size s) = cls2size ! cls s"
  by (simp_all add: span_ok_def)

lemma span_ok_blocks:
  "span_ok s sp fl A \<Longrightarrow> set fl \<union> A \<subseteq> blocks sp (cls s) (cap (cls s))"
  unfolding span_ok_def using blocks_mono by blast

lemma span_ok_frame:
  "span_ok s sp fl A \<Longrightarrow> span_ok (s\<lparr>owner := t\<rparr>) sp fl A"
  "span_ok s sp fl A \<Longrightarrow> span_ok (s\<lparr>state := st\<rparr>) sp fl A"
  by (simp_all add: span_ok_def)

lemma span_ok_counts:
  assumes "span_ok s sp fl A"
  shows "unat (free_cnt s) + card A = cap (cls s)" "finite A"
proof -
  from assms obtain u where u: "cls s < 29" "u \<le> cap (cls s)" "set fl \<union> A = blocks sp (cls s) u"
    "set fl \<inter> A = {}" "distinct fl" "unat (free_cnt s) = length fl + (cap (cls s) - u)"
    unfolding span_ok_def by blast
  have f: "finite A" using u(3) finite_blocks by (metis finite_Un)
  with u have "card (set fl) + card A = u"
    by (metis card_Un_disjoint card_blocks finite_set)
  with u f show "unat (free_cnt s) + card A = cap (cls s)" "finite A"
    by (simp_all add: distinct_card)
qed

lemma full_test:
  assumes "span_ok s sp fl A"
  shows "free_cnt s = of_nat SPAN_DATA_SIZE div blk_size s \<longleftrightarrow> A = {}"
proof -
  have "unat (of_nat SPAN_DATA_SIZE div blk_size s :: u32) = cap (cls s)"
    using span_ok_cls [OF assms] by (simp add: unat_div cap_def layout)
  then have "free_cnt s = of_nat SPAN_DATA_SIZE div blk_size s \<longleftrightarrow> unat (free_cnt s) = cap (cls s)"
    by (metis word_unat_eq_iff)
  with span_ok_counts [OF assms] show ?thesis by auto
qed

lemma span_ok_init:
  assumes "c < 29"
  shows "span_ok (s\<lparr>cls := c, blk_size := of_nat (cls2size ! c),
      free_cnt := of_nat SPAN_DATA_SIZE div of_nat (cls2size ! c), free_blk := sp + sizeof_span\<rparr>) sp [] {}"
proof -
  have "unat (of_nat (cls2size ! c) :: u32) = cls2size ! c"
    using cls2size_range [OF assms] by (simp add: unat_of_nat take_bit_nat_eq_self)
  then show ?thesis
    using assms by (simp add: span_ok_def blk_addr_def blocks_def cap_def unat_div layout
        exI [of _ 0])
qed

lemma unat_pred32: "0 < unat (x :: u32) \<Longrightarrow> unat (x - 1) = unat x - 1"
  by (metis unat_gt_0 unat_minus_one word_neq_0_conv)

lemma span_ok_take:
  assumes "span_ok s sp (b # fl) A"
  shows "b \<notin> A" "span_ok (s\<lparr>free_cnt := free_cnt s - 1\<rparr>) sp fl (insert b A)"
proof -
  show "b \<notin> A" using assms by (auto simp: span_ok_def)
  have "unat (free_cnt s - 1) = unat (free_cnt s) - 1"
    using assms by (intro unat_pred32) (auto simp: span_ok_def)
  then show "span_ok (s\<lparr>free_cnt := free_cnt s - 1\<rparr>) sp fl (insert b A)"
    using assms by (auto simp: span_ok_def)
qed

lemma span_ok_fresh:
  assumes ok: "span_ok s sp [] A" and f: "0 < free_cnt s"
  shows "free_blk s \<notin> A" "free_blk s \<in> blocks sp (cls s) (cap (cls s))"
    "span_ok (s\<lparr>free_blk := free_blk s + unat (blk_size s), free_cnt := free_cnt s - 1\<rparr>) sp []
       (insert (free_blk s) A)"
proof -
  from ok obtain u where u: "cls s < 29" "unat (blk_size s) = cls2size ! cls s" "u \<le> cap (cls s)"
    "free_blk s = blk_addr sp (cls s) u" "A = blocks sp (cls s) u" "unat (free_cnt s) = cap (cls s) - u"
    by (auto simp: span_ok_def)
  have "0 < unat (free_cnt s)" using f by (simp add: unat_gt_0 word_neq_0_conv)
  then have p: "u < cap (cls s)" "unat (free_cnt s - 1) = unat (free_cnt s) - 1"
    using u unat_pred32 by auto
  show "free_blk s \<notin> A" using u by (simp add: blk_addr_notin)
  show "free_blk s \<in> blocks sp (cls s) (cap (cls s))" using u p by (simp add: blocks_def)
  have "free_blk s + unat (blk_size s) = blk_addr sp (cls s) (Suc u)"
    using u by (simp add: blk_addr_def)
  with u p show "span_ok (s\<lparr>free_blk := free_blk s + unat (blk_size s), free_cnt := free_cnt s - 1\<rparr>) sp []
       (insert (free_blk s) A)"
    by (auto simp: span_ok_def blocks_Suc intro!: exI [of _ "Suc u"])
qed

lemma span_ok_release:
  assumes ok: "span_ok s sp fl A" and b: "b \<in> A"
  shows "span_ok (s\<lparr>free_cnt := free_cnt s + 1\<rparr>) sp (b # fl) (A - {b})"
proof -
  have "unat (free_cnt s) \<le> 1024"
    using span_ok_counts(1) [OF ok] cap_bounds(2) [OF span_ok_cls(1) [OF ok]] by linarith
  then have "unat (free_cnt s + 1) = unat (free_cnt s) + 1"
    by (simp add: unat_word_ariths)
  then show ?thesis using ok b by (auto simp: span_ok_def)
qed

end
