(* ===== verification/Pool.thy ===== *)
theory Pool
  imports Span
begin

text \<open>
  The global pool \<open>gpool_t\<close> of \<open>src/wlmalloc.h\<close>, the thread caches \<open>tcache_t\<close>, and the allocator state
  that holds them; the pool's operations \<open>global_init\<close> and \<open>acquire_span\<close> and the two system-call
  wrappers of \<open>src/wlmalloc.c\<close>.

  What the kernel and the linker decide is the argument \<open>E\<close>: where the global \<open>pool\<close> lies, and what
  each \<open>mmap\<close> and \<open>munmap\<close> call returns (by the number of calls made before). The calls themselves are
  recorded in \<open>os_calls\<close>. A mutex is the flag "held"; a step is one whole operation of one thread, so
  a mutex found held by the same step can never be released and the call stops with \<open>Deadlock\<close>.
  \<open>pthread_mutex_init\<close> and \<open>pthread_key_create\<close> succeed (their results are never negative, so the
  branches that test for it are dead).
\<close>

datatype os_call = Mmap size_t addr | Munmap addr size_t

record os_env =
  pool_addr :: addr
  mmap :: "nat \<Rightarrow> size_t \<Rightarrow> addr"
  munmap_ok :: "nat \<Rightarrow> addr \<Rightarrow> size_t \<Rightarrow> bool"

definition MAP_FAILED :: addr where [layout]: "MAP_FAILED = 2 ^ 64 - 1"

record gpool_t =
  pool_lock :: bool
  pool_start :: addr
  pool_end :: addr
  free_start :: addr

record tcache_t =
  lock :: bool
  using_span :: "nat \<Rightarrow> addr"

record wl = heap +
  pool :: gpool_t
  tcache_at :: "addr \<Rightarrow> tcache_t"
  thread_state :: "addr \<Rightarrow> bool"
  init_once :: bool
  mem :: bytes
  os_calls :: "os_call list"

lemma wl_upd_simps [simp]:
  "pool (upd_span sp f s) = pool s" "pool (upd_lnk g s) = pool s"
  "tcache_at (upd_span sp f s) = tcache_at s" "tcache_at (upd_lnk g s) = tcache_at s"
  "thread_state (upd_span sp f s) = thread_state s" "thread_state (upd_lnk g s) = thread_state s"
  "init_once (upd_span sp f s) = init_once s" "init_once (upd_lnk g s) = init_once s"
  "mem (upd_span sp f s) = mem s" "mem (upd_lnk g s) = mem s"
  "os_calls (upd_span sp f s) = os_calls s" "os_calls (upd_lnk g s) = os_calls s"
  by (simp_all add: upd_span_def upd_lnk_def)

text \<open>Addresses of the list heads inside \<open>pool\<close> and inside a thread's \<open>local_tcache\<close>.\<close>

definition pool_free_list :: "os_env \<Rightarrow> addr" where
  [layout]: "pool_free_list E = pool_addr E + 64"

definition pool_suspend :: "os_env \<Rightarrow> nat \<Rightarrow> addr" where
  [layout]: "pool_suspend E i = pool_addr E + 80 + 16 * i"

definition tc_suspend :: "addr \<Rightarrow> nat \<Rightarrow> addr" where
  [layout]: "tc_suspend tc i = tc + 272 + 16 * i"

definition tc_free_list :: "addr \<Rightarrow> addr" where
  [layout]: "tc_free_list tc = tc + 736"

subsection \<open>System calls and mutexes\<close>

definition syscall_alloc :: "os_env \<Rightarrow> wl \<Rightarrow> size_t \<Rightarrow> addr \<times> wl" where
  "syscall_alloc E s sz =
     (let r = mmap E (length (os_calls s)) sz in (r, s\<lparr>os_calls := os_calls s @ [Mmap sz r]\<rparr>))"

definition syscall_free :: "os_env \<Rightarrow> wl \<Rightarrow> addr \<Rightarrow> size_t \<Rightarrow> bool \<times> wl" where
  "syscall_free E s pos sz =
     (munmap_ok E (length (os_calls s)) pos sz, s\<lparr>os_calls := os_calls s @ [Munmap pos sz]\<rparr>)"

definition lock_pool :: "wl \<Rightarrow> wl outcome" where
  "lock_pool s =
     (if pool_lock (pool s) then Inl Deadlock else Inr (s\<lparr>pool := (pool s)\<lparr>pool_lock := True\<rparr>\<rparr>))"

definition unlock_pool :: "wl \<Rightarrow> wl" where
  "unlock_pool s = s\<lparr>pool := (pool s)\<lparr>pool_lock := False\<rparr>\<rparr>"

definition upd_tc :: "addr \<Rightarrow> (tcache_t \<Rightarrow> tcache_t) \<Rightarrow> wl \<Rightarrow> wl" where
  "upd_tc tc f s = s\<lparr>tcache_at := (tcache_at s)(tc := f (tcache_at s tc))\<rparr>"

definition lock_tc :: "addr \<Rightarrow> wl \<Rightarrow> wl outcome" where
  "lock_tc tc s =
     (if lock (tcache_at s tc) then Inl Deadlock else Inr (upd_tc tc (\<lambda>t. t\<lparr>lock := True\<rparr>) s))"

definition unlock_tc :: "addr \<Rightarrow> wl \<Rightarrow> wl" where
  "unlock_tc tc s = upd_tc tc (\<lambda>t. t\<lparr>lock := False\<rparr>) s"

lemma upd_tc_simps [simp]:
  "lnk (upd_tc tc f s) = lnk s" "span_at (upd_tc tc f s) = span_at s" "pool (upd_tc tc f s) = pool s"
  "tcache_at (upd_tc tc f s) = (tcache_at s)(tc := f (tcache_at s tc))"
  "thread_state (upd_tc tc f s) = thread_state s" "init_once (upd_tc tc f s) = init_once s"
  "mem (upd_tc tc f s) = mem s" "os_calls (upd_tc tc f s) = os_calls s"
  by (simp_all add: upd_tc_def)

subsection \<open>global\_init\<close>

definition global_init :: "os_env \<Rightarrow> wl \<Rightarrow> wl outcome" where
  "global_init E s =
     (let (raw, s1) = syscall_alloc E (s\<lparr>pool := (pool s)\<lparr>pool_lock := False\<rparr>\<rparr>) (of_nat ALLOC_UNIT)
      in if raw = MAP_FAILED then Inl Exit
         else
           let start = unat (ROUNDUP (of_nat raw) (of_nat SPAN_SIZE));
               s2 = s1\<lparr>pool := (pool s1)\<lparr>pool_start := start, pool_end := raw + ALLOC_UNIT,
                        free_start := start\<rparr>\<rparr>;
               s3 = upd_lnk (\<lambda>L. INIT_LIST_HEAD L (pool_free_list E)) s2
           in Inr (upd_lnk (\<lambda>L. fold (\<lambda>i L. INIT_LIST_HEAD L (pool_suspend E i)) [0..<DEFAULT_CLASS_NUM] L) s3))"

subsection \<open>acquire\_span\<close>

text \<open>Cutting the next span off the mapped area; the last two cases of \<open>acquire_span\<close> end so.\<close>

definition carve_span :: "wl \<Rightarrow> nat \<Rightarrow> (addr \<times> wl) outcome" where
  "carve_span s size_cls =
     (let span = free_start (pool s);
          s1 = s\<lparr>pool := (pool s)\<lparr>free_start := free_start (pool s) + SPAN_SIZE\<rparr>\<rparr>
      in bindE (span_init (unlock_pool s1) span size_cls) (\<lambda>s2. Inr (span, s2)))"

definition acquire_span :: "os_env \<Rightarrow> wl \<Rightarrow> nat \<Rightarrow> (addr \<times> wl) outcome" where
  "acquire_span E s0 size_cls =
     bindE (lock_pool s0) (\<lambda>s.
       if \<not> list_empty (lnk s) (pool_suspend E size_cls)
       then (let span = list_entry (nxt (lnk s) (pool_suspend E size_cls)) node;
                 s1 = upd_lnk (\<lambda>L. list_del L (nxt L (pool_suspend E size_cls))) s
             in Inr (span, unlock_pool s1))
       else if \<not> list_empty (lnk s) (pool_free_list E)
       then (let span = list_entry (nxt (lnk s) (pool_free_list E)) node;
                 s1 = upd_lnk (\<lambda>L. list_del L (nxt L (pool_free_list E))) s
             in bindE (span_init (unlock_pool s1) span size_cls) (\<lambda>s2. Inr (span, s2)))
       else if free_start (pool s) + SPAN_SIZE \<le> pool_end (pool s)
       then carve_span s size_cls
       else (let (raw, s1) = syscall_alloc E s (of_nat ALLOC_UNIT)
             in if raw \<noteq> pool_end (pool s1) then Inl Exit
                else carve_span (s1\<lparr>pool := (pool s1)\<lparr>pool_end := pool_end (pool s1) + ALLOC_UNIT\<rparr>\<rparr>)
                       size_cls))"

end
