(* ===== verification/Tcache.thy ===== *)
theory Tcache
  imports Pool
begin

text \<open>
  The thread cache of \<open>src/wlmalloc.c\<close>: \<open>thread_cache_init\<close>, \<open>replace_available_span\<close>, \<open>small_alloc\<close>,
  \<open>span_free_blk\<close> and \<open>thread_exit\<close>. The running thread is given by the address \<open>tc\<close> of its
  \<open>local_tcache\<close>.
\<close>

definition thread_cache_init :: "addr \<Rightarrow> wl \<Rightarrow> wl" where
  "thread_cache_init tc s =
     (let s1 = upd_tc tc (\<lambda>t. t\<lparr>lock := False\<rparr>) s;
          s2 = fold (\<lambda>i s. upd_lnk (\<lambda>L. INIT_LIST_HEAD L (tc_suspend tc i))
                             (upd_tc tc (\<lambda>t. t\<lparr>using_span := (using_span t)(i := NULL)\<rparr>) s))
                 [0..<DEFAULT_CLASS_NUM] s1;
          s3 = upd_lnk (\<lambda>L. INIT_LIST_HEAD L (tc_free_list tc)) s2
      in s3\<lparr>thread_state := (thread_state s3)(tc := True)\<rparr>)"

text \<open>\<open>check_init\<close>: the process is initialised once, every thread at its first request.\<close>

definition check_init :: "os_env \<Rightarrow> addr \<Rightarrow> wl \<Rightarrow> wl outcome" where
  "check_init E tc s =
     (if \<not> thread_state s tc
      then bindE (if \<not> init_once s then global_init E (s\<lparr>init_once := True\<rparr>) else Inr s)
             (\<lambda>s1. Inr (thread_cache_init tc s1))
      else Inr s)"

text \<open>The search of \<open>replace_available_span\<close>: the first span on the list with a free block.\<close>

partial_function (option) find_available ::
  "'a heap_scheme \<Rightarrow> addr \<Rightarrow> addr \<Rightarrow> addr option option" where
  "find_available h head pos =
     (if pos = head then Some None
      else if free_cnt (span_at h (list_entry pos node)) > 0 then Some (Some (list_entry pos node))
      else find_available h head (nxt (lnk h) pos))"

text \<open>
  The \<open>break\<close> after \<open>list_del\<close> leaves the \<open>list_for_each_entry\<close> loop only, so control always goes on
  to the free list or to the pool, and the span found is not the one that is used.
\<close>

definition replace_available_span :: "os_env \<Rightarrow> addr \<Rightarrow> wl \<Rightarrow> nat \<Rightarrow> wl outcome" where
  "replace_available_span E tc s size_cls =
     bindE
       (if \<not> list_empty (lnk s) (tc_suspend tc size_cls)
        then bindE (from_option (find_available s (tc_suspend tc size_cls)
                                   (nxt (lnk s) (tc_suspend tc size_cls))))
               (\<lambda>r. Inr (case r of None \<Rightarrow> s
                         | Some span \<Rightarrow> upd_lnk (\<lambda>L. list_del L (span + node)) s))
        else Inr s)
       (\<lambda>s1.
     bindE
       (if \<not> list_empty (lnk s1) (tc_free_list tc)
        then (let span = list_entry (nxt (lnk s1) (tc_free_list tc)) node;
                  s2 = upd_lnk (\<lambda>L. list_del L (span + node)) s1
              in bindE (span_init s2 span size_cls) (\<lambda>s3. Inr (span, s3)))
        else acquire_span E s1 size_cls)
       (\<lambda>(span, s4).
     let s5 = upd_tc tc (\<lambda>t. t\<lparr>using_span := (using_span t)(size_cls := span)\<rparr>) s4;
         s6 = upd_span span (\<lambda>sp. sp\<lparr>owner := tc\<rparr>) s5
     in Inr (upd_span span (\<lambda>sp. sp\<lparr>state := IN_USE\<rparr>) s6)))"

definition small_alloc :: "os_env \<Rightarrow> addr \<Rightarrow> wl \<Rightarrow> nat \<Rightarrow> (addr \<times> wl) outcome" where
  "small_alloc E tc s size_cls =
     (let span = using_span (tcache_at s tc) size_cls
      in bindE
           (if span = NULL then replace_available_span E tc s size_cls
            else if free_cnt (span_at s span) = 0
            then (let s1 = upd_span span (\<lambda>sp. sp\<lparr>state := SUSPEND\<rparr>) s;
                      s2 = upd_lnk (\<lambda>L. list_add_tail L (span + node) (tc_suspend tc size_cls)) s1
                  in replace_available_span E tc s2 size_cls)
            else Inr s)
           (\<lambda>s3. Inr (get_blk s3 (using_span (tcache_at s3 tc) size_cls))))"

definition span_free_blk :: "os_env \<Rightarrow> addr \<Rightarrow> wl \<Rightarrow> addr \<Rightarrow> addr \<Rightarrow> wl outcome" where
  "span_free_blk E tc s span blk =
     (let own = owner (span_at s span)
      in if own = tc
         then Inr (release_blk s span blk (tc_free_list tc))
         else if own = POOL_OWNER
         then bindE (lock_pool s) (\<lambda>s1.
                Inr (unlock_tc tc (release_blk s1 span blk (pool_free_list E))))
         else bindE (lock_tc own s) (\<lambda>s1.
                Inr (unlock_tc own (release_blk s1 span blk (tc_free_list tc)))))"

subsection \<open>thread\_exit\<close>

definition suspend_using :: "addr \<Rightarrow> nat \<Rightarrow> wl \<Rightarrow> wl" where
  "suspend_using tc i s =
     (let span = using_span (tcache_at s tc) i
      in if span \<noteq> NULL then upd_lnk (\<lambda>L. list_add_tail L (span + node) (tc_suspend tc i)) s else s)"

definition disown :: "addr \<Rightarrow> wl \<Rightarrow> wl" where
  "disown pos s = upd_span (list_entry pos node) (\<lambda>sp. sp\<lparr>owner := POOL_OWNER\<rparr>) s"

definition give_suspended :: "os_env \<Rightarrow> addr \<Rightarrow> nat \<Rightarrow> wl \<Rightarrow> wl outcome" where
  "give_suspended E tc i s =
     bindE (from_option (list_for_each (lnk s) (tc_suspend tc i))) (\<lambda>nodes.
       let s1 = fold disown nodes s
       in Inr (if \<not> list_empty (lnk s1) (tc_suspend tc i)
               then upd_lnk (\<lambda>L. list_splice_tail L (tc_suspend tc i) (pool_suspend E i)) s1
               else s1))"

fun give_all_suspended :: "os_env \<Rightarrow> addr \<Rightarrow> nat list \<Rightarrow> wl \<Rightarrow> wl outcome" where
  "give_all_suspended E tc [] s = Inr s"
| "give_all_suspended E tc (i # is) s =
     bindE (give_suspended E tc i s) (give_all_suspended E tc is)"

definition thread_exit :: "os_env \<Rightarrow> addr \<Rightarrow> wl \<Rightarrow> wl outcome" where
  "thread_exit E tc s =
     (let s1 = fold (suspend_using tc) [0..<DEFAULT_CLASS_NUM] s
      in bindE (lock_pool s1) (\<lambda>s2.
         bindE (give_all_suspended E tc [0..<DEFAULT_CLASS_NUM] s2) (\<lambda>s3.
         Inr (unlock_pool
           (upd_lnk (\<lambda>L. list_splice_tail L (tc_free_list tc) (pool_free_list E)) s3)))))"

end
