(* ===== verification/Malloc.thy ===== *)
theory Malloc
  imports Tcache
begin

text \<open>
  The entry points of \<open>src/wlmalloc.c\<close>: \<open>wl_malloc\<close>, \<open>wl_free\<close>, \<open>large_alloc\<close> and the libc names
  \<open>malloc\<close>, \<open>free\<close>, \<open>calloc\<close>, \<open>realloc\<close>. User data lies in the byte memory \<open>mem\<close>.
\<close>

definition large_alloc :: "os_env \<Rightarrow> wl \<Rightarrow> size_t \<Rightarrow> (addr \<times> wl) outcome" where
  "large_alloc E s sz =
     (let (raw, s1) = syscall_alloc E s sz
      in if raw = MAP_FAILED then Inl Undefined
         else (let s2 = upd_span raw (\<lambda>sp. sp\<lparr>owner := LARGE_OWNER\<rparr>) s1;
                   s3 = upd_span raw (\<lambda>sp. sp\<lparr>blk_size := ucast sz\<rparr>) s2
               in Inr (raw + sizeof_span, s3)))"

definition wl_malloc :: "os_env \<Rightarrow> addr \<Rightarrow> wl \<Rightarrow> size_t \<Rightarrow> (addr \<times> wl) outcome" where
  "wl_malloc E tc s0 sz =
     bindE (check_init E tc s0) (\<lambda>s.
       if sz = 0 then Inr (NULL, s)
       else bindE (from_option (size2cls sz)) (\<lambda>size_cls.
         if size_cls < DEFAULT_CLASS_NUM then small_alloc E tc s size_cls
         else if size_cls = LARGE_CLASS then large_alloc E s sz
         else Inl Exit))"

definition outside_pool :: "wl \<Rightarrow> addr \<Rightarrow> bool" where
  "outside_pool s ptr \<longleftrightarrow> ptr < pool_start (pool s) \<or> pool_end (pool s) < ptr"

text \<open>Unmapping a large block, as \<open>wl_free\<close> and \<open>realloc\<close> do it.\<close>

definition large_free :: "os_env \<Rightarrow> wl \<Rightarrow> addr \<Rightarrow> wl outcome" where
  "large_free E s span =
     (let (ok, s1) = syscall_free E s span (ucast (blk_size (span_at s span)))
      in if \<not> ok then Inl Exit else Inr s1)"

definition wl_free :: "os_env \<Rightarrow> addr \<Rightarrow> wl \<Rightarrow> addr \<Rightarrow> wl outcome" where
  "wl_free E tc s ptr =
     (if ptr = NULL then Inr s
      else if outside_pool s ptr then large_free E s (ptr - sizeof_span)
      else span_free_blk E tc s (GET_HEADER ptr) ptr)"

definition malloc :: "os_env \<Rightarrow> addr \<Rightarrow> wl \<Rightarrow> size_t \<Rightarrow> (addr \<times> wl) outcome" where
  "malloc E tc s sz = wl_malloc E tc s sz"

definition free :: "os_env \<Rightarrow> addr \<Rightarrow> wl \<Rightarrow> addr \<Rightarrow> wl outcome" where
  "free E tc s p = wl_free E tc s p"

definition calloc :: "os_env \<Rightarrow> addr \<Rightarrow> wl \<Rightarrow> size_t \<Rightarrow> size_t \<Rightarrow> (addr \<times> wl) outcome" where
  "calloc E tc s num nsize =
     (if num = 0 \<or> nsize = 0 then Inr (NULL, s)
      else (let sz = num * nsize
            in if sz div num \<noteq> nsize then Inr (NULL, s)
               else bindE (malloc E tc s sz) (\<lambda>(ret, s1).
                 if ret = NULL then Inr (NULL, s1)
                 else Inr (ret, s1\<lparr>mem := memset (mem s1) ret 0 (unat sz)\<rparr>))))"

definition realloc :: "os_env \<Rightarrow> addr \<Rightarrow> wl \<Rightarrow> addr \<Rightarrow> size_t \<Rightarrow> (addr \<times> wl) outcome" where
  "realloc E tc s p sz =
     (if p = NULL \<or> sz = 0 then Inr (NULL, s)
      else if outside_pool s p
      then (let span = p - sizeof_span
            in if unat (blk_size (span_at s span)) \<ge> unat sz then Inr (p, s)
               else bindE (malloc E tc s sz) (\<lambda>(ret, s1).
                 if ret = NULL then Inl Undefined
                 else (let n = unat (blk_size (span_at s1 span));
                           s2 = s1\<lparr>mem := memcpy (mem s1) ret p n\<rparr>
                       in bindE (large_free E s2 span) (\<lambda>s3. Inr (ret, s3)))))
      else (let span = GET_HEADER p
            in if unat (blk_size (span_at s span)) \<ge> unat sz then Inr (p, s)
               else bindE (malloc E tc s sz) (\<lambda>(ret, s1).
                 if ret \<noteq> NULL
                 then (let n = unat (blk_size (span_at s1 span));
                           s2 = s1\<lparr>mem := memcpy (mem s1) ret p n\<rparr>
                       in bindE (free E tc s2 p) (\<lambda>s3. Inr (ret, s3)))
                 else Inr (ret, s1))))"

subsection \<open>Client programs\<close>

text \<open>
  A client of one thread is a list of requests; \<open>serve\<close> answers them in order and returns the
  addresses \<open>malloc\<close> gave (\<open>NULL\<close> for a \<open>free\<close>).
\<close>

datatype request = Malloc size_t | Free addr

fun serve1 :: "os_env \<Rightarrow> addr \<Rightarrow> wl \<Rightarrow> request \<Rightarrow> (addr \<times> wl) outcome" where
  "serve1 E tc s (Malloc sz) = malloc E tc s sz"
| "serve1 E tc s (Free p) = bindE (free E tc s p) (\<lambda>s1. Inr (NULL, s1))"

fun serve :: "os_env \<Rightarrow> addr \<Rightarrow> wl \<Rightarrow> request list \<Rightarrow> (addr list \<times> wl) outcome" where
  "serve E tc s [] = Inr ([], s)"
| "serve E tc s (r # rs) =
     bindE (serve1 E tc s r) (\<lambda>(a, s1).
     bindE (serve E tc s1 rs) (\<lambda>(as, s2). Inr (a # as, s2)))"

text \<open>The state before the first request: static storage is zero.\<close>

definition start_state :: wl where
  "start_state =
     \<lparr>lnk = \<lparr>nxt = (\<lambda>_. 0), prv = (\<lambda>_. 0)\<rparr>,
      span_at = (\<lambda>_. \<lparr>owner = 0, state = IN_USE, cls = 0, blk_size = 0, free_blk = 0, free_cnt = 0\<rparr>),
      pool = \<lparr>pool_lock = False, pool_start = 0, pool_end = 0, free_start = 0\<rparr>,
      tcache_at = (\<lambda>_. \<lparr>lock = False, using_span = (\<lambda>_. 0)\<rparr>),
      thread_state = (\<lambda>_. False), init_once = False, mem = (\<lambda>_. 0), os_calls = []\<rparr>"

end
