(* ===== verification/Block_Interface.thy ===== *)
theory Block_Interface
  imports Prelude
begin

text \<open>
  What the layers above the allocator (the redundant blocks of \<open>Tri_Mod\<close>, the collector of \<open>Gc\<close>) rely
  on: a store of blocks, where a block that is handed out is new and apart from the others, where a request may
  be answered with \<open>NULL\<close> and then changes nothing, and where giving a block back never fails. \<open>Client\<close> interprets
  the locale on the model of \<open>src/wlmalloc.c\<close>, which stops the process instead of answering \<open>NULL\<close>.
\<close>

type_synonym holdings = "addr \<rightharpoonup> nat"

definition apart :: "addr \<Rightarrow> nat \<Rightarrow> addr \<Rightarrow> nat \<Rightarrow> bool" where
  "apart a n b m \<longleftrightarrow> a + n \<le> b \<or> b + m \<le> a"

text \<open>\<open>keeps m m' H p\<close>: the bytes of every block of \<open>H\<close> but \<open>p\<close> are the same in \<open>m'\<close> as in \<open>m\<close>.\<close>

definition keeps :: "bytes \<Rightarrow> bytes \<Rightarrow> holdings \<Rightarrow> addr \<Rightarrow> bool" where
  "keeps m m' H p \<longleftrightarrow> (\<forall>c k. H c = Some k \<longrightarrow> c \<noteq> p \<longrightarrow> load_bytes m' c k = load_bytes m c k)"

lemma keeps_refl [simp]: "keeps m m H p"
  by (simp add: keeps_def)

lemma keeps_trans: "keeps m m' H p \<Longrightarrow> keeps m' m'' H p \<Longrightarrow> keeps m m'' H p"
  by (simp add: keeps_def)

lemma keepsD: "keeps m m' H p \<Longrightarrow> H c = Some k \<Longrightarrow> c \<noteq> p \<Longrightarrow> load_bytes m' c k = load_bytes m c k"
  by (simp add: keeps_def)

locale block_store =
  fixes ok :: "'s \<Rightarrow> holdings \<Rightarrow> bool"
    and ask :: "'s \<Rightarrow> size_t \<Rightarrow> bool"
    and alloc :: "'s \<Rightarrow> size_t \<Rightarrow> (addr \<times> 's) outcome"
    and release :: "'s \<Rightarrow> addr \<Rightarrow> 's outcome"
    and bytes_of :: "'s \<Rightarrow> bytes"
    and set_bytes :: "bytes \<Rightarrow> 's \<Rightarrow> 's"
  assumes live_apart: "ok s H \<Longrightarrow> H b = Some n \<Longrightarrow> H c = Some k \<Longrightarrow> b \<noteq> c \<Longrightarrow> apart b n c k"
    and not_null: "ok s H \<Longrightarrow> H b = Some n \<Longrightarrow> b \<noteq> NULL"
    and alloc: "ok s H \<Longrightarrow> ask s sz \<Longrightarrow> alloc s sz = Inr (b, s') \<Longrightarrow> b \<noteq> NULL \<Longrightarrow>
      H b = None \<and> ok s' (H(b \<mapsto> unat sz)) \<and> bytes_of s' = bytes_of s"
    and alloc_null: "ok s H \<Longrightarrow> ask s sz \<Longrightarrow> alloc s sz = Inr (NULL, s') \<Longrightarrow> ok s' H \<and> bytes_of s' = bytes_of s"
    and alloc_error: "ok s H \<Longrightarrow> ask s sz \<Longrightarrow> alloc s sz = Inl e \<Longrightarrow> e = Exit"
    and release: "ok s H \<Longrightarrow> H b = Some n \<Longrightarrow>
      \<exists>s'. release s b = Inr s' \<and> ok s' (H(b := None)) \<and> bytes_of s' = bytes_of s"
    and set_ok: "ok s H \<Longrightarrow> ok (set_bytes m s) H"
    and get_set: "bytes_of (set_bytes m s) = m"
begin

text \<open>Writing inside one block leaves the others as they are.\<close>

lemma store_keeps:
  assumes "ok s H" "H b = Some n" "i + length bs \<le> n"
  shows "keeps m (store_bytes m (b + i) bs) H b"
  unfolding keeps_def
proof (intro allI impI)
  fix c k assume c: "H c = Some k" "c \<noteq> b"
  then have "apart b n c k" using live_apart [OF assms(1,2)] by blast
  with assms(3) show "load_bytes (store_bytes m (b + i) bs) c k = load_bytes m c k"
    by (intro load_store_other) (auto simp: apart_def)
qed

lemma memcpy_keeps:
  assumes "ok s H" "H b = Some n" "i + k \<le> n"
  shows "keeps m (memcpy m (b + i) src k) H b"
  unfolding memcpy_def using assms by (intro store_keeps) simp_all

lemma memset_keeps:
  assumes "ok s H" "H b = Some n" "i + k \<le> n"
  shows "keeps m (memset m (b + i) v k) H b"
  unfolding memset_def using assms by (intro store_keeps) simp_all

text \<open>A block that has just been handed out is apart from all others and may be filled freely.\<close>

lemma alloc_apart:
  assumes "ok s H" "ask s sz" "alloc s sz = Inr (b, s')" "b \<noteq> NULL" "H c = Some k"
  shows "b \<noteq> c" "apart b (unat sz) c k"
proof -
  note a = alloc [OF assms(1-4)]
  show "b \<noteq> c" using a assms(5) by auto
  with a assms(5) show "apart b (unat sz) c k"
    by (intro live_apart [of s' "H(b \<mapsto> unat sz)"]) auto
qed

lemma alloc_fill_keeps:
  assumes "ok s H" "ask s sz" "alloc s sz = Inr (b, s')" "b \<noteq> NULL" "length bs \<le> unat sz"
  shows "keeps (bytes_of s) (store_bytes (bytes_of s') b bs) H b"
proof -
  note a = alloc [OF assms(1-4)]
  have "keeps (bytes_of s') (store_bytes (bytes_of s') (b + 0) bs) (H(b \<mapsto> unat sz)) b"
    using a assms(5) by (intro store_keeps [of s']) auto
  with a show ?thesis by (auto simp: keeps_def)
qed

end

end
