(* ===== verification/Alloc_Inv.thy ===== *)
theory Alloc_Inv
  imports Malloc Block_Interface
begin

text \<open>
  The invariant of the allocator for a process with one thread. The abstract \<open>view\<close> says for every
  span cut from the pool what it is used for (\<open>role\<close>), which of its blocks are on its free list
  (\<open>flist\<close>) and which the program holds (\<open>live\<close>), and the order of the thread's lists (\<open>susp\<close>,
  \<open>frees\<close>); \<open>core\<close> ties the view to the memory. Each step of the allocator is shown to be a step on
  the view.
\<close>

datatype role = Using nat | Susp nat | Idle

record view =
  role :: "addr \<rightharpoonup> role"
  flist :: "addr \<Rightarrow> addr list"
  live :: "addr \<Rightarrow> addr set"
  susp :: "nat \<Rightarrow> addr list"
  frees :: "addr list"

abbreviation nd :: "addr \<Rightarrow> addr" where "nd sp \<equiv> sp + node"
abbreviation bl :: "addr \<Rightarrow> addr" where "bl sp \<equiv> sp + blk_list"

definition active :: "view \<Rightarrow> addr \<Rightarrow> bool" where
  "active V sp \<longleftrightarrow> (\<exists>c. role V sp = Some (Using c) \<or> role V sp = Some (Susp c))"

definition struct_heads :: "os_env \<Rightarrow> addr \<Rightarrow> addr set" where
  "struct_heads E tc =
     {tc_free_list tc, pool_free_list E} \<union> tc_suspend tc ` {..<29} \<union> pool_suspend E ` {..<29}"

text \<open>
  What the proofs need of the surroundings: the structure of the pool and the cache of the thread lie apart, and
  every area that \<open>mmap\<close> returns is not \<open>NULL\<close>, ends at most at \<open>2 ^ 47\<close> and is apart from both. That areas begin at a
  page and are apart from each other is true of \<open>mmap\<close> but not needed here: \<open>global_init\<close> aligns the first area itself,
  and \<open>acquire_span\<close> exits unless a further area begins just where the pool ends.
\<close>

definition env_ok :: "os_env \<Rightarrow> addr \<Rightarrow> bool" where
  "env_ok E tc \<longleftrightarrow>
     apart tc 752 (pool_addr E) 544 \<and>
     (\<forall>k sz. mmap E k sz \<noteq> MAP_FAILED \<longrightarrow>
        0 < mmap E k sz \<and> mmap E k sz + unat sz \<le> 2 ^ 47 \<and>
        apart tc 752 (mmap E k sz) (unat sz) \<and> apart (pool_addr E) 544 (mmap E k sz) (unat sz))"

definition carved :: "gpool_t \<Rightarrow> addr set" where
  "carved p = {sp. pool_start p \<le> sp \<and> sp < free_start p \<and> sp mod SPAN_SIZE = 0}"

definition pool_ok :: "os_env \<Rightarrow> addr \<Rightarrow> gpool_t \<Rightarrow> bool" where
  "pool_ok E tc p \<longleftrightarrow>
     \<not> pool_lock p \<and> 0 < pool_start p \<and> pool_start p \<le> free_start p \<and> free_start p \<le> pool_end p \<and>
     pool_start p mod SPAN_SIZE = 0 \<and> free_start p mod SPAN_SIZE = 0 \<and>
     apart tc 752 (pool_addr E) 544 \<and>
     apart tc 752 (pool_start p) (pool_end p - pool_start p) \<and>
     apart (pool_addr E) 544 (pool_start p) (pool_end p - pool_start p)"

definition span_role_ok :: "addr \<Rightarrow> span_t \<Rightarrow> addr \<Rightarrow> addr list \<Rightarrow> addr set \<Rightarrow> role \<Rightarrow> bool" where
  "span_role_ok tc s sp fl A r =
     (case r of
        Using c \<Rightarrow> state s = IN_USE \<and> owner s = tc \<and> cls s = c \<and> span_ok s sp fl A
      | Susp c \<Rightarrow> state s = SUSPEND \<and> owner s = tc \<and> cls s = c \<and> span_ok s sp fl A \<and> A \<noteq> {}
      | Idle \<Rightarrow> A = {})"

definition ring_ok :: "os_env \<Rightarrow> addr \<Rightarrow> links \<Rightarrow> view \<Rightarrow> ring_map \<Rightarrow> bool" where
  "ring_ok E tc L V R \<longleftrightarrow>
     rings L R \<and>
     (\<forall>c<29. R (tc_suspend tc c) = Some (map nd (susp V c))) \<and>
     R (tc_free_list tc) = Some (map nd (frees V)) \<and>
     R (pool_free_list E) = Some [] \<and>
     (\<forall>c<29. R (pool_suspend E c) = Some []) \<and>
     (\<forall>sp. active V sp \<longrightarrow> R (bl sp) = Some (flist V sp)) \<and>
     (\<forall>h. R h \<noteq> None \<longrightarrow> h \<in> struct_heads E tc \<or> (\<exists>sp. active V sp \<and> h = bl sp))"

definition core :: "os_env \<Rightarrow> addr \<Rightarrow> wl \<Rightarrow> view \<Rightarrow> ring_map \<Rightarrow> bool" where
  "core E tc s V R \<longleftrightarrow>
     pool_ok E tc (pool s) \<and> dom (role V) = carved (pool s) \<and>
     (\<forall>c. set (susp V c) = {sp. role V sp = Some (Susp c)}) \<and>
     set (frees V) = {sp. role V sp = Some Idle} \<and>
     (\<forall>sp r. role V sp = Some r \<longrightarrow>
        span_role_ok tc (span_at s sp) sp (flist V sp) (live V sp) r) \<and>
     ring_ok E tc (lnk s) V R"

lemma coreD:
  assumes "core E tc s V R"
  shows "pool_ok E tc (pool s)" "dom (role V) = carved (pool s)"
    "set (susp V c) = {sp. role V sp = Some (Susp c)}" "set (frees V) = {sp. role V sp = Some Idle}"
    "role V sp = Some r \<Longrightarrow> span_role_ok tc (span_at s sp) sp (flist V sp) (live V sp) r"
    "ring_ok E tc (lnk s) V R"
  using assms by (auto simp: core_def)

lemma ring_okD:
  assumes "ring_ok E tc L V R"
  shows "rings L R" "c < 29 \<Longrightarrow> R (tc_suspend tc c) = Some (map nd (susp V c))"
    "R (tc_free_list tc) = Some (map nd (frees V))" "R (pool_free_list E) = Some []"
    "c < 29 \<Longrightarrow> R (pool_suspend E c) = Some []" "active V sp \<Longrightarrow> R (bl sp) = Some (flist V sp)"
  using assms by (auto simp: ring_ok_def)

subsection \<open>Addresses\<close>

lemma aligned_span_unique:
  assumes "a mod SPAN_SIZE = 0" "b mod SPAN_SIZE = 0" "i < SPAN_SIZE" "j < SPAN_SIZE" "a + i = b + j"
  shows "a = b \<and> i = j"
proof -
  have "GET_HEADER (a + i) = a" "GET_HEADER (b + j) = b"
    using assms by (auto intro: GET_HEADER_inside)
  with assms(5) show ?thesis by simp
qed

lemma aligned_step: "a mod SPAN_SIZE = 0 \<Longrightarrow> b mod SPAN_SIZE = 0 \<Longrightarrow> a < b \<Longrightarrow> a + SPAN_SIZE \<le> b"
  by (metis (no_types, lifting) add.commute le_add_diff_inverse less_imp_le_nat mod_0_imp_dvd
      dvd_diff_nat dvd_imp_le nat_add_left_cancel_le zero_less_diff)

lemma carved_inside:
  assumes "pool_ok E tc p" "sp \<in> carved p"
  shows "sp mod SPAN_SIZE = 0" "0 < sp" "pool_start p \<le> sp" "sp + SPAN_SIZE \<le> pool_end p"
  using assms aligned_step [of sp "free_start p"] by (auto simp: pool_ok_def carved_def)

lemma struct_heads_outside:
  assumes p: "pool_ok E tc p" and h: "h \<in> struct_heads E tc"
  shows "h < pool_start p \<or> pool_end p \<le> h"
  using p h by (auto simp: struct_heads_def pool_ok_def apart_def layout)

lemma struct_heads_distinct:
  assumes "pool_ok E tc p"
  shows "tc_suspend tc c = tc_suspend tc d \<longleftrightarrow> c = d" "c < 29 \<Longrightarrow> tc_suspend tc c \<noteq> tc_free_list tc"
    "c < 29 \<Longrightarrow> d < 29 \<Longrightarrow> tc_suspend tc c \<noteq> pool_suspend E d" "c < 29 \<Longrightarrow> tc_suspend tc c \<noteq> pool_free_list E"
    "c < 29 \<Longrightarrow> tc_free_list tc \<noteq> pool_suspend E c" "tc_free_list tc \<noteq> pool_free_list E"
  using assms by (auto simp: pool_ok_def apart_def layout)

lemma struct_heads_mem [simp]:
  "tc_free_list tc \<in> struct_heads E tc" "pool_free_list E \<in> struct_heads E tc"
  "c < 29 \<Longrightarrow> tc_suspend tc c \<in> struct_heads E tc" "c < 29 \<Longrightarrow> pool_suspend E c \<in> struct_heads E tc"
  by (auto simp: struct_heads_def)

lemma not_struct_ne:
  assumes "a \<notin> struct_heads E tc"
  shows "k < 29 \<Longrightarrow> tc_suspend tc k \<noteq> a" "tc_free_list tc \<noteq> a"
  using assms by (metis struct_heads_mem)+

lemma span_not_struct:
  assumes "pool_ok E tc p" "sp \<in> carved p" "i < SPAN_SIZE"
  shows "sp + i \<notin> struct_heads E tc"
  using struct_heads_outside [OF assms(1), of "sp + i"] carved_inside [OF assms(1,2)] assms(3) by auto

lemma offsets [simp]: "node < SPAN_SIZE" "blk_list < SPAN_SIZE" "node \<noteq> blk_list" "node < sizeof_span"
  "blk_list < sizeof_span" "sizeof_span < SPAN_SIZE"
  by (simp_all add: layout)

subsection \<open>What the nodes of the rings are\<close>

lemma active_facts:
  assumes c: "core E tc s V R" and a: "active V sp"
  shows "sp \<in> carved (pool s)" "span_ok (span_at s sp) sp (flist V sp) (live V sp)"
    "cls (span_at s sp) < 29" "owner (span_at s sp) = tc"
proof -
  from a obtain r where r: "role V sp = Some r" "r \<noteq> Idle" unfolding active_def by blast
  show "sp \<in> carved (pool s)" using coreD(2) [OF c] r by blast
  have "span_ok (span_at s sp) sp (flist V sp) (live V sp) \<and> owner (span_at s sp) = tc"
    using coreD(5) [OF c r(1)] r(2) by (auto simp: span_role_ok_def split: role.splits)
  then show "span_ok (span_at s sp) sp (flist V sp) (live V sp)" "owner (span_at s sp) = tc"
    "cls (span_at s sp) < 29"
    using span_ok_cls(1) by auto
qed

lemma flist_offset:
  assumes c: "core E tc s V R" and a: "active V sp"
    and b: "b \<in> blocks sp (cls (span_at s sp)) (cap (cls (span_at s sp)))"
  shows "\<exists>i. b = sp + i \<and> sizeof_span \<le> i \<and> i < SPAN_SIZE"
  using block_inside [OF active_facts(3) [OF c a] b] cls2size_range(1) [OF active_facts(3) [OF c a]]
  by (intro exI [of _ "b - sp"]) auto

lemma ring_node_kinds:
  assumes c: "core E tc s V R" and n: "n \<in> ring_nodes R"
  shows "n \<in> struct_heads E tc \<or>
    (\<exists>sp r. role V sp = Some r \<and> n = nd sp \<and> (\<forall>c. r \<noteq> Using c)) \<or>
    (\<exists>sp. active V sp \<and> (n = bl sp \<or> n \<in> set (flist V sp)))"
proof -
  note ro = coreD(6) [OF c]
  from n obtain h xs where h: "R h = Some xs" "n = h \<or> n \<in> set xs" by (auto simp: ring_nodes_def)
  then have "h \<in> struct_heads E tc \<or> (\<exists>sp. active V sp \<and> h = bl sp)"
    using ro by (auto simp: ring_ok_def)
  then show ?thesis
  proof
    assume "\<exists>sp. active V sp \<and> h = bl sp"
    then show ?thesis using h ring_okD(6) [OF ro] by auto
  next
    assume s: "h \<in> struct_heads E tc"
    then consider "n = h" | "xs = []" | i where "i < 29" "xs = map nd (susp V i)" | "xs = map nd (frees V)"
      using h ring_okD [OF ro] by (auto simp: struct_heads_def)
    then show ?thesis
      using s h coreD(3,4) [OF c] by cases force+
  qed
qed

lemma block_not_node:
  assumes c: "core E tc s V R" and a: "active V sp"
    and b: "b \<in> blocks sp (cls (span_at s sp)) (cap (cls (span_at s sp)))" "b \<notin> set (flist V sp)"
  shows "b \<notin> ring_nodes R"
proof
  assume n: "b \<in> ring_nodes R"
  note p = coreD(1) [OF c] and sp = active_facts(1) [OF c a]
  obtain i where i: "b = sp + i" "sizeof_span \<le> i" "i < SPAN_SIZE" using flist_offset [OF c a b(1)] by blast
  have uniq: "sp' = sp \<and> j = i" if "sp' \<in> carved (pool s)" "b = sp' + j" "j < SPAN_SIZE" for sp' j
    using that i aligned_span_unique [of sp' sp j i] carved_inside [OF p] sp by auto
  from ring_node_kinds [OF c n] consider
      "b \<in> struct_heads E tc"
    | sp' r where "role V sp' = Some r" "b = nd sp'"
    | sp' where "active V sp'" "b = bl sp'"
    | sp' where "active V sp'" "b \<in> set (flist V sp')" by blast
  then show False
  proof cases
    case 1
    with span_not_struct [OF p sp i(3)] i show False by simp
  next
    case 2
    then have "node = i" using uniq [of sp' node] coreD(2) [OF c] by auto
    with i show False by (auto simp: layout)
  next
    case 3
    then have "blk_list = i" using uniq [of sp' blk_list] active_facts(1) [OF c] by auto
    with i show False by (auto simp: layout)
  next
    case 4
    then have "b \<in> blocks sp' (cls (span_at s sp')) (cap (cls (span_at s sp')))"
      using span_ok_blocks [OF active_facts(2) [OF c 4(1)]] by auto
    from flist_offset [OF c 4(1) this] obtain j where "b = sp' + j" "j < SPAN_SIZE" by blast
    with uniq [of sp' j] active_facts(1) [OF c 4(1)] 4 b show False by auto
  qed
qed

text \<open>
  An address in the header of a span, cut or about to be cut, is a ring node only as the node of a
  span on a list or as the list head of an active span.
\<close>

definition span_room :: "gpool_t \<Rightarrow> addr \<Rightarrow> bool" where
  "span_room p sp \<longleftrightarrow> sp mod SPAN_SIZE = 0 \<and> pool_start p \<le> sp \<and> sp + SPAN_SIZE \<le> pool_end p"

lemma carved_room: "pool_ok E tc p \<Longrightarrow> sp \<in> carved p \<Longrightarrow> span_room p sp"
  using carved_inside by (simp add: span_room_def)

lemma header_fresh:
  assumes c: "core E tc s V R" and sp: "span_room (pool s) sp" and i: "i < sizeof_span"
    and nod: "i = node \<Longrightarrow> role V sp = None \<or> (\<exists>k. role V sp = Some (Using k))"
    and bls: "i = blk_list \<Longrightarrow> \<not> active V sp"
  shows "sp + i \<notin> ring_nodes R"
proof
  assume n: "sp + i \<in> ring_nodes R"
  note p = coreD(1) [OF c]
  have i': "i < SPAN_SIZE" using i by (simp add: layout)
  have uniq: "sp' = sp \<and> j = i" if "sp' \<in> carved (pool s)" "sp + i = sp' + j" "j < SPAN_SIZE" for sp' j
    using that aligned_span_unique [of sp' sp j i] carved_inside [OF p that(1)] sp i'
    by (auto simp: span_room_def)
  from ring_node_kinds [OF c n] consider
      "sp + i \<in> struct_heads E tc"
    | sp' r' where "role V sp' = Some r'" "sp + i = nd sp'" "\<forall>c. r' \<noteq> Using c"
    | sp' where "active V sp'" "sp + i = bl sp'"
    | sp' where "active V sp'" "sp + i \<in> set (flist V sp')" by blast
  then show False
  proof cases
    case 1
    with struct_heads_outside [OF p, of "sp + i"] sp i' show False by (auto simp: span_room_def)
  next
    case 2
    then have "sp' \<in> carved (pool s)" using coreD(2) [OF c] by blast
    with 2 uniq [of sp' node] nod show False by auto
  next
    case 3
    with uniq [of sp' blk_list] active_facts(1) [OF c] bls show False by auto
  next
    case 4
    then have "sp + i \<in> blocks sp' (cls (span_at s sp')) (cap (cls (span_at s sp')))"
      using span_ok_blocks [OF active_facts(2) [OF c 4(1)]] by auto
    from flist_offset [OF c 4(1) this] obtain j where
      j: "sp + i = sp' + j" "sizeof_span \<le> j" "j < SPAN_SIZE" by blast
    with uniq [of sp' j] active_facts(1) [OF c 4(1)] i show False by auto
  qed
qed

lemma bl_not_struct:
  assumes "pool_ok E tc p" "span_room p sp"
  shows "bl sp \<notin> struct_heads E tc"
  using struct_heads_outside [OF assms(1), of "bl sp"] assms(2) by (auto simp: span_room_def layout)

lemma bl_inject [simp]: "bl sp = bl sp' \<longleftrightarrow> sp = sp'"
  by simp

subsection \<open>Steps on the view\<close>

text \<open>One active span changes its blocks: its free list becomes \<open>fl\<close>, its live set \<open>A\<close>.\<close>

definition set_blocks :: "addr \<Rightarrow> addr list \<Rightarrow> addr set \<Rightarrow> view \<Rightarrow> view" where
  "set_blocks sp fl A V = V\<lparr>flist := (flist V)(sp := fl), live := (live V)(sp := A)\<rparr>"

lemma set_blocks_simps [simp]:
  "role (set_blocks sp fl A V) = role V" "susp (set_blocks sp fl A V) = susp V"
  "frees (set_blocks sp fl A V) = frees V" "flist (set_blocks sp fl A V) = (flist V)(sp := fl)"
  "live (set_blocks sp fl A V) = (live V)(sp := A)" "active (set_blocks sp fl A V) = active V"
  by (auto simp: set_blocks_def active_def)

lemma ring_ok_set_blocks:
  assumes ro: "ring_ok E tc L V R" and p: "pool_ok E tc p" "sp \<in> carved p" and a: "active V sp"
    and L: "rings L' (R(bl sp \<mapsto> fl))"
  shows "ring_ok E tc L' (set_blocks sp fl A V) (R(bl sp \<mapsto> fl))"
proof -
  have "h \<noteq> bl sp" if "h \<in> struct_heads E tc" for h
    using bl_not_struct [OF p(1) carved_room [OF p]] that by auto
  then have h: "tc_free_list tc \<noteq> bl sp" "pool_free_list E \<noteq> bl sp"
    "\<And>c. c < 29 \<Longrightarrow> tc_suspend tc c \<noteq> bl sp" "\<And>c. c < 29 \<Longrightarrow> pool_suspend E c \<noteq> bl sp"
    by auto
  show ?thesis
    using ro a L unfolding ring_ok_def by (auto simp: h)
qed

lemma core_set_blocks:
  assumes c: "core E tc s V R" and a: "active V sp"
    and s': "pool s' = pool s" "span_at s' = (span_at s)(sp := x)" "rings (lnk s') (R(bl sp \<mapsto> fl))"
    and x: "state x = state (span_at s sp)" "owner x = owner (span_at s sp)"
      "cls x = cls (span_at s sp)" "span_ok x sp fl A"
    and live: "\<And>k. role V sp = Some (Susp k) \<Longrightarrow> A \<noteq> {}"
  shows "core E tc s' (set_blocks sp fl A V) (R(bl sp \<mapsto> fl))"
proof -
  have "span_role_ok tc (span_at s' sp') sp' (flist (set_blocks sp fl A V) sp') (live (set_blocks sp fl A V) sp') r"
    if r: "role V sp' = Some r" for sp' r
  proof (cases "sp' = sp")
    case True
    with r a have "r \<noteq> Idle" by (auto simp: active_def)
    with True r x live coreD(5) [OF c r] show ?thesis
      by (auto simp: span_role_ok_def s'(2) split: role.splits)
  qed (use coreD(5) [OF c r] s'(2) in simp)
  moreover have "ring_ok E tc (lnk s') (set_blocks sp fl A V) (R(bl sp \<mapsto> fl))"
    by (rule ring_ok_set_blocks [OF coreD(6) [OF c] coreD(1) [OF c] active_facts(1) [OF c a] a s'(3)])
  ultimately show ?thesis
    using coreD(1-4) [OF c] s'(1) unfolding core_def by simp
qed

lemma core_get_blk:
  assumes c: "core E tc s V R" and a: "active V sp" and f: "0 < free_cnt (span_at s sp)"
    and g: "get_blk s sp = (b, s')"
  shows "\<exists>fl. core E tc s' (set_blocks sp fl (insert b (live V sp)) V) (R(bl sp \<mapsto> fl))"
    "b \<notin> live V sp" "b \<in> blocks sp (cls (span_at s sp)) (cap (cls (span_at s sp)))"
    "tcache_at s' = tcache_at s" "thread_state s' = thread_state s" "pool s' = pool s" "mem s' = mem s"
    "\<exists>x. span_at s' = (span_at s)(sp := x) \<and> blk_size x = blk_size (span_at s sp)"
proof -
  let ?x = "span_at s sp"
  note ok = active_facts(2) [OF c a] and ro = coreD(6) [OF c]
  note r = ring_okD(1) [OF ro] and fl = ring_okD(6) [OF ro a]
  have "(\<exists>fl. core E tc s' (set_blocks sp fl (insert b (live V sp)) V) (R(bl sp \<mapsto> fl))) \<and>
    b \<notin> live V sp \<and> b \<in> blocks sp (cls ?x) (cap (cls ?x)) \<and> tcache_at s' = tcache_at s \<and>
    thread_state s' = thread_state s \<and> pool s' = pool s \<and> mem s' = mem s \<and>
    (\<exists>x. span_at s' = (span_at s)(sp := x) \<and> blk_size x = blk_size ?x)"
  proof (cases "flist V sp")
    case Nil
    let ?y = "?x\<lparr>free_blk := free_blk ?x + unat (blk_size ?x), free_cnt := free_cnt ?x - 1\<rparr>"
    have e: "list_empty (lnk s) (bl sp)" using lh.empty [OF r fl] Nil by simp
    then have s': "b = free_blk ?x" "span_at s' = (span_at s)(sp := ?y)" "lnk s' = lnk s" "pool s' = pool s"
      "tcache_at s' = tcache_at s" "thread_state s' = thread_state s" "mem s' = mem s"
      using g by (auto simp: get_blk_def Let_def)
    note k = span_ok_fresh [OF ok [unfolded Nil] f]
    have "core E tc s' (set_blocks sp [] (insert b (live V sp)) V) (R(bl sp \<mapsto> []))"
      using k s' r fl Nil by (intro core_set_blocks [OF c a]) (auto simp: fun_upd_idem)
    with k s' show ?thesis by auto
  next
    case (Cons b0 fl0)
    note t = lh.take_first [OF r fl [unfolded Cons]]
    let ?y = "?x\<lparr>free_cnt := free_cnt ?x - 1\<rparr>"
    have s': "b = b0" "span_at s' = (span_at s)(sp := ?y)" "lnk s' = list_del (lnk s) b0" "pool s' = pool s"
      "tcache_at s' = tcache_at s" "thread_state s' = thread_state s" "mem s' = mem s"
      using g t(1,2) by (auto simp: get_blk_def Let_def)
    note k = span_ok_take [OF ok [unfolded Cons]]
    have "core E tc s' (set_blocks sp fl0 (insert b (live V sp)) V) (R(bl sp \<mapsto> fl0))"
      using k s' t by (intro core_set_blocks [OF c a]) auto
    moreover have "b \<in> blocks sp (cls ?x) (cap (cls ?x))"
      using span_ok_blocks [OF ok] Cons s'(1) by auto
    ultimately show ?thesis using k s' by auto
  qed
  then show "\<exists>fl. core E tc s' (set_blocks sp fl (insert b (live V sp)) V) (R(bl sp \<mapsto> fl))"
    "b \<notin> live V sp" "b \<in> blocks sp (cls (span_at s sp)) (cap (cls (span_at s sp)))"
    "tcache_at s' = tcache_at s" "thread_state s' = thread_state s" "pool s' = pool s" "mem s' = mem s"
    "\<exists>x. span_at s' = (span_at s)(sp := x) \<and> blk_size x = blk_size (span_at s sp)"
    by blast+
qed

text \<open>A block returned to a span that stays where it is.\<close>

lemma core_release:
  assumes c: "core E tc s V R" and a: "active V sp" and b: "b \<in> live V sp"
    and n: "\<And>k. role V sp = Some (Susp k) \<Longrightarrow> live V sp \<noteq> {b}"
  shows "core E tc (release_blk s sp b fh)
    (set_blocks sp (b # flist V sp) (live V sp - {b}) V) (R(bl sp \<mapsto> b # flist V sp))"
proof -
  let ?x = "(span_at s sp)\<lparr>free_cnt := free_cnt (span_at s sp) + 1\<rparr>"
  note ok = active_facts(2) [OF c a] and ro = coreD(6) [OF c]
  have k: "span_ok ?x sp (b # flist V sp) (live V sp - {b})" by (rule span_ok_release [OF ok b])
  have live: "live V sp - {b} \<noteq> {}" if "role V sp = Some (Susp c)" for c
    using n [OF that] b by auto
  have "\<not> (state ?x = SUSPEND \<and> free_cnt ?x = of_nat SPAN_DATA_SIZE div blk_size ?x)"
  proof
    assume f: "state ?x = SUSPEND \<and> free_cnt ?x = of_nat SPAN_DATA_SIZE div blk_size ?x"
    then obtain j where "role V sp = Some (Susp j)"
      using a coreD(5) [OF c] by (fastforce simp: active_def span_role_ok_def)
    with live f full_test [OF k] show False by simp
  qed
  then have e: "release_blk s sp b fh =
      upd_lnk (\<lambda>L. list_add L b (bl sp)) (upd_span sp (\<lambda>s. s\<lparr>free_cnt := free_cnt s + 1\<rparr>) s)"
    by (auto simp: release_blk_def Let_def)
  have "b \<in> blocks sp (cls (span_at s sp)) (cap (cls (span_at s sp)))" "b \<notin> set (flist V sp)"
    using span_ok_blocks [OF ok] ok b by (auto simp: span_ok_def)
  then have "rings (list_add (lnk s) b (bl sp)) (R(bl sp \<mapsto> b # flist V sp))"
    by (intro lh.add [OF ring_okD(1) [OF ro] ring_okD(6) [OF ro a]] block_not_node [OF c a])
  with k live show ?thesis
    unfolding e by (intro core_set_blocks [OF c a, where x = ?x]) auto
qed

text \<open>A span changes its role.\<close>

lemma core_role:
  assumes c: "core E tc s V R" and p: "pool_ok E tc (pool s')" "carved (pool s') = insert sp (carved (pool s))"
    and V: "role V' = (role V)(sp \<mapsto> r)"
      "\<And>x. x \<noteq> sp \<Longrightarrow> flist V' x = flist V x \<and> live V' x = live V x \<and> span_at s' x = span_at s x"
      "\<And>k. set (susp V' k) = {x. role V' x = Some (Susp k)}" "set (frees V') = {x. role V' x = Some Idle}"
    and ok: "span_role_ok tc (span_at s' sp) sp (flist V' sp) (live V' sp) r"
    and R: "ring_ok E tc (lnk s') V' R'"
  shows "core E tc s' V' R'"
proof -
  have "span_role_ok tc (span_at s' x) x (flist V' x) (live V' x) q" if "role V' x = Some q" for x q
    using that ok V(1,2) coreD(5) [OF c, of x q] by (cases "x = sp") auto
  then show ?thesis
    using p V R coreD(2) [OF c] unfolding core_def by auto
qed

lemma using_facts:
  assumes c: "core E tc s V R" and u: "role V sp = Some (Using k)"
  shows "k < 29" "active V sp" "state (span_at s sp) = IN_USE" "cls (span_at s sp) = k"
    "owner (span_at s sp) = tc" "sp \<in> carved (pool s)" "span_room (pool s) sp"
    "span_ok (span_at s sp) sp (flist V sp) (live V sp)"
proof -
  show a: "active V sp" using u by (auto simp: active_def)
  show "k < 29" "state (span_at s sp) = IN_USE" "cls (span_at s sp) = k" "owner (span_at s sp) = tc"
    "span_ok (span_at s sp) sp (flist V sp) (live V sp)"
    using coreD(5) [OF c u] span_ok_cls(1) by (auto simp: span_role_ok_def)
  show s: "sp \<in> carved (pool s)" by (rule active_facts(1) [OF c a])
  show "span_room (pool s) sp" by (rule carved_room [OF coreD(1) [OF c] s])
qed

lemma susp_facts:
  assumes c: "core E tc s V R" and u: "role V sp = Some (Susp k)"
  shows "k < 29" "active V sp" "state (span_at s sp) = SUSPEND" "cls (span_at s sp) = k"
    "owner (span_at s sp) = tc" "sp \<in> carved (pool s)" "span_room (pool s) sp" "sp \<in> set (susp V k)"
    "span_ok (span_at s sp) sp (flist V sp) (live V sp)" "live V sp \<noteq> {}"
proof -
  show a: "active V sp" using u by (auto simp: active_def)
  show "k < 29" "state (span_at s sp) = SUSPEND" "cls (span_at s sp) = k" "owner (span_at s sp) = tc"
    "span_ok (span_at s sp) sp (flist V sp) (live V sp)" "live V sp \<noteq> {}"
    using coreD(5) [OF c u] span_ok_cls(1) by (auto simp: span_role_ok_def)
  show s: "sp \<in> carved (pool s)" by (rule active_facts(1) [OF c a])
  show "span_room (pool s) sp" by (rule carved_room [OF coreD(1) [OF c] s])
  show "sp \<in> set (susp V k)" using coreD(3) [OF c] u by simp
qed

lemma susp_distinct:
  assumes c: "core E tc s V R"
  shows "k < 29 \<Longrightarrow> distinct (susp V k)" "distinct (frees V)"
proof -
  note ro = coreD(6) [OF c]
  show "distinct (frees V)"
    using lh.distinct [OF ring_okD(1,3) [OF ro]] by (simp add: distinct_map)
  assume "k < 29"
  from lh.distinct [OF ring_okD(1) [OF ro] ring_okD(2) [OF ro this]]
  show "distinct (susp V k)" by (simp add: distinct_map)
qed

text \<open>
  The ring conditions after the span \<open>sp\<close> changed its role: only its own entries and the thread's
  lists may differ from before.
\<close>

lemma active_bl:
  assumes c: "core E tc s V R" and a: "active V x"
  shows "bl x \<notin> struct_heads E tc"
  by (rule bl_not_struct [OF coreD(1) [OF c] carved_room [OF coreD(1) [OF c] active_facts(1) [OF c a]]])

lemma ring_ok_role:
  assumes c: "core E tc s V R" and room: "span_room (pool s) sp"
    and R': "rings L' R'"
      "\<And>k. k < 29 \<Longrightarrow> R' (tc_suspend tc k) = Some (map nd (susp V' k))"
      "R' (tc_free_list tc) = Some (map nd (frees V'))"
      "R' (bl sp) = (if active V' sp then Some (flist V' sp) else None)"
      "\<And>h. h \<noteq> bl sp \<Longrightarrow> h \<noteq> tc_free_list tc \<Longrightarrow> (\<And>k. k < 29 \<Longrightarrow> h \<noteq> tc_suspend tc k) \<Longrightarrow> R' h = R h"
    and V': "\<And>x. x \<noteq> sp \<Longrightarrow> role V' x = role V x \<and> flist V' x = flist V x"
  shows "ring_ok E tc L' V' R'"
proof -
  note p = coreD(1) [OF c] and ro = coreD(6) [OF c]
  note hd = struct_heads_distinct [OF p]
  have b: "bl sp \<notin> struct_heads E tc" by (rule bl_not_struct [OF p room])
  have f: "R' (pool_free_list E) = Some []"
    using R'(5) [of "pool_free_list E"] hd b ring_okD(4) [OF ro] by (metis struct_heads_mem(2))
  have g: "R' (pool_suspend E k) = Some []" if "k < 29" for k
    using R'(5) [of "pool_suspend E k"] hd b ring_okD(5) [OF ro that] that by (metis struct_heads_mem(4))
  have A: "active V' x = active V x" if "x \<noteq> sp" for x
    using V' [OF that] by (simp add: active_def)
  have B: "R' (bl x) = Some (flist V' x)" if "active V' x" for x
  proof (cases "x = sp")
    case False
    with that A have a: "active V x" by simp
    then have "R' (bl x) = R (bl x)"
      using False active_bl [OF c a] by (intro R'(5)) auto
    with False V' ring_okD(6) [OF ro a] show ?thesis by simp
  qed (use that R'(4) in simp)
  have D: "h \<in> struct_heads E tc \<or> (\<exists>x. active V' x \<and> h = bl x)" if "R' h \<noteq> None" for h
  proof (rule ccontr)
    assume n: "\<not> (h \<in> struct_heads E tc \<or> (\<exists>x. active V' x \<and> h = bl x))"
    then have "h \<noteq> bl sp" using that R'(4) by (auto split: if_splits)
    moreover from this n have "R' h = R h" by (intro R'(5)) auto
    ultimately have "R h \<noteq> None" "h \<noteq> bl sp" using that by simp_all
    then obtain x where "active V x" "h = bl x" "x \<noteq> sp" using n ro unfolding ring_ok_def by blast
    with n A show False by auto
  qed
  from R' f g B D show ?thesis unfolding ring_ok_def by blast
qed

lemma core_suspend:
  assumes c: "core E tc s V R" and u: "role V sp = Some (Using k)" and l: "live V sp \<noteq> {}"
  defines "V' \<equiv> V\<lparr>role := (role V)(sp \<mapsto> Susp k), susp := (susp V)(k := susp V k @ [sp])\<rparr>"
  shows "core E tc (upd_lnk (\<lambda>L. list_add_tail L (nd sp) (tc_suspend tc k))
      (upd_span sp (\<lambda>x. x\<lparr>state := SUSPEND\<rparr>) s)) V'
    (R(tc_suspend tc k \<mapsto> map nd (susp V k) @ [nd sp]))" (is "core E tc ?s V' ?R")
proof (rule core_role [OF c])
  note f = using_facts [OF c u] and p = coreD(1) [OF c] and ro = coreD(6) [OF c]
  have n: "nd sp \<notin> ring_nodes R"
    using u by (intro header_fresh [OF c f(7)]) (auto simp: layout)
  have "bl sp \<noteq> tc_suspend tc k" using active_bl [OF c f(2)] f(1) by auto
  moreover have "rings (lnk ?s) ?R"
    using lh.add_tail [OF ring_okD(1) [OF ro] ring_okD(2) [OF ro f(1)] n] by simp
  moreover have "tc_suspend tc k \<noteq> tc_free_list tc" by (rule struct_heads_distinct(2) [OF p f(1)])
  ultimately show "ring_ok E tc (lnk ?s) V' ?R"
    using ring_okD [OF ro] struct_heads_distinct(1) [OF p] f(1,2)
    by (intro ring_ok_role [OF c f(7)]) (auto simp: V'_def active_def)
  show "set (susp V' j) = {x. role V' x = Some (Susp j)}" for j
    using coreD(3) [OF c] u by (auto simp: V'_def)
  show "set (frees V') = {x. role V' x = Some Idle}"
    using coreD(4) [OF c] u by (auto simp: V'_def)
qed (use coreD(1) [OF c] using_facts [OF c u] l span_ok_frame(2) in
     \<open>auto simp: V'_def span_role_ok_def\<close>)

lemma nd_remove1: "map nd (remove1 sp xs) = remove1 (nd sp) (map nd xs)"
  by (induction xs) auto

text \<open>The last block of a suspended span comes back: the span goes to the thread's free list.\<close>

definition reclaim :: "addr \<Rightarrow> nat \<Rightarrow> view \<Rightarrow> view" where
  "reclaim sp k V =
     V\<lparr>role := (role V)(sp \<mapsto> Idle), susp := (susp V)(k := remove1 sp (susp V k)),
       frees := frees V @ [sp], live := (live V)(sp := {})\<rparr>"

lemma core_reclaim:
  assumes c: "core E tc s V R" and u: "role V sp = Some (Susp k)" and l: "live V sp = {b}"
  shows "\<exists>R'. core E tc (release_blk s sp b (tc_free_list tc)) (reclaim sp k V) R'"
proof -
  note f = susp_facts [OF c u] and p = coreD(1) [OF c] and ro = coreD(6) [OF c]
  let ?x = "(span_at s sp)\<lparr>free_cnt := free_cnt (span_at s sp) + 1\<rparr>"
  let ?R = "R(tc_suspend tc k \<mapsto> remove1 (nd sp) (map nd (susp V k)),
    tc_free_list tc \<mapsto> map nd (frees V) @ [nd sp], bl sp \<mapsto> [b])"
  let ?s = "release_blk s sp b (tc_free_list tc)"
  have "span_ok ?x sp (b # flist V sp) {}"
    using span_ok_release [OF f(9), of b] l by simp
  then have "free_cnt (span_at s sp) + 1 = of_nat SPAN_DATA_SIZE div blk_size (span_at s sp)"
    using full_test by fastforce
  then have s': "pool ?s = pool s" "span_at ?s = (span_at s)(sp := ?x\<lparr>state := FREE\<rparr>)"
    "lnk ?s = list_add (INIT_LIST_HEAD (list_add_tail (list_del (lnk s) (nd sp)) (nd sp) (tc_free_list tc))
       (bl sp)) b (bl sp)"
    using f(3) by (simp_all add: release_blk_def Let_def)
  have b: "b \<notin> ring_nodes R"
    using span_ok_blocks [OF f(9)] f(9) l by (intro block_not_node [OF c f(2)]) (auto simp: span_ok_def)
  have ne: "tc_free_list tc \<noteq> tc_suspend tc k" "bl sp \<noteq> tc_suspend tc k" "bl sp \<noteq> tc_free_list tc"
    using struct_heads_distinct(2) [OF p f(1)] active_bl [OF c f(2)] f(1) by auto
  have "rings (lnk ?s) ?R"
    unfolding s' using f(8) ne
    by (intro lh.move_and_restart [OF ring_okD(1) [OF ro] ring_okD(2) [OF ro f(1)] _ ring_okD(3) [OF ro] _
      ring_okD(6) [OF ro f(2)] _ _ b]) auto
  then have r: "rings (lnk ?s) (?R(bl sp := None))" by (rule lh.forget)
  have "ring_ok E tc (lnk ?s) (reclaim sp k V) (?R(bl sp := None))"
    using r ring_okD [OF ro] struct_heads_distinct(1,2) [OF p] ne
      not_struct_ne [OF active_bl [OF c f(2)]] f(1)
    by (intro ring_ok_role [OF c f(7)]) (auto simp: reclaim_def active_def nd_remove1)
  moreover have "set (susp (reclaim sp k V) j) = {x. role (reclaim sp k V) x = Some (Susp j)}" for j
    using coreD(3) [OF c] u susp_distinct(1) [OF c f(1)] by (auto simp: reclaim_def)
  ultimately have "core E tc ?s (reclaim sp k V) (?R(bl sp := None))"
    using p f(6) s' coreD(4) [OF c] u
    by (intro core_role [OF c, where sp = sp and r = Idle])
       (auto simp: reclaim_def span_role_ok_def)
  then show ?thesis by blast
qed

text \<open>A span from the free list or a newly cut one becomes the one in use for class \<open>k\<close>.\<close>

definition take_span :: "addr \<Rightarrow> nat \<Rightarrow> addr list \<Rightarrow> view \<Rightarrow> view" where
  "take_span sp k rest V =
     V\<lparr>role := (role V)(sp \<mapsto> Using k), frees := rest, flist := (flist V)(sp := []),
       live := (live V)(sp := {})\<rparr>"

lemma core_reuse:
  assumes c: "core E tc s V R" and fr: "frees V = sp # rest" and k: "k < 29"
    and s': "pool s' = pool s" "span_at s' = (span_at s)(sp := y)"
      "lnk s' = INIT_LIST_HEAD (list_del (lnk s) (nd sp)) (bl sp)"
    and y: "span_role_ok tc y sp [] {} (Using k)"
  shows "\<exists>R'. core E tc s' (take_span sp k rest V) R'"
proof -
  note p = coreD(1) [OF c] and ro = coreD(6) [OF c]
  let ?R = "R(tc_free_list tc \<mapsto> map nd rest, bl sp \<mapsto> [])"
  have u: "role V sp = Some Idle" using coreD(4) [OF c] fr by auto
  then have sp: "sp \<in> carved (pool s)" using coreD(2) [OF c] by blast
  then have room: "span_room (pool s) sp" by (rule carved_room [OF p])
  have bs: "bl sp \<notin> struct_heads E tc" by (rule bl_not_struct [OF p room])
  then have ne: "bl sp \<noteq> tc_free_list tc" by auto
  have na: "\<not> active V sp" using u by (simp add: active_def)
  have "bl sp \<notin> ring_nodes R"
    by (rule header_fresh [OF c room]) (use na in \<open>simp_all add: layout\<close>)
  then have "bl sp \<notin> ring_nodes (R(tc_free_list tc \<mapsto> map nd rest))"
    using ring_okD(3) [OF ro] fr unfolding ring_nodes_def by (fastforce split: if_splits)
  moreover have "rings (list_del (lnk s) (nd sp)) (R(tc_free_list tc \<mapsto> map nd rest))"
    using lh.take_first(2,3) [OF ring_okD(1) [OF ro] ring_okD(3) [OF ro, unfolded fr list.map]] by simp
  ultimately have "rings (lnk s') ?R"
    unfolding s' by (intro lh.init) auto
  then have "ring_ok E tc (lnk s') (take_span sp k rest V) ?R"
    using ring_okD [OF ro] struct_heads_distinct(2) [OF p] not_struct_ne [OF bs]
    by (intro ring_ok_role [OF c room]) (auto simp: take_span_def active_def)
  moreover have "set rest = {x. x \<noteq> sp \<and> role V x = Some Idle}"
    using coreD(4) [OF c] fr susp_distinct(2) [OF c] by auto
  ultimately have "core E tc s' (take_span sp k rest V) ?R"
    using p sp s' u y coreD(3) [OF c]
    by (intro core_role [OF c, where sp = sp and r = "Using k"]) (auto simp: take_span_def)
  then show ?thesis by blast
qed

lemma carved_step:
  assumes "pool_ok E tc p"
  shows "carved (p\<lparr>free_start := free_start p + SPAN_SIZE\<rparr>) = insert (free_start p) (carved p)"
proof -
  have "sp < free_start p + SPAN_SIZE \<longleftrightarrow> sp < free_start p \<or> sp = free_start p" if "sp mod SPAN_SIZE = 0" for sp
    using aligned_step [of "free_start p" sp] that assms offsets(6)
    by (cases "free_start p < sp") (auto simp: pool_ok_def)
  then show ?thesis using assms by (auto simp: carved_def pool_ok_def)
qed

lemma core_carve:
  assumes c: "core E tc s V R" and sp: "sp = free_start (pool s)" "sp + SPAN_SIZE \<le> pool_end (pool s)"
    and k: "k < 29"
    and s': "pool s' = (pool s)\<lparr>free_start := sp + SPAN_SIZE\<rparr>" "span_at s' = (span_at s)(sp := y)"
      "lnk s' = INIT_LIST_HEAD (lnk s) (bl sp)"
    and y: "span_role_ok tc y sp [] {} (Using k)"
  shows "\<exists>R'. core E tc s' (take_span sp k (frees V) V) R'"
proof -
  note p = coreD(1) [OF c] and ro = coreD(6) [OF c]
  let ?R = "R(bl sp \<mapsto> [])"
  have new: "sp \<notin> carved (pool s)" using sp by (simp add: carved_def)
  then have u: "role V sp = None" using coreD(2) [OF c] by blast
  have room: "span_room (pool s) sp" using p sp by (auto simp: span_room_def pool_ok_def)
  have bs: "bl sp \<notin> struct_heads E tc" by (rule bl_not_struct [OF p room])
  have na: "\<not> active V sp" using u by (simp add: active_def)
  have "bl sp \<notin> ring_nodes R"
    by (rule header_fresh [OF c room]) (use na in \<open>simp_all add: layout\<close>)
  then have "rings (lnk s') ?R"
    unfolding s' using ring_okD(1) [OF ro] by (intro lh.init) auto
  then have "ring_ok E tc (lnk s') (take_span sp k (frees V) V) ?R"
    using ring_okD [OF ro] not_struct_ne [OF bs]
    by (intro ring_ok_role [OF c room]) (auto simp: take_span_def active_def)
  moreover have "pool_ok E tc (pool s')"
    using p sp s' by (auto simp: pool_ok_def)
  ultimately have "core E tc s' (take_span sp k (frees V) V) ?R"
    using carved_step [OF p] s' sp u y coreD(3,4) [OF c]
    by (intro core_role [OF c, where sp = sp and r = "Using k"]) (auto simp: take_span_def)
  then show ?thesis by blast
qed

text \<open>The pool grows at its end by an area that touches neither structure.\<close>

lemma core_grow:
  assumes c: "core E tc s V R"
    and a: "apart tc 752 (pool_end (pool s)) ALLOC_UNIT" "apart (pool_addr E) 544 (pool_end (pool s)) ALLOC_UNIT"
    and s': "pool s' = (pool s)\<lparr>pool_end := pool_end (pool s) + ALLOC_UNIT\<rparr>" "span_at s' = span_at s" "lnk s' = lnk s"
  shows "core E tc s' V R"
proof -
  have "pool_ok E tc (pool s')"
    using coreD(1) [OF c] a s' by (auto simp: pool_ok_def apart_def)
  then show ?thesis using c s' unfolding core_def by (simp add: carved_def)
qed

end
