(* ===== verification/Alloc_Safe.thy ===== *)
theory Alloc_Safe
  imports Alloc_Inv
begin

text \<open>
  Safety of the allocator for one thread: in a state of the invariant \<open>alloc_wf\<close>, a small request is
  answered with a block that no live block touches, and a block that is freed leaves the others as
  they were. The one case the invariant does not survive is excluded by \<open>no_reusable\<close>: a suspended
  span of the class that has got a free block back (see \<open>Alloc_Bugs\<close>).
\<close>

text \<open>
  The thread's \<open>using[]\<close> names the spans in use. A pool whose end is the failure value of \<open>mmap\<close> could
  be "extended" by a failing call; user space ends below it.
\<close>

definition using_match :: "addr \<Rightarrow> wl \<Rightarrow> view \<Rightarrow> nat \<Rightarrow> bool" where
  "using_match tc s V k \<longleftrightarrow>
     (\<forall>sp. role V sp = Some (Using k) \<longleftrightarrow> using_span (tcache_at s tc) k = sp \<and> sp \<noteq> 0)"

definition in_user_space :: "gpool_t \<Rightarrow> bool" where
  "in_user_space p \<longleftrightarrow> pool_end p \<le> 2 ^ 47"

definition alloc_wf :: "os_env \<Rightarrow> addr \<Rightarrow> wl \<Rightarrow> view \<Rightarrow> ring_map \<Rightarrow> bool" where
  "alloc_wf E tc s V R \<longleftrightarrow>
     core E tc s V R \<and> thread_state s tc \<and> init_once s \<and> in_user_space (pool s) \<and>
     (\<forall>k<29. using_match tc s V k)"

text \<open>What the program holds: the size of every live block by its address.\<close>

definition heap_of :: "wl \<Rightarrow> view \<Rightarrow> addr \<rightharpoonup> nat" where
  "heap_of s V b =
     (let sp = GET_HEADER b
      in if active V sp \<and> b \<in> live V sp then Some (unat (blk_size (span_at s sp))) else None)"

definition no_reusable :: "addr \<Rightarrow> wl \<Rightarrow> nat \<Rightarrow> bool" where
  "no_reusable tc s k =
     (case list_for_each (lnk s) (tc_suspend tc k) of
        None \<Rightarrow> False
      | Some xs \<Rightarrow> list_all (\<lambda>x. free_cnt (span_at s (list_entry x node)) = 0) xs)"

lemma no_reusable_iff:
  assumes c: "core E tc s V R" and k: "k < 29"
  shows "no_reusable tc s k \<longleftrightarrow> (\<forall>sp \<in> set (susp V k). free_cnt (span_at s sp) = 0)"
  using list_for_each_dll [OF rings_dll [OF ring_okD(1,2) [OF coreD(6) [OF c]]], OF k]
  by (simp add: no_reusable_def list_all_iff)

text \<open>All suspended spans are full: so it is as long as the program gives nothing back.\<close>

definition exhausted :: "wl \<Rightarrow> view \<Rightarrow> bool" where
  "exhausted s V \<longleftrightarrow> (\<forall>k<29. \<forall>sp \<in> set (susp V k). free_cnt (span_at s sp) = 0)"

lemma exhausted_frame:
  assumes c: "core E tc s V R" and e: "exhausted s V" and V: "susp V' = susp V"
    and o: "\<And>x. x \<noteq> sp \<Longrightarrow> span_at s' x = span_at s x" and sp: "\<And>k. role V sp \<noteq> Some (Susp k)"
  shows "exhausted s' V'"
proof -
  have "x \<noteq> sp" if "x \<in> set (susp V k)" for x k
    using that sp coreD(3) [OF c, of k] by auto
  then show ?thesis using e V o by (simp add: exhausted_def)
qed

subsection \<open>Evaluating the steps\<close>

lemma span_init_eq:
  assumes "k < 29"
  shows "span_init h sp k =
    Inr (upd_lnk (\<lambda>L. INIT_LIST_HEAD L (bl sp)) (upd_span sp (\<lambda>s. s\<lparr>cls := k,
      blk_size := of_nat (cls2size ! k), free_cnt := of_nat SPAN_DATA_SIZE div of_nat (cls2size ! k),
      free_blk := sp + sizeof_span\<rparr>) h))"
proof -
  have "array_get cls2size k = Some (cls2size ! k)" using assms by simp
  then show ?thesis by (simp add: span_init_def Let_def upd_span_def upd_lnk_def)
qed

lemma find_available_none:
  "seg (lnk h) a (map nd xs) e \<Longrightarrow> e \<notin> set (map nd xs) \<Longrightarrow>
   \<forall>sp \<in> set xs. free_cnt (span_at h sp) = 0 \<Longrightarrow> find_available h e (nxt (lnk h) a) = Some None"
proof (induction xs arbitrary: a)
  case Nil
  then show ?case by (simp add: find_available.simps)
next
  case (Cons x xs)
  then show ?case by (auto simp: find_available.simps [of h e "nd x"])
qed

text \<open>With no reusable span, the search of the suspended list has no effect.\<close>

lemma search_no_effect:
  assumes c: "core E tc s V R" and k: "k < 29" and g: "\<forall>sp \<in> set (susp V k). free_cnt (span_at s sp) = 0"
  shows "find_available s (tc_suspend tc k) (nxt (lnk s) (tc_suspend tc k)) = Some None"
proof -
  note ro = coreD(6) [OF c]
  have "dll (lnk s) (tc_suspend tc k) (map nd (susp V k))"
    by (rule rings_dll [OF ring_okD(1,2) [OF ro]]) (rule k)
  then show ?thesis by (intro find_available_none [OF _ _ g]) (auto simp: dll_def)
qed

lemma unlock_lock_pool [simp]:
  "\<not> pool_lock p \<Longrightarrow> p\<lparr>pool_lock := False\<rparr> = p"
  by simp

definition in_use_span :: "addr \<Rightarrow> nat \<Rightarrow> addr \<Rightarrow> span_t \<Rightarrow> span_t" where
  "in_use_span tc k sp x =
     x\<lparr>cls := k, blk_size := of_nat (cls2size ! k),
       free_cnt := of_nat SPAN_DATA_SIZE div of_nat (cls2size ! k), free_blk := sp + sizeof_span,
       owner := tc, state := IN_USE\<rparr>"

lemma in_use_span_ok: "k < 29 \<Longrightarrow> span_role_ok tc (in_use_span tc k sp x) sp [] {} (Using k)"
  using span_ok_frame(2) [OF span_ok_frame(1) [OF span_ok_init [where c = k and s = x and sp = sp]]]
  by (simp add: span_role_ok_def in_use_span_def)

text \<open>Where the allocator finds the next span: its free list, the pool's area, or a new area.\<close>

lemma replace_cases:
  assumes c: "core E tc s V R" and k: "k < 29" and g: "\<forall>sp \<in> set (susp V k). free_cnt (span_at s sp) = 0"
  defines "area_ok \<equiv> free_start (pool s) + SPAN_SIZE \<le> pool_end (pool s)"
  defines "got \<equiv> mmap E (length (os_calls s)) (of_nat ALLOC_UNIT)"
  defines "fin \<equiv> \<lambda>sp t. upd_tc tc (\<lambda>t. t\<lparr>using_span := (using_span t)(k := sp)\<rparr>)
    (upd_lnk (\<lambda>L. INIT_LIST_HEAD L (bl sp)) (upd_span sp (in_use_span tc k sp) t))"
  shows "replace_available_span E tc s k =
    (case frees V of
       sp # _ \<Rightarrow> Inr (fin sp (upd_lnk (\<lambda>L. list_del L (nd sp)) s))
     | [] \<Rightarrow>
       if area_ok
       then Inr (fin (free_start (pool s))
              (s\<lparr>pool := (pool s)\<lparr>free_start := free_start (pool s) + SPAN_SIZE\<rparr>\<rparr>))
       else if got \<noteq> pool_end (pool s) then Inl Exit
       else Inr (fin (free_start (pool s))
              (s\<lparr>os_calls := os_calls s @ [Mmap (of_nat ALLOC_UNIT) got],
                pool := (pool s)\<lparr>pool_end := pool_end (pool s) + ALLOC_UNIT,
                  free_start := free_start (pool s) + SPAN_SIZE\<rparr>\<rparr>)))"
proof -
  note ro = coreD(6) [OF c] and p = coreD(1) [OF c]
  have l: "\<not> pool_lock (pool s)" using p by (simp add: pool_ok_def)
  have e: "list_empty (lnk s) (pool_suspend E k)" "list_empty (lnk s) (pool_free_list E)"
    using lh.empty [OF ring_okD(1) [OF ro] ring_okD(5) [OF ro k]]
      lh.empty [OF ring_okD(1) [OF ro] ring_okD(4) [OF ro]] by simp_all
  have fr: "list_empty (lnk s) (tc_free_list tc) \<longleftrightarrow> frees V = []"
    using lh.empty [OF ring_okD(1,3) [OF ro]] by simp
  note fa = search_no_effect [OF c k g]
  show ?thesis
  proof (cases "frees V")
    case (Cons sp rest)
    then have "nxt (lnk s) (tc_free_list tc) = nd sp"
      using lh.first [OF ring_okD(1) [OF ro]] ring_okD(3) [OF ro] by simp
    with Cons fr fa k show ?thesis
      by (simp add: replace_available_span_def span_init_eq Let_def fin_def in_use_span_def
          upd_tc_def upd_span_def upd_lnk_def)
  next
    case Nil
    with fr fa e l k show ?thesis
      by (simp add: replace_available_span_def acquire_span_def carve_span_def lock_pool_def
          unlock_pool_def syscall_alloc_def span_init_eq Let_def fin_def in_use_span_def
          upd_tc_def upd_span_def upd_lnk_def area_ok_def got_def)
  qed
qed

lemma env_apart:
  assumes "env_ok E tc" "mmap E k (of_nat ALLOC_UNIT) \<noteq> MAP_FAILED"
  shows "apart tc 752 (mmap E k (of_nat ALLOC_UNIT)) ALLOC_UNIT"
    "apart (pool_addr E) 544 (mmap E k (of_nat ALLOC_UNIT)) ALLOC_UNIT"
    "0 < mmap E k (of_nat ALLOC_UNIT)" "mmap E k (of_nat ALLOC_UNIT) + ALLOC_UNIT \<le> 2 ^ 47"
proof -
  have "unat (of_nat ALLOC_UNIT :: size_t) = ALLOC_UNIT" by (simp add: layout)
  then show "apart tc 752 (mmap E k (of_nat ALLOC_UNIT)) ALLOC_UNIT"
    "apart (pool_addr E) 544 (mmap E k (of_nat ALLOC_UNIT)) ALLOC_UNIT"
    "0 < mmap E k (of_nat ALLOC_UNIT)" "mmap E k (of_nat ALLOC_UNIT) + ALLOC_UNIT \<le> 2 ^ 47"
    using assms unfolding env_ok_def by metis+
qed

lemma replace_ok:
  assumes env: "env_ok E tc" and us: "in_user_space (pool s)" and c: "core E tc s V R" and k: "k < 29"
    and g: "\<forall>sp \<in> set (susp V k). free_cnt (span_at s sp) = 0"
    and r: "replace_available_span E tc s k = Inr s'"
  shows "\<exists>sp rest R'. core E tc s' (take_span sp k rest V) R' \<and> \<not> active V sp \<and> 0 < sp \<and>
    tcache_at s' = (tcache_at s)(tc := (tcache_at s tc)\<lparr>using_span := (using_span (tcache_at s tc))(k := sp)\<rparr>) \<and>
    thread_state s' = thread_state s \<and> init_once s' = init_once s \<and> mem s' = mem s \<and>
    in_user_space (pool s') \<and> (\<forall>x. x \<noteq> sp \<longrightarrow> span_at s' x = span_at s x)"
proof -
  note rc = replace_cases [OF c k g]
  show ?thesis
  proof (cases "frees V")
    case (Cons sp rest)
    let ?t = "upd_lnk (\<lambda>L. list_del L (nd sp)) s"
    have s': "s' = upd_tc tc (\<lambda>t. t\<lparr>using_span := (using_span t)(k := sp)\<rparr>)
        (upd_lnk (\<lambda>L. INIT_LIST_HEAD L (bl sp)) (upd_span sp (in_use_span tc k sp) ?t))"
      using r rc Cons by simp
    have "\<exists>R'. core E tc s' (take_span sp k rest V) R'"
      by (rule core_reuse [OF c Cons k _ _ _ in_use_span_ok [OF k]]) (simp_all add: s')
    moreover have "role V sp = Some Idle" using coreD(4) [OF c] Cons by auto
    moreover from this have "0 < sp"
      using coreD(2) [OF c] carved_inside(2) [OF coreD(1) [OF c]] by blast
    ultimately show ?thesis using us by (force simp: s' active_def)
  next
    case Nil
    let ?sp = "free_start (pool s)"
    note p = coreD(1) [OF c]
    have sp: "role V ?sp = None" "0 < ?sp"
      using coreD(2) [OF c] p by (auto simp: carved_def pool_ok_def)
    show ?thesis
    proof (cases "?sp + SPAN_SIZE \<le> pool_end (pool s)")
      case True
      then have s': "s' = upd_tc tc (\<lambda>t. t\<lparr>using_span := (using_span t)(k := ?sp)\<rparr>)
          (upd_lnk (\<lambda>L. INIT_LIST_HEAD L (bl ?sp)) (upd_span ?sp (in_use_span tc k ?sp)
            (s\<lparr>pool := (pool s)\<lparr>free_start := ?sp + SPAN_SIZE\<rparr>\<rparr>)))"
        using r rc Nil by simp
      have "\<exists>R'. core E tc s' (take_span ?sp k (frees V) V) R'"
        by (rule core_carve [OF c refl True k _ _ _ in_use_span_ok [OF k]]) (simp_all add: s')
      then show ?thesis using sp us by (force simp: s' active_def in_user_space_def)
    next
      case False
      define got where "got = mmap E (length (os_calls s)) (of_nat ALLOC_UNIT)"
      have got: "got = pool_end (pool s)"
        using r rc Nil False by (auto simp: got_def split: if_splits)
      let ?g = "s\<lparr>os_calls := os_calls s @ [Mmap (of_nat ALLOC_UNIT) got],
        pool := (pool s)\<lparr>pool_end := pool_end (pool s) + ALLOC_UNIT\<rparr>\<rparr>"
      have s': "s' = upd_tc tc (\<lambda>t. t\<lparr>using_span := (using_span t)(k := ?sp)\<rparr>)
          (upd_lnk (\<lambda>L. INIT_LIST_HEAD L (bl ?sp)) (upd_span ?sp (in_use_span tc k ?sp)
            (?g\<lparr>pool := (pool ?g)\<lparr>free_start := ?sp + SPAN_SIZE\<rparr>\<rparr>)))"
        using r rc Nil False got by (simp add: got_def)
      have nf: "got \<noteq> MAP_FAILED" using got us by (auto simp: in_user_space_def layout)
      note ea = env_apart [OF env nf [unfolded got_def], folded got_def, unfolded got]
      have cg: "core E tc ?g V R" by (rule core_grow [OF c ea(1,2)]) simp_all
      have "?sp \<le> pool_end (pool s)" using p by (simp add: pool_ok_def)
      then have "\<exists>R'. core E tc s' (take_span ?sp k (frees V) V) R'"
        by (intro core_carve [OF cg _ _ k _ _ _ in_use_span_ok [OF k]]) (simp_all add: s' layout)
      then show ?thesis using sp ea(4) by (force simp: s' active_def in_user_space_def)
    qed
  qed
qed

lemma replace_error:
  assumes "core E tc s V R" "k < 29" "\<forall>sp \<in> set (susp V k). free_cnt (span_at s sp) = 0"
    and "replace_available_span E tc s k = Inl e"
  shows "e = Exit"
  using assms(4) unfolding replace_cases [OF assms(1-3)] by (auto split: list.splits if_splits)

lemma heap_of_Some:
  assumes c: "core E tc s V R" and h: "heap_of s V b = Some n"
  shows "active V (GET_HEADER b)" "b \<in> live V (GET_HEADER b)"
    "n = cls2size ! cls (span_at s (GET_HEADER b))" "GET_HEADER b + sizeof_span \<le> b"
    "b + n \<le> GET_HEADER b + SPAN_SIZE" "GET_HEADER b \<in> carved (pool s)" "0 < n"
proof -
  let ?sp = "GET_HEADER b"
  show a: "active V ?sp" and b: "b \<in> live V ?sp"
    using h by (auto simp: heap_of_def Let_def split: if_splits)
  note ok = active_facts [OF c a]
  show n: "n = cls2size ! cls (span_at s ?sp)"
    using h a b span_ok_cls(2) [OF ok(2)] by (simp add: heap_of_def)
  have "b \<in> blocks ?sp (cls (span_at s ?sp)) (cap (cls (span_at s ?sp)))"
    using span_ok_blocks [OF ok(2)] b by auto
  from block_inside [OF ok(3) this] show "?sp + sizeof_span \<le> b" "b + n \<le> ?sp + SPAN_SIZE"
    by (simp_all add: n)
  show "?sp \<in> carved (pool s)" by (rule ok(1))
  show "0 < n" using cls2size_range(1) [OF ok(3)] n by simp
qed

text \<open>Two live blocks never overlap.\<close>

lemma live_apart:
  assumes c: "core E tc s V R" and h: "heap_of s V b = Some n" "heap_of s V b' = Some n'" and ne: "b \<noteq> b'"
  shows "apart b n b' n'"
proof -
  note f = heap_of_Some [OF c h(1)] and f' = heap_of_Some [OF c h(2)]
  let ?sp = "GET_HEADER b" and ?sp' = "GET_HEADER b'"
  have al: "?sp mod SPAN_SIZE = 0" "?sp' mod SPAN_SIZE = 0"
    using carved_inside(1) [OF coreD(1) [OF c]] f(6) f'(6) by blast+
  consider "?sp = ?sp'" | "?sp < ?sp'" | "?sp' < ?sp" by linarith
  then show ?thesis
  proof cases
    case 1
    note ok = active_facts [OF c f(1)]
    have "b \<in> blocks ?sp (cls (span_at s ?sp)) (cap (cls (span_at s ?sp)))"
      "b' \<in> blocks ?sp (cls (span_at s ?sp)) (cap (cls (span_at s ?sp)))"
      using span_ok_blocks [OF ok(2)] f(2) f'(2) 1 by auto
    from blocks_apart [OF ok(3) this ne] show ?thesis
      using f(3) f'(3) 1 by (auto simp: apart_def)
  next
    case 2
    from aligned_step [OF al 2] f f' show ?thesis unfolding apart_def by linarith
  next
    case 3
    from aligned_step [OF al(2,1) 3] f f' show ?thesis unfolding apart_def by linarith
  qed
qed

lemma heap_of_take_span:
  assumes "\<not> active V sp" "\<And>x. x \<noteq> sp \<Longrightarrow> span_at s' x = span_at s x"
  shows "heap_of s' (take_span sp k rest V) = heap_of s V"
proof
  fix b show "heap_of s' (take_span sp k rest V) b = heap_of s V b"
    using assms by (cases "GET_HEADER b = sp") (auto simp: heap_of_def take_span_def active_def Let_def)
qed

lemma wf_replace:
  assumes env: "env_ok E tc" and us: "in_user_space (pool s)" and c: "core E tc s V R" and k: "k < 29"
    and g: "\<forall>sp \<in> set (susp V k). free_cnt (span_at s sp) = 0"
    and st: "thread_state s tc" "init_once s" "\<And>j. j < 29 \<Longrightarrow> j \<noteq> k \<Longrightarrow> using_match tc s V j"
      "\<And>sp. role V sp \<noteq> Some (Using k)"
    and r: "replace_available_span E tc s k = Inr s'"
  shows "\<exists>V' R'. alloc_wf E tc s' V' R' \<and> role V' (using_span (tcache_at s' tc) k) = Some (Using k) \<and>
    0 < free_cnt (span_at s' (using_span (tcache_at s' tc) k)) \<and> heap_of s' V' = heap_of s V \<and> mem s' = mem s \<and>
    (exhausted s V \<longrightarrow> exhausted s' V')"
proof -
  obtain sp rest R' where r': "core E tc s' (take_span sp k rest V) R'" "\<not> active V sp" "0 < sp"
    "tcache_at s' = (tcache_at s)(tc := (tcache_at s tc)\<lparr>using_span := (using_span (tcache_at s tc))(k := sp)\<rparr>)"
    "thread_state s' = thread_state s" "init_once s' = init_once s" "mem s' = mem s"
    "in_user_space (pool s')" "\<And>x. x \<noteq> sp \<Longrightarrow> span_at s' x = span_at s x"
    using replace_ok [OF env us c k g r] by blast
  let ?V = "take_span sp k rest V"
  have u: "role ?V sp = Some (Using k)" by (simp add: take_span_def)
  have "using_match tc s' ?V j" if "j < 29" for j
    using st(3) [OF that] st(4) r'(2,3) by (cases "j = k") (auto simp: using_match_def take_span_def r'(4) active_def)
  then have "alloc_wf E tc s' ?V R'" using r' st by (simp add: alloc_wf_def)
  moreover have "live ?V sp = {}" by (simp add: take_span_def)
  then have "0 < unat (free_cnt (span_at s' sp))"
    using span_ok_counts(1) [OF using_facts(8) [OF r'(1) u]] using_facts(1,4) [OF r'(1) u] cap_bounds(1)
    by fastforce
  then have "0 < free_cnt (span_at s' sp)" by (simp add: unat_gt_0 word_neq_0_conv)
  moreover have "using_span (tcache_at s' tc) k = sp" by (simp add: r'(4))
  moreover have "exhausted s' ?V" if "exhausted s V"
    using exhausted_frame [OF c that _ r'(9)] r'(2) by (auto simp: take_span_def active_def)
  ultimately show ?thesis
    using u heap_of_take_span [OF r'(2,9), where k = k and rest = rest] r'(7) by metis
qed

text \<open>Taking a block from the span in use.\<close>

lemma wf_get_blk:
  assumes w: "alloc_wf E tc s V R" and u: "role V sp = Some (Using k)" and f: "0 < free_cnt (span_at s sp)"
    and g: "get_blk s sp = (b, s')"
  shows "\<exists>V' R'. alloc_wf E tc s' V' R' \<and> heap_of s V b = None \<and> heap_of s' V' = (heap_of s V)(b \<mapsto> cls2size ! k) \<and>
    mem s' = mem s \<and> (exhausted s V \<longrightarrow> exhausted s' V')"
proof -
  have c: "core E tc s V R" using w by (simp add: alloc_wf_def)
  note uf = using_facts [OF c u]
  note gb = core_get_blk [OF c uf(2) f g]
  obtain fl where c': "core E tc s' (set_blocks sp fl (insert b (live V sp)) V) (R(bl sp \<mapsto> fl))"
    using gb(1) by blast
  let ?V = "set_blocks sp fl (insert b (live V sp)) V"
  have hd: "GET_HEADER b = sp"
    using block_header [OF _ _ gb(3)] uf(1,4,7) by (simp add: span_room_def)
  have "alloc_wf E tc s' ?V (R(bl sp \<mapsto> fl))"
    using w c' gb(4-6) g by (auto simp: alloc_wf_def using_match_def get_blk_def Let_def split: if_splits)
  moreover have "heap_of s V b = None" using hd gb(2) by (simp add: heap_of_def)
  moreover have "heap_of s' ?V = (heap_of s V)(b \<mapsto> cls2size ! k)"
  proof
    fix x show "heap_of s' ?V x = ((heap_of s V)(b \<mapsto> cls2size ! k)) x"
      using hd gb(8) uf(2,4) span_ok_cls(2) [OF uf(8)]
      by (auto simp: heap_of_def Let_def)
  qed
  moreover have "exhausted s' ?V" if "exhausted s V"
    using exhausted_frame [OF c that, of ?V sp s'] gb(8) u by auto
  ultimately show ?thesis using gb(7) by blast
qed

subsection \<open>Allocation\<close>

lemma exhausted_live:
  assumes c: "core E tc s V R" and u: "role V sp = Some (Using k)" and f: "free_cnt (span_at s sp) = 0"
  shows "live V sp \<noteq> {}"
proof -
  note uf = using_facts [OF c u]
  have "card (live V sp) \<noteq> 0"
    using span_ok_counts(1) [OF uf(8)] f cap_bounds(1) [OF uf(1)] uf(4) by simp
  then show ?thesis by auto
qed

lemma small_alloc_ok:
  assumes env: "env_ok E tc" and w: "alloc_wf E tc s V R" and k: "k < 29" and g: "no_reusable tc s k"
    and r: "small_alloc E tc s k = Inr (b, s')"
  shows "\<exists>V' R'. alloc_wf E tc s' V' R' \<and> heap_of s V b = None \<and>
    heap_of s' V' = (heap_of s V)(b \<mapsto> cls2size ! k) \<and> mem s' = mem s \<and>
    (exhausted s V \<longrightarrow> exhausted s' V')"
proof -
  have c: "core E tc s V R" and us: "in_user_space (pool s)" and st: "thread_state s tc" "init_once s"
    and um: "\<And>j. j < 29 \<Longrightarrow> using_match tc s V j"
    using w by (auto simp: alloc_wf_def)
  note g' = g [unfolded no_reusable_iff [OF c k]]
  let ?sp = "using_span (tcache_at s tc) k"
  have fin: ?thesis
    if "replace_available_span E tc t k = Inr u" "Inr (get_blk u (using_span (tcache_at u tc) k)) = Inr (b, s')"
      "core E tc t W Q" "in_user_space (pool t)" "\<forall>sp \<in> set (susp W k). free_cnt (span_at t sp) = 0"
      "thread_state t tc" "init_once t" "\<And>j. j < 29 \<Longrightarrow> j \<noteq> k \<Longrightarrow> using_match tc t W j"
      "\<And>sp. role W sp \<noteq> Some (Using k)" "heap_of t W = heap_of s V" "mem t = mem s"
      "exhausted s V \<longrightarrow> exhausted t W" for t u W Q
  proof -
    note prem = that
    obtain W' Q' where w': "alloc_wf E tc u W' Q'" "role W' (using_span (tcache_at u tc) k) = Some (Using k)"
      "0 < free_cnt (span_at u (using_span (tcache_at u tc) k))" "heap_of u W' = heap_of t W" "mem u = mem t"
      "exhausted t W \<longrightarrow> exhausted u W'"
      using wf_replace [OF env prem(4,3) k prem(5-9,1)] by blast
    show ?thesis
      using wf_get_blk [OF w'(1-3), of b s'] prem(2) w'(4-6) prem(10-12) by auto
  qed
  consider "?sp = 0" | "?sp \<noteq> 0" "free_cnt (span_at s ?sp) = 0" | "?sp \<noteq> 0" "free_cnt (span_at s ?sp) \<noteq> 0"
    by blast
  then show ?thesis
  proof cases
    case 1
    then obtain u where "replace_available_span E tc s k = Inr u"
      "Inr (get_blk u (using_span (tcache_at u tc) k)) = (Inr (b, s') :: (addr \<times> wl) outcome)"
      using r by (auto simp: small_alloc_def bindE_Inr_iff)
    then show ?thesis
      using 1 c us g' st um k by (intro fin) (auto simp: using_match_def)
  next
    case 3
    then have u: "role V ?sp = Some (Using k)" using um [OF k] by (simp add: using_match_def)
    have "get_blk s ?sp = (b, s')" using r 3 by (simp add: small_alloc_def)
    with wf_get_blk [OF w u] 3 show ?thesis by (simp add: word_neq_0_conv)
  next
    case 2
    let ?t = "upd_lnk (\<lambda>L. list_add_tail L (nd ?sp) (tc_suspend tc k)) (upd_span ?sp (\<lambda>x. x\<lparr>state := SUSPEND\<rparr>) s)"
    let ?W = "V\<lparr>role := (role V)(?sp \<mapsto> Susp k), susp := (susp V)(k := susp V k @ [?sp])\<rparr>"
    have u: "role V ?sp = Some (Using k)" using um [OF k] 2 by (simp add: using_match_def)
    note cs = core_suspend [OF c u exhausted_live [OF c u 2(2)]]
    obtain t' where t': "replace_available_span E tc ?t k = Inr t'"
      "Inr (get_blk t' (using_span (tcache_at t' tc) k)) = (Inr (b, s') :: (addr \<times> wl) outcome)"
      using r 2 by (auto simp: small_alloc_def bindE_Inr_iff Let_def)
    show ?thesis
    proof (rule fin [OF t' cs])
      show "\<forall>sp \<in> set (susp ?W k). free_cnt (span_at ?t sp) = 0" using g' 2 by simp
      show "heap_of ?t ?W = heap_of s V"
        using u by (intro ext) (auto simp: heap_of_def Let_def active_def)
      show "using_match tc ?t ?W j" if "j < 29" "j \<noteq> k" for j
      proof -
        have "role ?W x = Some (Using j) \<longleftrightarrow> role V x = Some (Using j)" for x
          using u that(2) by simp
        then show ?thesis using um [OF that(1)] unfolding using_match_def by simp
      qed
      show "exhausted s V \<longrightarrow> exhausted ?t ?W" using 2 by (auto simp: exhausted_def)
      have "role V x \<noteq> Some (Using k)" if "x \<noteq> ?sp" for x
        using um [OF k, unfolded using_match_def, THEN spec, of x] that by simp
      then show "role ?W x \<noteq> Some (Using k)" for x by simp
    qed (use us st in simp_all)
  qed
qed

text \<open>The only way a small request fails is \<open>exit\<close>: never a deadlock, never a loop.\<close>

lemma small_alloc_error:
  assumes w: "alloc_wf E tc s V R" and k: "k < 29" and g: "no_reusable tc s k"
    and r: "small_alloc E tc s k = Inl e"
  shows "e = Exit"
proof -
  have c: "core E tc s V R" and um: "using_match tc s V k"
    using w k by (auto simp: alloc_wf_def)
  note g' = g [unfolded no_reusable_iff [OF c k]]
  let ?sp = "using_span (tcache_at s tc) k"
  let ?t = "upd_lnk (\<lambda>L. list_add_tail L (nd ?sp) (tc_suspend tc k)) (upd_span ?sp (\<lambda>x. x\<lparr>state := SUSPEND\<rparr>) s)"
  have "replace_available_span E tc s k = Inl e \<or>
    ?sp \<noteq> 0 \<and> free_cnt (span_at s ?sp) = 0 \<and> replace_available_span E tc ?t k = Inl e"
    using r by (auto simp: small_alloc_def Let_def bindE_def split: sum.splits if_splits)
  then show ?thesis
  proof
    assume "replace_available_span E tc s k = Inl e"
    then show ?thesis by (rule replace_error [OF c k g'])
  next
    assume a: "?sp \<noteq> 0 \<and> free_cnt (span_at s ?sp) = 0 \<and> replace_available_span E tc ?t k = Inl e"
    then have u: "role V ?sp = Some (Using k)" using um by (simp add: using_match_def)
    with a have "live V ?sp \<noteq> {}" by (intro exhausted_live [OF c u]) simp
    from replace_error [OF core_suspend [OF c u this] k] a g' show ?thesis by auto
  qed
qed

subsection \<open>Freeing\<close>

lemma heap_of_inside:
  assumes c: "core E tc s V R" and h: "heap_of s V b = Some n"
  shows "\<not> outside_pool s b" "b \<noteq> NULL" "owner (span_at s (GET_HEADER b)) = tc"
  using heap_of_Some [OF c h] carved_inside [OF coreD(1) [OF c], of "GET_HEADER b"] active_facts(4) [OF c]
  by (auto simp: outside_pool_def layout)

lemma heap_of_set_blocks:
  assumes "active V sp" "GET_HEADER b = sp" "b \<in> live V sp" "blk_size (span_at s' sp) = blk_size (span_at s sp)"
    "\<And>x. x \<noteq> sp \<Longrightarrow> span_at s' x = span_at s x"
  shows "heap_of s' (set_blocks sp fl (live V sp - {b}) V) = (heap_of s V)(b := None)"
proof
  fix x show "heap_of s' (set_blocks sp fl (live V sp - {b}) V) x = ((heap_of s V)(b := None)) x"
    using assms by (cases "GET_HEADER x = sp") (auto simp: heap_of_def Let_def)
qed

lemma heap_of_reclaim:
  assumes "role V sp = Some (Susp k)" "GET_HEADER b = sp" "live V sp = {b}"
    "\<And>x. x \<noteq> sp \<Longrightarrow> span_at s' x = span_at s x"
  shows "heap_of s' (reclaim sp k V) = (heap_of s V)(b := None)"
proof
  fix x show "heap_of s' (reclaim sp k V) x = ((heap_of s V)(b := None)) x"
    using assms by (cases "GET_HEADER x = sp") (auto simp: heap_of_def reclaim_def active_def Let_def)
qed

lemma release_frame:
  "pool (release_blk s sp b fh) = pool s" "tcache_at (release_blk s sp b fh) = tcache_at s"
  "thread_state (release_blk s sp b fh) = thread_state s" "init_once (release_blk s sp b fh) = init_once s"
  "mem (release_blk s sp b fh) = mem s" "os_calls (release_blk s sp b fh) = os_calls s"
  "x \<noteq> sp \<Longrightarrow> span_at (release_blk s sp b fh) x = span_at s x"
  "blk_size (span_at (release_blk s sp b fh) sp) = blk_size (span_at s sp)"
  by (simp_all add: release_blk_def Let_def)

text \<open>A live block is always given back successfully, whatever state its span is in.\<close>

lemma wl_free_ok:
  assumes w: "alloc_wf E tc s V R" and h: "heap_of s V b = Some n"
  shows "\<exists>s' V' R'. wl_free E tc s b = Inr s' \<and> alloc_wf E tc s' V' R' \<and>
    heap_of s' V' = (heap_of s V)(b := None) \<and> mem s' = mem s"
proof -
  have c: "core E tc s V R" using w by (simp add: alloc_wf_def)
  let ?sp = "GET_HEADER b" and ?s = "release_blk s (GET_HEADER b) b (tc_free_list tc)"
  note hs = heap_of_Some [OF c h] and ins = heap_of_inside [OF c h]
  have e: "wl_free E tc s b = Inr ?s"
    using ins by (simp add: wl_free_def span_free_blk_def)
  have "\<exists>V' R'. core E tc ?s V' R' \<and> heap_of ?s V' = (heap_of s V)(b := None) \<and>
    (\<forall>j x. role V' x = Some (Using j) \<longleftrightarrow> role V x = Some (Using j))"
  proof (cases "\<exists>k. role V ?sp = Some (Susp k) \<and> live V ?sp = {b}")
    case True
    then obtain k where k: "role V ?sp = Some (Susp k)" "live V ?sp = {b}" by blast
    obtain R' where "core E tc ?s (reclaim ?sp k V) R'" using core_reclaim [OF c k] by blast
    moreover have "heap_of ?s (reclaim ?sp k V) = (heap_of s V)(b := None)"
      by (rule heap_of_reclaim [OF k(1) refl k(2)]) (simp add: release_frame)
    moreover have "\<forall>j x. role (reclaim ?sp k V) x = Some (Using j) \<longleftrightarrow> role V x = Some (Using j)"
      using k by (simp add: reclaim_def)
    ultimately show ?thesis by blast
  next
    case False
    let ?V = "set_blocks ?sp (b # flist V ?sp) (live V ?sp - {b}) V"
    have "core E tc ?s ?V (R(bl ?sp \<mapsto> b # flist V ?sp))"
      by (rule core_release [OF c hs(1,2)]) (use False in blast)
    moreover have "heap_of ?s ?V = (heap_of s V)(b := None)"
      by (rule heap_of_set_blocks [OF hs(1) refl hs(2)]) (simp_all add: release_frame)
    moreover have "\<forall>j x. role ?V x = Some (Using j) \<longleftrightarrow> role V x = Some (Using j)" by simp
    ultimately show ?thesis by blast
  qed
  then obtain V' R' where V': "core E tc ?s V' R'" "heap_of ?s V' = (heap_of s V)(b := None)"
    "\<And>j x. role V' x = Some (Using j) \<longleftrightarrow> role V x = Some (Using j)" by blast
  have "alloc_wf E tc ?s V' R'"
    using w V' by (simp add: alloc_wf_def using_match_def release_frame)
  with e V' show ?thesis by (auto simp: release_frame)
qed

subsection \<open>The entry points\<close>

lemma wl_malloc_small:
  assumes "thread_state s tc" "sz \<noteq> 0" "sz \<le> 16384"
  shows "\<exists>k<29. size2cls sz = Some k \<and> unat sz \<le> cls2size ! k \<and> (\<forall>d<k. cls2size ! d < unat sz) \<and>
    wl_malloc E tc s sz = small_alloc E tc s k"
proof -
  have "0 < sz" using assms(2) by (simp add: word_neq_0_conv)
  from size2cls_small [OF this assms(3)] obtain k where
    k: "size2cls sz = Some k" "k < 29" "unat sz \<le> cls2size ! k" "\<forall>d<k. cls2size ! d < unat sz" by blast
  with assms have "wl_malloc E tc s sz = small_alloc E tc s k"
    by (simp add: wl_malloc_def check_init_def layout)
  with k show ?thesis by blast
qed

text \<open>The same guard, by the size of the request.\<close>

definition reuse_free :: "addr \<Rightarrow> wl \<Rightarrow> size_t \<Rightarrow> bool" where
  "reuse_free tc s sz = (case size2cls sz of None \<Rightarrow> False | Some k \<Rightarrow> no_reusable tc s k)"

lemma wl_malloc_ok:
  assumes env: "env_ok E tc" and w: "alloc_wf E tc s V R" and sz: "sz \<noteq> 0" "sz \<le> 16384"
    and g: "reuse_free tc s sz" and r: "wl_malloc E tc s sz = Inr (b, s')"
  shows "\<exists>k V' R'. size2cls sz = Some k \<and> alloc_wf E tc s' V' R' \<and> heap_of s V b = None \<and>
    heap_of s' V' = (heap_of s V)(b \<mapsto> cls2size ! k) \<and> unat sz \<le> cls2size ! k \<and> mem s' = mem s \<and>
    (exhausted s V \<longrightarrow> exhausted s' V')"
proof -
  have t: "thread_state s tc" using w by (simp add: alloc_wf_def)
  from wl_malloc_small [OF t sz, of E] obtain k where k: "k < 29" "size2cls sz = Some k"
    "unat sz \<le> cls2size ! k" "wl_malloc E tc s sz = small_alloc E tc s k" by blast
  with g r have "no_reusable tc s k" "small_alloc E tc s k = Inr (b, s')" by (simp_all add: reuse_free_def)
  from small_alloc_ok [OF env w k(1) this] k show ?thesis by blast
qed

end
