(* ===== verification/Alloc_Init.thy ===== *)
theory Alloc_Init
  imports Alloc_Safe
begin

text \<open>
  The first request of the process: \<open>check_init\<close> builds a state of the invariant with nothing live.
\<close>

subsection \<open>Initialisation\<close>

definition empty_rings :: "addr set \<Rightarrow> ring_map" where
  "empty_rings S h = (if h \<in> S then Some [] else None)"

lemma rings_INIT_empty: "rings L (empty_rings S) \<Longrightarrow> rings (INIT_LIST_HEAD L h) (empty_rings (insert h S))"
proof -
  assume r: "rings L (empty_rings S)"
  have "empty_rings S h \<noteq> None \<or> h \<notin> ring_nodes (empty_rings S)"
    by (auto simp: empty_rings_def ring_nodes_def)
  from lh.init [OF r this] show ?thesis
    by (rule back_subst [of "rings (INIT_LIST_HEAD L h)"]) (auto simp: empty_rings_def)
qed

lemma rings_INIT_fold:
  "rings L (empty_rings S) \<Longrightarrow> rings (fold (\<lambda>i L. INIT_LIST_HEAD L (f i)) xs L) (empty_rings (S \<union> f ` set xs))"
proof (induction xs arbitrary: L S)
  case (Cons x xs)
  from Cons.IH [OF rings_INIT_empty [OF Cons.prems, of "f x"]] show ?case
    by (simp add: Un_commute)
qed simp

lemma tcache_fold:
  fixes tc xs s
  defines "t \<equiv> fold (\<lambda>i s. upd_lnk (\<lambda>L. INIT_LIST_HEAD L (tc_suspend tc i))
      (upd_tc tc (\<lambda>t. t\<lparr>using_span := (using_span t)(i := NULL)\<rparr>) s)) xs s"
  shows "lnk t = fold (\<lambda>i L. INIT_LIST_HEAD L (tc_suspend tc i)) xs (lnk s)"
    "pool t = pool s" "thread_state t = thread_state s" "init_once t = init_once s" "mem t = mem s"
    "span_at t = span_at s"
    "i \<in> set xs \<or> using_span (tcache_at s tc) i = 0 \<Longrightarrow> using_span (tcache_at t tc) i = 0"
    "os_calls t = os_calls s"
  unfolding t_def by (induction xs arbitrary: s) auto

lemma thread_cache_init_fields:
  "lnk (thread_cache_init tc s) =
     INIT_LIST_HEAD (fold (\<lambda>i L. INIT_LIST_HEAD L (tc_suspend tc i)) [0..<29] (lnk s)) (tc_free_list tc)"
  "pool (thread_cache_init tc s) = pool s" "thread_state (thread_cache_init tc s) tc"
  "init_once (thread_cache_init tc s) = init_once s" "mem (thread_cache_init tc s) = mem s"
  "k < 29 \<Longrightarrow> using_span (tcache_at (thread_cache_init tc s) tc) k = 0"
  "os_calls (thread_cache_init tc s) = os_calls s"
  unfolding thread_cache_init_def Let_def
  by (simp_all add: tcache_fold DEFAULT_CLASS_NUM_def del: upt_rec_numeral)

lemma ROUNDUP_start:
  assumes "raw \<le> 2 ^ 47"
  shows "unat (ROUNDUP (of_nat raw) (of_nat SPAN_SIZE)) = (raw + SPAN_SIZE - 1) div SPAN_SIZE * SPAN_SIZE"
    "raw \<le> (raw + SPAN_SIZE - 1) div SPAN_SIZE * SPAN_SIZE"
    "(raw + SPAN_SIZE - 1) div SPAN_SIZE * SPAN_SIZE \<le> raw + SPAN_SIZE - 1"
proof -
  let ?q = "(raw + SPAN_SIZE - 1) div SPAN_SIZE"
  have n: "unat (of_nat SPAN_SIZE :: size_t) = SPAN_SIZE" by (simp add: layout)
  have r: "unat (of_nat raw :: size_t) = raw"
    using assms by (simp add: unat_of_nat take_bit_nat_eq_self)
  have "unat (of_nat raw + of_nat SPAN_SIZE :: size_t) = raw + SPAN_SIZE"
    using assms by (simp add: unat_word_ariths n r layout)
  then have a: "unat (of_nat raw + of_nat SPAN_SIZE - 1 :: size_t) = raw + SPAN_SIZE - 1"
    by (subst unat_minus_one) (auto simp: layout unat_eq_zero [symmetric])
  show le: "?q * SPAN_SIZE \<le> raw + SPAN_SIZE - 1" by simp
  then have "?q * SPAN_SIZE < 2 ^ 64" using assms by (simp add: layout)
  then show "unat (ROUNDUP (of_nat raw) (of_nat SPAN_SIZE)) = ?q * SPAN_SIZE"
    by (simp add: ROUNDUP_def unat_word_ariths unat_div a [simplified] n mod_mult_left_eq)
  have "0 < SPAN_SIZE" by (simp add: layout)
  from dividend_less_div_times [OF this, of "raw + SPAN_SIZE - 1"]
  have "raw + SPAN_SIZE - 1 < Suc ?q * SPAN_SIZE" by simp
  then show "raw \<le> ?q * SPAN_SIZE" by (simp add: layout)
qed

definition no_spans :: view where
  "no_spans = \<lparr>role = Map.empty, flist = (\<lambda>_. []), live = (\<lambda>_. {}), susp = (\<lambda>_. []), frees = []\<rparr>"

lemma global_init_eq:
  fixes E s
  defines "raw \<equiv> mmap E (length (os_calls s)) (of_nat ALLOC_UNIT)"
  assumes "raw \<noteq> MAP_FAILED"
  shows "\<exists>s'. global_init E s = Inr s' \<and>
    lnk s' = fold (\<lambda>i L. INIT_LIST_HEAD L (pool_suspend E i)) [0..<29]
      (INIT_LIST_HEAD (lnk s) (pool_free_list E)) \<and>
    \<not> pool_lock (pool s') \<and> pool_start (pool s') = unat (ROUNDUP (of_nat raw) (of_nat SPAN_SIZE)) \<and>
    free_start (pool s') = pool_start (pool s') \<and> pool_end (pool s') = raw + ALLOC_UNIT \<and>
    init_once s' = init_once s \<and> thread_state s' = thread_state s \<and> mem s' = mem s \<and>
    os_calls s' = os_calls s @ [Mmap (of_nat ALLOC_UNIT) raw]"
  using assms
  by (simp add: global_init_def syscall_alloc_def Let_def DEFAULT_CLASS_NUM_def del: upt_rec_numeral)

lemma pool_ok_start:
  assumes "apart tc 752 (pool_addr E) 544" "apart tc 752 raw ALLOC_UNIT" "apart (pool_addr E) 544 raw ALLOC_UNIT"
    and "0 < raw" "raw \<le> q * SPAN_SIZE" "q * SPAN_SIZE \<le> raw + SPAN_SIZE - 1"
    and "\<not> pool_lock p" "pool_start p = q * SPAN_SIZE" "free_start p = q * SPAN_SIZE" "pool_end p = raw + ALLOC_UNIT"
  shows "pool_ok E tc p"
proof -
  have "SPAN_SIZE < ALLOC_UNIT" by (simp add: layout)
  moreover have "0 < q" using assms(4,5) by (cases q) auto
  ultimately show ?thesis using assms unfolding pool_ok_def apart_def by auto
qed

lemma check_init_ok:
  assumes env: "env_ok E tc" and s: "\<not> thread_state s tc" "\<not> init_once s"
    and m: "mmap E (length (os_calls s)) (of_nat ALLOC_UNIT) \<noteq> MAP_FAILED"
  shows "\<exists>s' R. check_init E tc s = Inr s' \<and> alloc_wf E tc s' no_spans R \<and> mem s' = mem s \<and>
    heap_of s' no_spans = Map.empty"
proof -
  let ?raw = "mmap E (length (os_calls s)) (of_nat ALLOC_UNIT)"
  obtain g where g: "global_init E (s\<lparr>init_once := True\<rparr>) = Inr g"
    "lnk g = fold (\<lambda>i L. INIT_LIST_HEAD L (pool_suspend E i)) [0..<29] (INIT_LIST_HEAD (lnk s) (pool_free_list E))"
    "\<not> pool_lock (pool g)" "pool_start (pool g) = unat (ROUNDUP (of_nat ?raw) (of_nat SPAN_SIZE))"
    "free_start (pool g) = pool_start (pool g)" "pool_end (pool g) = ?raw + ALLOC_UNIT"
    "init_once g" "mem g = mem s"
    using global_init_eq [of E "s\<lparr>init_once := True\<rparr>"] m by auto
  let ?s = "thread_cache_init tc g"
  let ?S = "{pool_free_list E} \<union> pool_suspend E ` set [0..<29] \<union> tc_suspend tc ` set [0..<29]"
  let ?R = "empty_rings (insert (tc_free_list tc) ?S)"
  note tf = thread_cache_init_fields
  note ea = env_apart [OF env m]
  have e: "check_init E tc s = Inr ?s" using s g(1) by (simp add: check_init_def)
  have "rings (lnk ?s) ?R"
    unfolding tf g(2)
    by (intro rings_INIT_empty rings_INIT_fold) (use rings_INIT_empty [of "lnk s" "{}"] in \<open>simp add: empty_rings_def [abs_def]\<close>)
  moreover have S: "insert (tc_free_list tc) ?S = struct_heads E tc"
    by (auto simp: struct_heads_def simp del: upt_rec_numeral)
  ultimately have "ring_ok E tc (lnk ?s) no_spans ?R"
    by (auto simp: ring_ok_def empty_rings_def no_spans_def active_def)
  moreover have "?raw \<le> 2 ^ 47" using ea(4) by simp
  note ru = ROUNDUP_start [OF this]
  have "pool_ok E tc (pool ?s)"
    using pool_ok_start [OF _ ea(1-3) ru(2,3)] env g(3-6) ru(1) by (simp add: env_ok_def tf)
  moreover have "in_user_space (pool ?s)" using ea(4) g(6) by (simp add: in_user_space_def tf)
  moreover have "carved (pool ?s) = {}" using g(5) by (simp add: carved_def tf)
  ultimately have "alloc_wf E tc ?s no_spans ?R"
    using g(7) by (auto simp: alloc_wf_def core_def no_spans_def using_match_def tf)
  then show ?thesis
    using e g(8) by (auto simp: tf heap_of_def no_spans_def active_def Let_def)
qed

end
