(* ===== verification/Client.thy ===== *)
theory Client
  imports Alloc_Init
begin

text \<open>
  Orderly runs: programs that use the allocator from one thread. \<open>reach E tc s H\<close> holds when some run of such a
  program leads from the zeroed static storage to the state \<open>s\<close> with the blocks \<open>H\<close> in its hands:
  \<open>H\<close> maps the address of each block to the number of bytes the program asked for. The program may
  ask for 1 to 16384 bytes, give back a block it holds, and write inside the blocks it holds. A
  request is not made when it would meet a reusable suspended span (\<open>reuse_free\<close>: no suspended span of the class has
  a free block again), which the code loses. This is a restriction of the properties over runs, not of the model:
  theories \<open>Alloc_Bugs\<close> and \<open>Alloc_Twice\<close> show what happens in the other runs.
\<close>

definition can_ask :: "os_env \<Rightarrow> addr \<Rightarrow> wl \<Rightarrow> size_t \<Rightarrow> bool" where
  "can_ask E tc s sz \<longleftrightarrow>
     sz \<noteq> 0 \<and> sz \<le> 16384 \<and>
     (case check_init E tc s of Inl e \<Rightarrow> True | Inr t \<Rightarrow> reuse_free tc t sz)"

inductive reach :: "os_env \<Rightarrow> addr \<Rightarrow> wl \<Rightarrow> holdings \<Rightarrow> bool" for E tc where
  reach_start: "reach E tc start_state Map.empty"
| reach_malloc: "reach E tc s H \<Longrightarrow> can_ask E tc s sz \<Longrightarrow> malloc E tc s sz = Inr (b, s') \<Longrightarrow>
    reach E tc s' (H(b \<mapsto> unat sz))"
| reach_free: "reach E tc s H \<Longrightarrow> H b = Some n \<Longrightarrow> free E tc s b = Inr s' \<Longrightarrow> reach E tc s' (H(b := None))"
| reach_calloc: "reach E tc s H \<Longrightarrow> can_ask E tc s (num * nsize) \<Longrightarrow> unat num * unat nsize < 2 ^ 64 \<Longrightarrow>
    calloc E tc s num nsize = Inr (b, s') \<Longrightarrow> reach E tc s' (H(b \<mapsto> unat (num * nsize)))"
| reach_realloc: "reach E tc s H \<Longrightarrow> H p = Some n \<Longrightarrow> can_ask E tc s sz \<Longrightarrow>
    realloc E tc s p sz = Inr (b, s') \<Longrightarrow> reach E tc s' (H(p := None, b \<mapsto> unat sz))"
| reach_write: "reach E tc s H \<Longrightarrow> H b = Some n \<Longrightarrow> i + length bs \<le> n \<Longrightarrow>
    reach E tc (s\<lparr>mem := store_bytes (mem s) (b + i) bs\<rparr>) H"

text \<open>What the allocator holds for the program covers what the program asked for.\<close>

definition covers :: "holdings \<Rightarrow> holdings \<Rightarrow> bool" where
  "covers G H \<longleftrightarrow> dom G = dom H \<and> (\<forall>b n. H b = Some n \<longrightarrow> 0 < n \<and> (\<exists>m. G b = Some m \<and> n \<le> m))"

lemma coversD: "covers G H \<Longrightarrow> H b = Some n \<Longrightarrow> \<exists>m. G b = Some m \<and> n \<le> m \<and> 0 < n"
  by (auto simp: covers_def)

lemma covers_None: "covers G H \<Longrightarrow> G b = None \<longleftrightarrow> H b = None"
  by (metis covers_def domIff)

lemma covers_alloc: "covers G H \<Longrightarrow> 0 < n \<Longrightarrow> n \<le> m \<Longrightarrow> covers (G(b \<mapsto> m)) (H(b \<mapsto> n))"
  by (auto simp: covers_def)

lemma covers_release: "covers G H \<Longrightarrow> covers (G(b := None)) (H(b := None))"
  by (auto simp: covers_def)

lemma covers_empty: "covers Map.empty Map.empty"
  by (simp add: covers_def)

definition client_inv :: "os_env \<Rightarrow> addr \<Rightarrow> wl \<Rightarrow> holdings \<Rightarrow> bool" where
  "client_inv E tc s H \<longleftrightarrow>
     \<not> thread_state s tc \<and> \<not> init_once s \<and> H = Map.empty \<or>
     (\<exists>V R. alloc_wf E tc s V R \<and> covers (heap_of s V) H)"

lemma client_inv_live:
  assumes "client_inv E tc s H" "H b = Some n"
  obtains V R m where "alloc_wf E tc s V R" "covers (heap_of s V) H" "heap_of s V b = Some m" "n \<le> m" "0 < n"
  using assms coversD by (fastforce simp: client_inv_def)

text \<open>The first request initialises; every later one finds the state initialised.\<close>

lemma check_init_idem: "check_init E tc s = Inr t \<Longrightarrow> thread_state t tc"
  using thread_cache_init_fields(3) by (auto simp: check_init_def bindE_Inr_iff split: if_splits)

lemma malloc_after_init:
  assumes "check_init E tc s = Inr t"
  shows "malloc E tc s sz = malloc E tc t sz"
  using assms check_init_idem [OF assms] by (simp add: malloc_def wl_malloc_def check_init_def [of _ _ t])

lemma check_init_Inl: "check_init E tc s = Inl e \<Longrightarrow> malloc E tc s sz = Inl e"
  by (simp add: malloc_def wl_malloc_def)

lemma check_init_fails:
  assumes "\<not> init_once s" "check_init E tc s = Inl e"
  shows "e = Exit"
  using assms
  by (auto simp: check_init_def global_init_def syscall_alloc_def Let_def bindE_def split: if_splits sum.splits)

lemma client_inv_init:
  assumes env: "env_ok E tc" and i: "client_inv E tc s H" and c: "check_init E tc s = Inr t"
  shows "\<exists>V R. alloc_wf E tc t V R \<and> covers (heap_of t V) H \<and> mem t = mem s"
proof (cases "thread_state s tc")
  case True
  then show ?thesis using i c by (auto simp: client_inv_def check_init_def)
next
  case False
  then have f: "\<not> init_once s" "H = Map.empty" using i by (auto simp: client_inv_def alloc_wf_def)
  have "mmap E (length (os_calls s)) (of_nat ALLOC_UNIT) \<noteq> MAP_FAILED"
    using False f c by (auto simp: check_init_def bindE_Inr_iff global_init_def syscall_alloc_def Let_def)
  from check_init_ok [OF env False f(1) this] c f(2) show ?thesis
    by (metis Inr_inject covers_empty)
qed

lemma malloc_step:
  assumes env: "env_ok E tc" and i: "client_inv E tc s H" and g: "can_ask E tc s sz"
    and m: "malloc E tc s sz = Inr (b, s')"
  shows "H b = None \<and> client_inv E tc s' (H(b \<mapsto> unat sz)) \<and> mem s' = mem s"
proof -
  obtain t where t: "check_init E tc s = Inr t"
    using m check_init_Inl by (cases "check_init E tc s") fastforce+
  obtain V R where w: "alloc_wf E tc t V R" "covers (heap_of t V) H" "mem t = mem s"
    using client_inv_init [OF env i t] by blast
  have g': "sz \<noteq> 0" "sz \<le> 16384" "reuse_free tc t sz" using g t by (auto simp: can_ask_def)
  have "wl_malloc E tc t sz = Inr (b, s')" using m malloc_after_init [OF t] by (simp add: malloc_def)
  from wl_malloc_ok [OF env w(1) g' this] obtain k V' R' where
    r: "alloc_wf E tc s' V' R'" "heap_of t V b = None" "heap_of s' V' = (heap_of t V)(b \<mapsto> cls2size ! k)"
      "unat sz \<le> cls2size ! k" "mem s' = mem t" by blast
  have "0 < unat sz" using g'(1) by (simp add: unat_gt_0)
  from covers_alloc [OF w(2) this r(4)] r(3) have "covers (heap_of s' V') (H(b \<mapsto> unat sz))" by simp
  with r(1) have "client_inv E tc s' (H(b \<mapsto> unat sz))" unfolding client_inv_def by blast
  with r w show ?thesis by (simp add: covers_None)
qed

lemma free_step:
  assumes i: "client_inv E tc s H" and h: "H b = Some n"
  shows "\<exists>s'. free E tc s b = Inr s' \<and> client_inv E tc s' (H(b := None)) \<and> mem s' = mem s"
proof -
  obtain V R m where w: "alloc_wf E tc s V R" "covers (heap_of s V) H" "heap_of s V b = Some m"
    using client_inv_live [OF i h] by metis
  from wl_free_ok [OF w(1,3)] obtain s' V' R' where
    r: "wl_free E tc s b = Inr s'" "alloc_wf E tc s' V' R'" "heap_of s' V' = (heap_of s V)(b := None)"
      "mem s' = mem s" by blast
  from covers_release [OF w(2)] r(3) have "covers (heap_of s' V') (H(b := None))" by simp
  with r show ?thesis unfolding free_def client_inv_def by blast
qed

subsection \<open>User writes and \<open>calloc\<close>\<close>

lemma alloc_wf_mem [simp]:
  "alloc_wf E tc (s\<lparr>mem := m\<rparr>) V R = alloc_wf E tc s V R" "heap_of (s\<lparr>mem := m\<rparr>) = heap_of s"
  "client_inv E tc (s\<lparr>mem := m\<rparr>) H = client_inv E tc s H"
proof -
  show w: "alloc_wf E tc (s\<lparr>mem := m\<rparr>) V R = alloc_wf E tc s V R" for V R
    by (simp add: alloc_wf_def core_def using_match_def)
  show h: "heap_of (s\<lparr>mem := m\<rparr>) = heap_of s"
    by (intro ext) (simp add: heap_of_def Let_def)
  show "client_inv E tc (s\<lparr>mem := m\<rparr>) H = client_inv E tc s H"
    using w h by (simp add: client_inv_def)
qed

lemma client_live_ne: "client_inv E tc s H \<Longrightarrow> H b = Some n \<Longrightarrow> b \<noteq> NULL \<and> 0 < n"
  by (metis client_inv_live alloc_wf_def heap_of_inside(2))

text \<open>The multiplication in \<open>calloc\<close> is checked by dividing back; the check is exact.\<close>

lemma calloc_check:
  fixes num nsize :: size_t
  assumes "num \<noteq> 0"
  shows "(num * nsize) div num = nsize \<longleftrightarrow> unat num * unat nsize < 2 ^ 64"
proof
  assume l: "unat num * unat nsize < 2 ^ 64"
  then have "unat (num * nsize) = unat num * unat nsize" by (rule unat_mult_small)
  moreover have "0 < unat num" using assms by (simp add: unat_gt_0)
  ultimately show "(num * nsize) div num = nsize" by (simp add: word_eq_iff_unsigned unat_div word_unat_eq_iff)
next
  assume e: "(num * nsize) div num = nsize"
  have "unat num * unat nsize \<le> unat (num * nsize)"
    using arg_cong [OF e, of unat] by (metis unat_div div_times_less_eq_dividend mult.commute)
  also have "\<dots> < 2 ^ 64" using unsigned_less [of "num * nsize"] by simp
  finally show "unat num * unat nsize < 2 ^ 64" .
qed

lemma calloc_step:
  assumes env: "env_ok E tc" and i: "client_inv E tc s H" and g: "can_ask E tc s (num * nsize)"
    and o: "unat num * unat nsize < 2 ^ 64" and r: "calloc E tc s num nsize = Inr (b, s')"
  shows "H b = None \<and> client_inv E tc s' (H(b \<mapsto> unat (num * nsize))) \<and>
    mem s' = memset (mem s) b 0 (unat (num * nsize))"
proof -
  have nz: "num \<noteq> 0" "nsize \<noteq> 0" using g by (auto simp: can_ask_def)
  then have "(num * nsize) div num = nsize" using calloc_check o by blast
  with nz r obtain t where t: "malloc E tc s (num * nsize) = Inr (b, t)"
    "(if b = NULL then Inr (NULL, t) else Inr (b, t\<lparr>mem := memset (mem t) b 0 (unat (num * nsize))\<rparr>)) =
      (Inr (b, s') :: (addr \<times> wl) outcome)"
    by (fastforce simp: calloc_def Let_def bindE_Inr_iff split: if_splits)
  note ms = malloc_step [OF env i g t(1)]
  have "b \<noteq> NULL" using client_live_ne [of E tc t _ b] ms by auto
  with t ms show ?thesis by auto
qed

subsection \<open>\<open>realloc\<close>\<close>

lemma heap_of_blk_size: "heap_of s V b = Some m \<Longrightarrow> unat (blk_size (span_at s (GET_HEADER b))) = m"
  by (auto simp: heap_of_def Let_def split: if_splits)

lemma covers_move:
  "covers G H \<Longrightarrow> G p \<noteq> None \<Longrightarrow> 0 < n \<Longrightarrow> n \<le> m \<Longrightarrow> covers (G(p := None, b \<mapsto> m)) (H(p := None, b \<mapsto> n))"
  by (auto simp: covers_def)

lemma load_bytes_prefix: "load_bytes m' a n = load_bytes m b n \<Longrightarrow> k \<le> n \<Longrightarrow> load_bytes m' a k = load_bytes m b k"
  by (simp add: load_bytes_eq_iff)

text \<open>The block has no room: \<open>malloc\<close>, copy, \<open>free\<close>.\<close>

lemma realloc_move:
  assumes env: "env_ok E tc" and w: "alloc_wf E tc s V R" and cv: "covers (heap_of s V) H"
    and p: "heap_of s V p = Some m" and g: "can_ask E tc s sz" and lt: "m < unat sz"
    and a: "malloc E tc s sz = Inr (b, t)"
  defines "t2 \<equiv> t\<lparr>mem := memcpy (mem t) b p m\<rparr>"
  shows "b \<noteq> NULL \<and> unat (blk_size (span_at t (GET_HEADER p))) = m \<and> b \<noteq> p \<and> H b = None \<and>
    (\<exists>s'. free E tc t2 p = Inr s' \<and> client_inv E tc s' (H(p := None, b \<mapsto> unat sz)) \<and>
      mem s' = memcpy (mem s) b p m \<and> keeps (mem s) (mem s') H p)"
proof -
  have g': "sz \<noteq> 0" "sz \<le> 16384" "reuse_free tc s sz"
    using g w by (auto simp: can_ask_def check_init_def alloc_wf_def)
  have "wl_malloc E tc s sz = Inr (b, t)" using a by (simp add: malloc_def)
  from wl_malloc_ok [OF env w g' this] obtain k V' R' where
    r: "alloc_wf E tc t V' R'" "heap_of s V b = None" "heap_of t V' = (heap_of s V)(b \<mapsto> cls2size ! k)"
      "unat sz \<le> cls2size ! k" "mem t = mem s" by blast
  have ct: "core E tc t V' R'" using r(1) by (simp add: alloc_wf_def)
  have bp: "b \<noteq> p" "H b = None" using r(2) p covers_None [OF cv, of b] by auto
  have tb: "heap_of t V' b = Some (cls2size ! k)" and tp: "heap_of t V' p = Some m"
    using r(3) bp p by auto
  have w2: "alloc_wf E tc t2 V' R'" "heap_of t2 V' p = Some m" using r(1) tp by (simp_all add: t2_def)
  from wl_free_ok [OF w2] obtain s' V'' R'' where
    f: "wl_free E tc t2 p = Inr s'" "alloc_wf E tc s' V'' R''" "heap_of s' V'' = (heap_of t2 V')(p := None)"
      "mem s' = mem t2" by blast
  have ms: "mem s' = memcpy (mem s) b p m" using f(4) r(5) by (simp add: t2_def)
  have "heap_of s' V'' = (heap_of s V)(p := None, b \<mapsto> cls2size ! k)"
    using f(3) r(3) bp by (auto simp: t2_def)
  moreover have "covers ((heap_of s V)(p := None, b \<mapsto> cls2size ! k)) (H(p := None, b \<mapsto> unat sz))"
    using p g'(1) r(4) by (intro covers_move [OF cv]) (simp_all add: unat_gt_0)
  ultimately have "client_inv E tc s' (H(p := None, b \<mapsto> unat sz))"
    using f(2) unfolding client_inv_def by metis
  moreover have "keeps (mem s) (mem s') H p"
    unfolding keeps_def
  proof (intro allI impI)
    fix c j assume c: "H c = Some j" "c \<noteq> p"
    then obtain l where l: "heap_of s V c = Some l" "j \<le> l" using coversD [OF cv] by blast
    then have "heap_of t V' c = Some l" and "b \<noteq> c" using r(2,3) by auto
    from live_apart [OF ct tb this(1)] this(2) have "apart b (cls2size ! k) c l" by blast
    then have "c + j \<le> b \<or> b + m \<le> c" using l(2) lt r(4) by (auto simp: apart_def)
    then show "load_bytes (mem s') c j = load_bytes (mem s) c j"
      unfolding ms by (rule load_memcpy_other)
  qed
  moreover have "b \<noteq> NULL" using heap_of_inside(2) [OF ct tb] .
  moreover have "unat (blk_size (span_at t (GET_HEADER p))) = m" using heap_of_blk_size [OF tp] .
  ultimately show ?thesis using bp f(1) ms by (auto simp: free_def)
qed

lemma realloc_step:
  assumes env: "env_ok E tc" and i: "client_inv E tc s H" and h: "H p = Some n" and g: "can_ask E tc s sz"
    and r: "realloc E tc s p sz = Inr (b, s')"
  shows "client_inv E tc s' (H(p := None, b \<mapsto> unat sz)) \<and> (b = p \<or> H b = None) \<and>
    load_bytes (mem s') b (min n (unat sz)) = load_bytes (mem s) p (min n (unat sz)) \<and>
    keeps (mem s) (mem s') H p"
proof -
  obtain V R m where w: "alloc_wf E tc s V R" "covers (heap_of s V) H" "heap_of s V p = Some m" "n \<le> m"
    using client_inv_live [OF i h] by metis
  have c: "core E tc s V R" using w(1) by (simp add: alloc_wf_def)
  note ins = heap_of_inside [OF c w(3)] and bs = heap_of_blk_size [OF w(3)]
  have nz: "sz \<noteq> 0" using g by (auto simp: can_ask_def)
  show ?thesis
  proof (cases "unat sz \<le> m")
    case True
    then have b: "b = p" "s' = s" using r ins nz bs by (auto simp: realloc_def Let_def)
    have "covers ((heap_of s V)(p := None, p \<mapsto> m)) (H(p := None, p \<mapsto> unat sz))"
      using w nz True by (intro covers_move) (simp_all add: unat_gt_0)
    moreover have "(heap_of s V)(p := None, p \<mapsto> m) = heap_of s V" using w(3) by auto
    ultimately have "client_inv E tc s (H(p := None, p \<mapsto> unat sz))"
      using w(1) unfolding client_inv_def by metis
    then show ?thesis using b by (simp add: keeps_def)
  next
    case False
    then obtain t where t: "malloc E tc s sz = Inr (b, t)"
      using r ins nz bs by (auto simp: realloc_def Let_def bindE_Inr_iff split: if_splits)
    note mv = realloc_move [OF env w(1-3) g _ t]
    obtain s2 where s2: "free E tc (t\<lparr>mem := memcpy (mem t) b p m\<rparr>) p = Inr s2"
      "client_inv E tc s2 (H(p := None, b \<mapsto> unat sz))" "mem s2 = memcpy (mem s) b p m"
      "keeps (mem s) (mem s2) H p" "b \<noteq> NULL" "unat (blk_size (span_at t (GET_HEADER p))) = m" "H b = None"
      using mv False by auto
    then have "s' = s2" using r ins nz bs False t by (simp add: realloc_def Let_def)
    moreover have "load_bytes (mem s2) b (min n (unat sz)) = load_bytes (mem s) p (min n (unat sz))"
      unfolding s2(3) by (rule load_bytes_prefix [OF load_memcpy_same]) (use w(4) in simp)
    ultimately show ?thesis using s2 by simp
  qed
qed

subsection \<open>The invariant of every run\<close>

lemma start_inv: "client_inv E tc start_state Map.empty"
  by (simp add: client_inv_def start_state_def)

lemma reach_inv:
  assumes "env_ok E tc" "reach E tc s H"
  shows "client_inv E tc s H"
  using assms(2)
proof induction
  case reach_start
  show ?case by (rule start_inv)
next
  case (reach_malloc s H sz b s')
  then show ?case using malloc_step [OF assms(1)] by blast
next
  case (reach_free s H b n s')
  from free_step [OF reach_free(4,2)] reach_free(3) show ?case by (auto simp del: fun_upd_apply)
next
  case (reach_calloc s H num nsize b s')
  then show ?case using calloc_step [OF assms(1)] by blast
next
  case (reach_realloc s H p n sz b s')
  then show ?case using realloc_step [OF assms(1)] by blast
next
  case (reach_write s H b n i bs)
  then show ?case by simp
qed

subsection \<open>The store of blocks\<close>

lemma client_apart:
  assumes i: "client_inv E tc s H" and h: "H b = Some n" "H c = Some k" and ne: "b \<noteq> c"
  shows "apart b n c k"
proof -
  obtain V R m where w: "alloc_wf E tc s V R" "covers (heap_of s V) H" "heap_of s V b = Some m" "n \<le> m"
    using client_inv_live [OF i h(1)] by metis
  obtain l where l: "heap_of s V c = Some l" "k \<le> l" using coversD [OF w(2) h(2)] by blast
  have "core E tc s V R" using w(1) by (simp add: alloc_wf_def)
  note live_apart [OF this w(3) l(1) ne]
  with w(4) l(2) show ?thesis by (auto simp: apart_def)
qed

lemma malloc_exit:
  assumes env: "env_ok E tc" and i: "client_inv E tc s H" and g: "can_ask E tc s sz"
    and m: "malloc E tc s sz = Inl e"
  shows "e = Exit"
proof (cases "check_init E tc s")
  case (Inl d)
  then have t: "\<not> thread_state s tc" by (auto simp: check_init_def)
  then have "\<not> init_once s" using i by (auto simp: client_inv_def alloc_wf_def)
  from check_init_fails [OF this Inl] m check_init_Inl [OF Inl] show ?thesis by simp
next
  case (Inr t)
  obtain V R where w: "alloc_wf E tc t V R" using client_inv_init [OF env i Inr] by blast
  have g': "sz \<noteq> 0" "sz \<le> 16384" "reuse_free tc t sz" using g Inr by (auto simp: can_ask_def)
  have m': "malloc E tc t sz = Inl e" using m malloc_after_init [OF Inr] by simp
  have t: "thread_state t tc" using w by (simp add: alloc_wf_def)
  from wl_malloc_small [OF t g'(1,2), of E] obtain k where k: "k < 29" "size2cls sz = Some k"
    "wl_malloc E tc t sz = small_alloc E tc t k" by blast
  then show ?thesis
    using small_alloc_error [OF w k(1)] g'(3) m' by (simp add: reuse_free_def malloc_def)
qed

lemma malloc_not_null:
  assumes "env_ok E tc" "client_inv E tc s H" "can_ask E tc s sz" "malloc E tc s sz = Inr (b, s')"
  shows "b \<noteq> NULL"
  using client_live_ne [of E tc s' _ b] malloc_step [OF assms] by auto

interpretation bs: block_store "\<lambda>s H. env_ok E tc \<and> client_inv E tc s H" "can_ask E tc" "malloc E tc"
  "free E tc" mem "\<lambda>m s. s\<lparr>mem := m\<rparr>" for E tc
proof unfold_locales
  fix s H b n assume ok: "env_ok E tc \<and> client_inv E tc s H" and b: "H b = Some n"
  show "b \<noteq> NULL" using client_live_ne ok b by blast
  show "\<exists>s'. free E tc s b = Inr s' \<and> (env_ok E tc \<and> client_inv E tc s' (H(b := None))) \<and> mem s' = mem s"
    using free_step ok b by blast
qed (auto simp: malloc_exit dest: client_apart malloc_step malloc_not_null)

end
