(* ===== verification/Alloc_Progress.thy ===== *)
theory Alloc_Progress
  imports Client
begin

text \<open>
  Requests that cannot fail: while the area of the pool has room for another span, a small request is
  answered, and a program that only allocates never meets a reusable span.
\<close>

definition room :: "wl \<Rightarrow> nat \<Rightarrow> bool" where
  "room s n \<longleftrightarrow> free_start (pool s) + n * SPAN_SIZE \<le> pool_end (pool s)"

lemma room_mono: "room s n \<Longrightarrow> m \<le> n \<Longrightarrow> room s m"
  using mult_le_mono1 [of m n SPAN_SIZE] unfolding room_def by linarith

lemma replace_progress:
  assumes "core E tc s V R" "k < 29" "\<forall>sp \<in> set (susp V k). free_cnt (span_at s sp) = 0" "room s (Suc n)"
  shows "\<exists>s'. replace_available_span E tc s k = Inr s' \<and> room s' n"
  unfolding replace_cases [OF assms(1-3)] using assms(4)
  by (auto simp: room_def layout split: list.splits)

lemma get_blk_pool: "get_blk s sp = (b, s') \<Longrightarrow> pool (s' :: wl) = pool s"
  by (auto simp: get_blk_def Let_def split: if_splits)

lemma small_alloc_progress:
  assumes w: "alloc_wf E tc s V R" and k: "k < 29" and g: "no_reusable tc s k" and rm: "room s (Suc n)"
  shows "\<exists>b s'. small_alloc E tc s k = Inr (b, s') \<and> room s' n"
proof -
  have c: "core E tc s V R" and um: "using_match tc s V k" using w k by (auto simp: alloc_wf_def)
  note g' = g [unfolded no_reusable_iff [OF c k]]
  let ?sp = "using_span (tcache_at s tc) k"
  have fin: "\<exists>b s'. Inr (get_blk u (using_span (tcache_at u tc) k)) = (Inr (b, s') :: (addr \<times> wl) outcome) \<and> room s' n"
    if "room u n" for u :: wl
  proof -
    obtain b s' where b: "get_blk u (using_span (tcache_at u tc) k) = (b, s')" by fastforce
    with that get_blk_pool [OF b] show ?thesis by (simp add: room_def)
  qed
  consider "?sp = 0" | "?sp \<noteq> 0" "free_cnt (span_at s ?sp) = 0" | "?sp \<noteq> 0" "free_cnt (span_at s ?sp) \<noteq> 0"
    by blast
  then show ?thesis
  proof cases
    case 1
    with replace_progress [OF c k g' rm] fin show ?thesis by (fastforce simp: small_alloc_def)
  next
    case 2
    then have "role V ?sp = Some (Using k)" using um by (simp add: using_match_def)
    note cs = core_suspend [OF c this exhausted_live [OF c this 2(2)]]
    let ?t = "upd_lnk (\<lambda>L. list_add_tail L (nd ?sp) (tc_suspend tc k)) (upd_span ?sp (\<lambda>x. x\<lparr>state := SUSPEND\<rparr>) s)"
    obtain u where u: "replace_available_span E tc ?t k = Inr u" "room u n"
      using replace_progress [OF cs k _] g' 2 rm by (fastforce simp: room_def)
    with 2 fin [OF u(2)] show ?thesis by (simp add: small_alloc_def Let_def)
  next
    case 3
    with fin [OF room_mono [OF rm]] show ?thesis by (auto simp: small_alloc_def)
  qed
qed

lemma malloc_progress:
  assumes w: "alloc_wf E tc s V R" and g: "sz \<noteq> 0" "sz \<le> 16384" "reuse_free tc s sz" and rm: "room s (Suc n)"
  shows "\<exists>b s'. malloc E tc s sz = Inr (b, s') \<and> room s' n"
proof -
  have t: "thread_state s tc" using w by (simp add: alloc_wf_def)
  from wl_malloc_small [OF t g(1,2), of E] obtain k where k: "k < 29" "size2cls sz = Some k"
    "wl_malloc E tc s sz = small_alloc E tc s k" by blast
  with g(3) have "no_reusable tc s k" by (simp add: reuse_free_def)
  from small_alloc_progress [OF w k(1) this rm] k(3) show ?thesis by (simp add: malloc_def)
qed

lemma exhausted_ask:
  assumes w: "alloc_wf E tc s V R" and e: "exhausted s V" and sz: "sz \<noteq> 0" "sz \<le> 16384"
  shows "reuse_free tc s sz"
proof -
  have t: "thread_state s tc" and c: "core E tc s V R" using w by (auto simp: alloc_wf_def)
  from wl_malloc_small [OF t sz, of E] obtain k where "k < 29" "size2cls sz = Some k" by blast
  with e no_reusable_iff [OF c] show ?thesis by (simp add: reuse_free_def exhausted_def)
qed

lemma init_room:
  assumes env: "env_ok E tc" and m: "mmap E 0 (of_nat ALLOC_UNIT) \<noteq> MAP_FAILED"
  shows "\<exists>t R. check_init E tc start_state = Inr t \<and> alloc_wf E tc t no_spans R \<and>
    exhausted t no_spans \<and> room t 8155"
proof -
  have st: "\<not> thread_state start_state tc" "\<not> init_once start_state" "os_calls start_state = []"
    by (simp_all add: start_state_def)
  obtain t R where t: "check_init E tc start_state = Inr t" "alloc_wf E tc t no_spans R"
    using check_init_ok [OF env st(1,2)] m st(3) by auto
  let ?raw = "mmap E 0 (of_nat ALLOC_UNIT)"
  have "?raw \<le> 2 ^ 47" using env_apart(4) [OF env m] by simp
  note ru = ROUNDUP_start [OF this]
  obtain g where g: "global_init E (start_state\<lparr>init_once := True\<rparr>) = Inr g"
    "pool_start (pool g) = unat (ROUNDUP (of_nat ?raw) (of_nat SPAN_SIZE))"
    "free_start (pool g) = pool_start (pool g)" "pool_end (pool g) = ?raw + ALLOC_UNIT"
    using global_init_eq [of E "start_state\<lparr>init_once := True\<rparr>"] m st(3) by auto
  have "t = thread_cache_init tc g" using t(1) st g(1) by (simp add: check_init_def)
  then have "room t 8155"
    using g(2-4) ru(1,3) by (simp add: room_def thread_cache_init_fields layout)
  with t show ?thesis by (auto simp: exhausted_def no_spans_def)
qed

text \<open>A run of requests, none of them a \<open>free\<close>.\<close>

definition small_sizes :: "size_t list \<Rightarrow> bool" where
  "small_sizes szs = list_all (\<lambda>sz. sz \<noteq> 0 \<and> sz \<le> 16384) szs"

lemma serve_mallocs:
  assumes env: "env_ok E tc"
  shows "reach E tc s H \<Longrightarrow> check_init E tc s = Inr t \<Longrightarrow> alloc_wf E tc t V R \<Longrightarrow> covers (heap_of t V) H \<Longrightarrow>
    exhausted t V \<Longrightarrow> room t (length szs) \<Longrightarrow> small_sizes szs \<Longrightarrow>
    \<exists>as s' H'. serve E tc s (map Malloc szs) = Inr (as, s') \<and> reach E tc s' H' \<and> length as = length szs \<and>
      distinct as \<and> set as \<inter> dom H = {} \<and> (\<forall>i<length szs. H' (as ! i) = Some (unat (szs ! i))) \<and>
      (\<forall>c\<in>dom H. H' c = H c)"
proof (induction szs arbitrary: s H t V R)
  case Nil
  then show ?case by auto
next
  case (Cons sz szs)
  have sz: "sz \<noteq> 0" "sz \<le> 16384" "small_sizes szs" using Cons.prems(7) by (simp_all add: small_sizes_def)
  note rf = exhausted_ask [OF Cons.prems(3,5) sz(1,2)]
  obtain b s1 where b: "malloc E tc t sz = Inr (b, s1)" "room s1 (length szs)"
    using malloc_progress [OF Cons.prems(3) sz(1,2) rf] Cons.prems(6) by fastforce
  have m: "malloc E tc s sz = Inr (b, s1)" using b(1) malloc_after_init [OF Cons.prems(2)] by simp
  have "can_ask E tc s sz" using sz rf Cons.prems(2) by (simp add: can_ask_def)
  note r1 = reach_malloc [OF Cons.prems(1) this m]
  have "wl_malloc E tc t sz = Inr (b, s1)" using b(1) by (simp add: malloc_def)
  from wl_malloc_ok [OF env Cons.prems(3) sz(1,2) rf this] Cons.prems(5) obtain k V' R' where
    w: "alloc_wf E tc s1 V' R'" "heap_of t V b = None" "heap_of s1 V' = (heap_of t V)(b \<mapsto> cls2size ! k)"
      "unat sz \<le> cls2size ! k" "exhausted s1 V'" by blast
  have "0 < unat sz" using sz(1) by (simp add: unat_gt_0)
  from covers_alloc [OF Cons.prems(4) this w(4)] have cv: "covers (heap_of s1 V') (H(b \<mapsto> unat sz))"
    unfolding w(3) .
  have ci: "check_init E tc s1 = Inr s1" using w(1) by (simp add: check_init_def alloc_wf_def)
  have hb: "H b = None" using covers_None [OF Cons.prems(4), of b] w(2) by simp
  from Cons.IH [OF r1 ci w(1) cv w(5) b(2) sz(3)] obtain as s' H' where
    ih: "serve E tc s1 (map Malloc szs) = Inr (as, s')" "reach E tc s' H'" "length as = length szs"
      "distinct as" "set as \<inter> dom (H(b \<mapsto> unat sz)) = {}" "\<forall>i<length szs. H' (as ! i) = Some (unat (szs ! i))"
      "\<forall>c\<in>dom (H(b \<mapsto> unat sz)). H' c = (H(b \<mapsto> unat sz)) c" by blast
  have "serve E tc s (map Malloc (sz # szs)) = Inr (b # as, s')" using m ih(1) by simp
  moreover have "distinct (b # as)" "set (b # as) \<inter> dom H = {}" using ih(4,5) hb by auto
  moreover have "\<forall>i<length (sz # szs). H' ((b # as) ! i) = Some (unat ((sz # szs) ! i))"
    using ih(6,7) by (auto simp: nth_Cons split: nat.splits)
  moreover have "\<forall>c\<in>dom H. H' c = H c" using ih(7) hb by auto
  ultimately show ?case using ih(2,3) by (metis length_Cons)
qed

lemma serve_from_start:
  assumes env: "env_ok E tc" and m: "mmap E 0 (of_nat ALLOC_UNIT) \<noteq> MAP_FAILED"
    and n: "length szs \<le> 8155" "small_sizes szs"
  shows "\<exists>as s' H'. serve E tc start_state (map Malloc szs) = Inr (as, s') \<and> reach E tc s' H' \<and>
    length as = length szs \<and> distinct as \<and> (\<forall>i<length szs. H' (as ! i) = Some (unat (szs ! i)))"
proof -
  obtain t R where t: "check_init E tc start_state = Inr t" "alloc_wf E tc t no_spans R"
    "exhausted t no_spans" "room t 8155"
    using init_room [OF env m] by blast
  have cv: "covers (heap_of t no_spans) Map.empty"
    by (simp add: covers_def heap_of_def no_spans_def active_def Let_def dom_def)
  have "room t (length szs)" using room_mono [OF t(4)] n(1) by simp
  from serve_mallocs [OF env reach_start t(1,2) cv t(3) this n(2)] show ?thesis by blast
qed

end
