(* ===== verification/Alloc_Correct.thy ===== *)
theory Alloc_Correct
  imports Alloc_Progress
begin

text \<open>
  What a program that uses the allocator from one thread can rely on, read off the invariant of every
  run (\<open>reach_inv\<close>), each with an instance on a small run in a concrete process (\<open>demo_env\<close>).
\<close>

subsection \<open>A concrete process\<close>

text \<open>The first \<open>mmap\<close> answers 409600; the thread's cache lies at 8192, the global pool at 4096.\<close>

definition demo_env :: os_env where
  "demo_env = \<lparr>pool_addr = 4096, mmap = (\<lambda>k sz. if k = 0 \<and> sz = of_nat ALLOC_UNIT then 409600 else MAP_FAILED),
     munmap_ok = (\<lambda>_ _ _. True)\<rparr>"

lemma demo_env_ok: "env_ok demo_env 8192"
  by (simp add: env_ok_def demo_env_def apart_def layout)

lemma demo_mapped: "mmap demo_env 0 (of_nat ALLOC_UNIT) \<noteq> MAP_FAILED"
  by (simp add: demo_env_def layout)

text \<open>A run that holds a block of 100 and a block of 5000 bytes.\<close>

lemma demo_holds:
  "\<exists>b c s H. reach demo_env 8192 s H \<and> H b = Some 100 \<and> H c = Some 5000 \<and> b \<noteq> c"
proof -
  have "length [100, 5000 :: size_t] \<le> 8155" "small_sizes [100, 5000]" by (simp_all add: small_sizes_def)
  from serve_from_start [OF demo_env_ok demo_mapped this] obtain as s H where
    r: "reach demo_env 8192 s H" "length as = length [100, 5000 :: size_t]" "distinct as"
      "\<forall>i<length [100, 5000 :: size_t]. H (as ! i) = Some (unat ([100, 5000 :: size_t] ! i))"
    by blast
  from r(4) [THEN spec, of 0] r(4) [THEN spec, of 1]
  have "H (as ! 0) = Some 100" "H (as ! 1) = Some 5000" by simp_all
  moreover have "as ! 0 \<noteq> as ! 1" using r(2,3) by (simp add: nth_eq_iff_index_eq)
  ultimately show ?thesis using r(1) by blast
qed

lemma demo_can_ask: "sz \<noteq> 0 \<Longrightarrow> sz \<le> 16384 \<Longrightarrow> can_ask demo_env 8192 start_state sz"
proof -
  assume sz: "sz \<noteq> 0" "sz \<le> 16384"
  obtain t R where t: "check_init demo_env 8192 start_state = Inr t" "alloc_wf demo_env 8192 t no_spans R"
    "exhausted t no_spans" using init_room [OF demo_env_ok demo_mapped] by blast
  from exhausted_ask [OF t(2,3) sz] t(1) sz show ?thesis by (simp add: can_ask_def)
qed

lemma demo_malloc:
  assumes "sz \<noteq> 0" "sz \<le> 16384"
  shows "\<exists>b s. malloc demo_env 8192 start_state sz = Inr (b, s)"
proof -
  have "small_sizes [sz]" using assms by (simp add: small_sizes_def)
  from serve_from_start [OF demo_env_ok demo_mapped _ this] show ?thesis
    by (auto simp: bindE_Inr_iff)
qed

subsection \<open>Blocks\<close>

lemma heap_of_aligned:
  assumes c: "core E tc s V R" and h: "heap_of s V b = Some n"
  shows "b mod 8 = 0"
proof -
  note hs = heap_of_Some [OF c h] and ok = active_facts [OF c heap_of_Some(1) [OF c h]]
  let ?sp = "GET_HEADER b"
  obtain i where i: "b = blk_addr ?sp (cls (span_at s ?sp)) i"
    using span_ok_blocks [OF ok(2)] hs(2) by (auto simp: blocks_def)
  have "SPAN_SIZE dvd ?sp" using carved_inside(1) [OF coreD(1) [OF c] hs(6)] by auto
  then have "8 dvd ?sp" by (rule dvd_trans [rotated]) (simp add: layout)
  moreover have "8 dvd cls2size ! cls (span_at s ?sp)" using cls2size_range(3) [OF ok(3)] by auto
  ultimately have "8 dvd blk_addr ?sp (cls (span_at s ?sp)) i"
    unfolding blk_addr_def by (intro dvd_add dvd_mult) (simp_all add: layout)
  with i show ?thesis by auto
qed

text \<open>
  C1: In an orderly run of a program of one thread (\<open>reach\<close>: it asks for 1 to 16384 bytes at a time, makes no request
  while a suspended span of the class has a free block again, gives back only blocks it holds and writes only inside
  them) two blocks the program holds have no byte in common, at every moment. C9 shows that the second condition
  is needed.
\<close>

theorem live_blocks_apart:
  assumes "env_ok E tc" "reach E tc s H" "H b = Some n" "H c = Some k" "b \<noteq> c"
  shows "apart b n c k"
  by (rule client_apart [OF reach_inv [OF assms(1,2)] assms(3-5)])

lemma live_blocks_apart_witness:
  "\<exists>b c s H. reach demo_env 8192 s H \<and> H b = Some 100 \<and> H c = Some 5000 \<and> b \<noteq> c \<and> apart b 100 c 5000"
  using demo_holds live_blocks_apart [OF demo_env_ok] by meson

lemma malloc_client:
  assumes env: "env_ok E tc" and i: "client_inv E tc s H" and g: "can_ask E tc s sz"
    and m: "malloc E tc s sz = Inr (b, s')"
  shows "H b = None \<and> b \<noteq> NULL \<and> b mod 8 = 0 \<and> (\<forall>c\<in>dom H. apart b (unat sz) c (the (H c)))"
proof -
  note ms = malloc_step [OF env i g m]
  then have i': "client_inv E tc s' (H(b \<mapsto> unat sz))" and hb: "H b = None" by blast+
  obtain V R n where w: "alloc_wf E tc s' V R" "heap_of s' V b = Some n"
    by (rule client_inv_live [OF i', of b "unat sz"]) auto
  have "apart b (unat sz) c (the (H c))" if "c \<in> dom H" for c
    using that hb by (intro client_apart [OF i']) auto
  moreover have "b mod 8 = 0" "b \<noteq> NULL"
    using heap_of_aligned [OF _ w(2)] heap_of_inside(2) [OF _ w(2)] w(1) by (auto simp: alloc_wf_def)
  ultimately show ?thesis using hb by blast
qed

lemma malloc_fails:
  assumes env: "env_ok E tc" and i: "client_inv E tc s H" and g: "can_ask E tc s sz"
    and m: "malloc E tc s sz = Inl e"
  shows "e = Exit \<and> (\<forall>t. check_init E tc s = Inr t \<longrightarrow> \<not> room t 1)"
proof -
  have "\<not> room t 1" if t: "check_init E tc s = Inr t" for t
  proof -
    obtain V R where w: "alloc_wf E tc t V R" using client_inv_init [OF env i t] by blast
    have g': "sz \<noteq> 0" "sz \<le> 16384" "reuse_free tc t sz" using g t by (auto simp: can_ask_def)
    from malloc_progress [OF w g', of 0] m malloc_after_init [OF t] show ?thesis by auto
  qed
  with malloc_exit [OF env i g m] show ?thesis by blast
qed

text \<open>
  C2: In an orderly run (as in C1), \<open>malloc\<close> of 1 to 16384 bytes, made when no suspended span of the class has a free block
  again (\<open>can_ask\<close>), returns a new block, not \<open>NULL\<close>, aligned to 8 bytes and apart from every block the program holds,
  and changes no user data; or the process exits, and then the mapped area had no room for another span. It never
  blocks or takes an undefined step. What happens in the excluded case is C9.
\<close>

theorem malloc_outcome:
  assumes "env_ok E tc" "reach E tc s H" "can_ask E tc s sz"
  shows "case malloc E tc s sz of
      Inl e \<Rightarrow> e = Exit \<and> (\<forall>t. check_init E tc s = Inr t \<longrightarrow> \<not> room t 1)
    | Inr (b, s') \<Rightarrow> H b = None \<and> b \<noteq> NULL \<and> b mod 8 = 0 \<and> mem s' = mem s \<and>
        (\<forall>c\<in>dom H. apart b (unat sz) c (the (H c)))"
  using malloc_client [OF assms(1) reach_inv [OF assms(1,2)] assms(3)]
    malloc_step [OF assms(1) reach_inv [OF assms(1,2)] assms(3)]
    malloc_fails [OF assms(1) reach_inv [OF assms(1,2)] assms(3)]
  by (auto split: sum.splits)

lemma malloc_outcome_witness:
  "\<exists>b s'. malloc demo_env 8192 start_state 100 = Inr (b, s') \<and> b \<noteq> NULL \<and> b mod 8 = 0 \<and> mem s' = mem start_state"
proof -
  obtain b s' where m: "malloc demo_env 8192 start_state 100 = Inr (b, s')" using demo_malloc [of 100] by auto
  have "can_ask demo_env 8192 start_state 100" by (rule demo_can_ask) simp_all
  from malloc_outcome [OF demo_env_ok reach_start this] m show ?thesis by simp
qed

text \<open>
  C3: In an orderly run (as in C1), so for blocks of 1 to 16384 bytes that the thread which asked for them gives back,
  \<open>free\<close> of a block the program holds returns, and changes no user data.
\<close>

theorem free_succeeds:
  assumes "env_ok E tc" "reach E tc s H" "H b = Some n"
  shows "\<exists>s'. free E tc s b = Inr s' \<and> mem s' = mem s"
  using free_step [OF reach_inv [OF assms(1,2)] assms(3)] by blast

lemma free_succeeds_witness:
  "\<exists>b s H s'. reach demo_env 8192 s H \<and> H b = Some 100 \<and> free demo_env 8192 s b = Inr s' \<and> mem s' = mem s"
  using demo_holds free_succeeds [OF demo_env_ok] by meson

subsection \<open>\<open>realloc\<close> and \<open>calloc\<close>\<close>

lemma realloc_error:
  assumes env: "env_ok E tc" and i: "client_inv E tc s H" and h: "H p = Some n" and g: "can_ask E tc s sz"
    and r: "realloc E tc s p sz = Inl e"
  shows "e = Exit"
proof -
  obtain V R m where w: "alloc_wf E tc s V R" "covers (heap_of s V) H" "heap_of s V p = Some m"
    using client_inv_live [OF i h] by metis
  have c: "core E tc s V R" using w(1) by (simp add: alloc_wf_def)
  note ins = heap_of_inside [OF c w(3)] and bs = heap_of_blk_size [OF w(3)]
  have nz: "sz \<noteq> 0" using g by (auto simp: can_ask_def)
  have lt: "m < unat sz" using r ins nz bs by (auto simp: realloc_def Let_def split: if_splits)
  show ?thesis
  proof (cases "malloc E tc s sz")
    case (Inl d)
    then have "e = d" using r ins nz bs lt by (simp add: realloc_def Let_def)
    then show ?thesis using malloc_fails [OF env i g Inl] by simp
  next
    case (Inr bt)
    then obtain b t where t: "malloc E tc s sz = Inr (b, t)" by (cases bt) auto
    from realloc_move [OF env w g lt t] r ins nz bs lt t show ?thesis
      by (auto simp: realloc_def Let_def)
  qed
qed

text \<open>
  C4: In an orderly run (as in C1), \<open>realloc\<close> of a block held to 1 to 16384 bytes (\<open>can_ask\<close>) returns a block with the same
  first bytes, up to the smaller of the two sizes, which is the old one or a new one, and keeps the contents of all
  other blocks; or the process exits for lack of memory. \<open>NULL\<close>, the size 0 and large blocks are not covered:
  \<open>realloc_null\<close> and \<open>large_block_overruns_mapping\<close> (theory \<open>Alloc_Bugs\<close>) say what they do.
\<close>

theorem realloc_keeps_contents:
  assumes "env_ok E tc" "reach E tc s H" "H p = Some n" "can_ask E tc s sz"
  shows "case realloc E tc s p sz of
      Inl e \<Rightarrow> e = Exit
    | Inr (b, s') \<Rightarrow> (b = p \<or> H b = None) \<and>
        load_bytes (mem s') b (min n (unat sz)) = load_bytes (mem s) p (min n (unat sz)) \<and>
        keeps (mem s) (mem s') H p"
  using realloc_step [OF assms(1) reach_inv [OF assms(1,2)] assms(3,4)]
    realloc_error [OF assms(1) reach_inv [OF assms(1,2)] assms(3,4)]
  by (auto split: sum.splits)

text \<open>A run of the process that has given nothing back can ask for more, and is answered.\<close>

definition demo_run :: "wl \<Rightarrow> nat \<Rightarrow> bool" where
  "demo_run s n \<longleftrightarrow> s = start_state \<and> n \<le> 8155 \<or> (\<exists>V R. alloc_wf demo_env 8192 s V R \<and> exhausted s V \<and> room s n)"

lemma demo_run_start: "n \<le> 8155 \<Longrightarrow> demo_run start_state n"
  by (simp add: demo_run_def)

lemma demo_run_step:
  assumes r: "demo_run s (Suc n)" and sz: "sz \<noteq> 0" "sz \<le> 16384"
  shows "\<exists>b s'. can_ask demo_env 8192 s sz \<and> malloc demo_env 8192 s sz = Inr (b, s') \<and> demo_run s' n \<and>
    (\<forall>m. demo_run (s'\<lparr>mem := m\<rparr>) n)"
proof -
  obtain t V R where t: "check_init demo_env 8192 s = Inr t" "alloc_wf demo_env 8192 t V R" "exhausted t V" "room t (Suc n)"
  proof (cases "s = start_state \<and> Suc n \<le> 8155")
    case True
    then show ?thesis using that init_room [OF demo_env_ok demo_mapped] room_mono by metis
  next
    case False
    then obtain V R where w: "alloc_wf demo_env 8192 s V R" "exhausted s V" "room s (Suc n)"
      using r by (auto simp: demo_run_def)
    then have "check_init demo_env 8192 s = Inr s" by (simp add: check_init_def alloc_wf_def)
    then show ?thesis using that w by blast
  qed
  note g = exhausted_ask [OF t(2,3) sz]
  obtain b s' where m: "malloc demo_env 8192 t sz = Inr (b, s')" "room s' n"
    using malloc_progress [OF t(2) sz g t(4)] by blast
  have "wl_malloc demo_env 8192 t sz = Inr (b, s')" using m(1) by (simp add: malloc_def)
  from wl_malloc_ok [OF demo_env_ok t(2) sz g this] t(3) m(2) obtain V' R' where
    v: "alloc_wf demo_env 8192 s' V' R'" "exhausted s' V'" by blast
  then have "demo_run s' n" using m(2) unfolding demo_run_def by blast
  moreover have "\<forall>m. demo_run (s'\<lparr>mem := m\<rparr>) n"
  proof
    fix m' :: bytes
    have "exhausted (s'\<lparr>mem := m'\<rparr>) V'" "room (s'\<lparr>mem := m'\<rparr>) n" using v(2) m(2) by (simp_all add: exhausted_def room_def)
    then show "demo_run (s'\<lparr>mem := m'\<rparr>) n" using v(1) unfolding demo_run_def by (metis alloc_wf_mem(1))
  qed
  moreover have "can_ask demo_env 8192 s sz" using sz g t(1) by (simp add: can_ask_def)
  ultimately show ?thesis using m(1) malloc_after_init [OF t(1)] by metis
qed

lemma demo_two:
  assumes "sz \<noteq> 0" "sz \<le> 16384" "sz2 \<noteq> 0" "sz2 \<le> 16384"
  shows "\<exists>b s c t. malloc demo_env 8192 start_state sz = Inr (b, s) \<and> can_ask demo_env 8192 s sz2 \<and>
    malloc demo_env 8192 s sz2 = Inr (c, t) \<and> demo_run t 100"
proof -
  have "demo_run start_state (Suc 101)" by (simp add: demo_run_start)
  from demo_run_step [OF this assms(1,2)] obtain b s where
    s: "malloc demo_env 8192 start_state sz = Inr (b, s)" "demo_run s (Suc 100)" by auto
  from demo_run_step [OF s(2) assms(3,4)] s(1) show ?thesis by blast
qed

lemma demo_one:
  "\<exists>b s. reach demo_env 8192 s [b \<mapsto> 100] \<and> can_ask demo_env 8192 s 5000"
proof -
  obtain b s where m: "malloc demo_env 8192 start_state 100 = Inr (b, s)" "can_ask demo_env 8192 s 5000"
    using demo_two [of 100 5000] by auto
  have "can_ask demo_env 8192 start_state 100" by (rule demo_can_ask) simp_all
  from reach_malloc [OF reach_start this m(1)] m(2) show ?thesis by auto
qed

lemma realloc_keeps_contents_witness:
  "\<exists>p s. reach demo_env 8192 s [p \<mapsto> 100] \<and> can_ask demo_env 8192 s 5000 \<and>
     (case realloc demo_env 8192 s p 5000 of
        Inl e \<Rightarrow> e = Exit
      | Inr (b, s') \<Rightarrow> load_bytes (mem s') b 100 = load_bytes (mem s) p 100)"
proof -
  obtain p s where r: "reach demo_env 8192 s [p \<mapsto> 100]" "can_ask demo_env 8192 s 5000" using demo_one by blast
  have "[p \<mapsto> 100] p = Some 100" by simp
  from realloc_keeps_contents [OF demo_env_ok r(1) this r(2)] r show ?thesis
    by (intro exI [of _ p] exI [of _ s]) (auto split: sum.splits)
qed

text \<open>
  C5: In an orderly run (as in C1), \<open>calloc\<close> of \<open>num\<close> elements of \<open>nsize\<close> bytes, whose product does not overflow and is 1 to
  16384 (\<open>can_ask\<close>), returns a new block of \<open>num * nsize\<close> bytes that are all zero and leaves the blocks the program
  holds as they were; or the process exits for lack of memory. A product that overflows is answered with \<open>NULL\<close>
  (\<open>calloc_overflow\<close>), a product above 16384 with a large block, as in C27.
\<close>

theorem calloc_zeroes:
  assumes "env_ok E tc" "reach E tc s H" "can_ask E tc s (num * nsize)" "unat num * unat nsize < 2 ^ 64"
  shows "case calloc E tc s num nsize of
      Inl e \<Rightarrow> e = Exit
    | Inr (b, s') \<Rightarrow> H b = None \<and> load_bytes (mem s') b (unat num * unat nsize) = replicate (unat num * unat nsize) 0 \<and>
        keeps (mem s) (mem s') H b"
proof (cases "calloc E tc s num nsize")
  case (Inl e)
  have nz: "num \<noteq> 0" "nsize \<noteq> 0" using assms(3) by (auto simp: can_ask_def)
  then have "(num * nsize) div num = nsize" using calloc_check assms(4) by blast
  then have "malloc E tc s (num * nsize) = Inl e"
    using Inl nz by (auto simp: calloc_def Let_def bindE_def split: sum.splits if_splits)
  with malloc_fails [OF assms(1) reach_inv [OF assms(1,2)] assms(3)] Inl show ?thesis by simp
next
  case (Inr bs)
  obtain b s' where bs: "bs = (b, s')" by fastforce
  note st = calloc_step [OF assms(1) reach_inv [OF assms(1,2)] assms(3,4) Inr [unfolded bs]]
  have n: "unat (num * nsize) = unat num * unat nsize" using assms(4) by (simp add: unat_word_ariths)
  have "keeps (mem s) (memset (mem s) (b + 0) 0 (unat (num * nsize))) (H(b \<mapsto> unat (num * nsize))) b"
    using st assms(1) by (intro bs.memset_keeps [of E tc s']) auto
  then have "keeps (mem s) (mem s') H b" using st by (auto simp: keeps_def)
  moreover have "load_bytes (mem s') b (unat num * unat nsize) = replicate (unat num * unat nsize) 0"
    using st n by simp
  ultimately show ?thesis using st Inr bs by simp
qed

lemma calloc_zeroes_witness:
  "case calloc demo_env 8192 start_state 25 4 of
     Inl e \<Rightarrow> e = Exit
   | Inr (b, s') \<Rightarrow> load_bytes (mem s') b 100 = replicate 100 0"
proof -
  have "can_ask demo_env 8192 start_state (25 * 4)" by (rule demo_can_ask) simp_all
  from calloc_zeroes [OF demo_env_ok reach_start this] show ?thesis by (auto split: sum.splits)
qed

text \<open>When the product of its arguments does not fit in 64 bits, \<open>calloc\<close> refuses and allocates nothing.\<close>

theorem calloc_overflow:
  assumes "2 ^ 64 \<le> unat num * unat nsize"
  shows "calloc E tc s num nsize = Inr (NULL, s)"
proof (cases "num = 0 \<or> nsize = 0")
  case False
  then have "(num * nsize) div num \<noteq> nsize" using calloc_check [of num nsize] assms by auto
  with False show ?thesis by (simp add: calloc_def Let_def)
qed (simp add: calloc_def)

lemma calloc_overflow_witness:
  "calloc demo_env 8192 start_state (2 ^ 33) (2 ^ 31) = Inr (NULL, start_state)"
  by (rule calloc_overflow) simp

subsection \<open>Bookkeeping\<close>

lemma live_of_span:
  assumes c: "core E tc s V R" and a: "active V sp"
  shows "live V sp = {b \<in> dom (heap_of s V). GET_HEADER b = sp}"
proof -
  note ok = active_facts [OF c a]
  have hd: "GET_HEADER b = sp" if "b \<in> live V sp" for b
    by (rule block_header [OF ok(3) carved_inside(1) [OF coreD(1) [OF c] ok(1)]])
      (use span_ok_blocks [OF ok(2)] that in blast)
  show ?thesis
  proof (intro set_eqI iffI)
    fix b assume b: "b \<in> live V sp"
    then have "heap_of s V b \<noteq> None" using hd [OF b] a by (simp add: heap_of_def)
    then show "b \<in> {b \<in> dom (heap_of s V). GET_HEADER b = sp}" using hd [OF b] by blast
  next
    fix b assume "b \<in> {b \<in> dom (heap_of s V). GET_HEADER b = sp}"
    then show "b \<in> live V sp" using heap_of_Some(2) [OF c] by blast
  qed
qed

text \<open>
  C6: In an orderly run (as in C1) the counter in the header of a span from which the program holds a block is exact:
  free blocks and blocks held make up the capacity of the span, so no block of it is lost or counted twice. In other
  runs the counter goes wrong (C9, C26).
\<close>

theorem span_accounting:
  assumes "env_ok E tc" "reach E tc s H" "H b = Some n"
  shows "unat (free_cnt (span_at s (GET_HEADER b))) + card {c \<in> dom H. GET_HEADER c = GET_HEADER b} =
    SPAN_DATA_SIZE div cls2size ! cls (span_at s (GET_HEADER b))"
proof -
  obtain V R m where w: "alloc_wf E tc s V R" "covers (heap_of s V) H" "heap_of s V b = Some m"
    by (rule client_inv_live [OF reach_inv [OF assms(1,2)] assms(3)])
  have c: "core E tc s V R" using w(1) by (simp add: alloc_wf_def)
  note a = heap_of_Some(1) [OF c w(3)]
  have "dom H = dom (heap_of s V)" using w(2) by (simp add: covers_def)
  with span_ok_counts(1) [OF active_facts(2) [OF c a]] live_of_span [OF c a] show ?thesis
    by (simp add: cap_def)
qed

lemma span_accounting_witness:
  "\<exists>b s H. reach demo_env 8192 s H \<and> H b = Some 100 \<and>
     unat (free_cnt (span_at s (GET_HEADER b))) + card {c \<in> dom H. GET_HEADER c = GET_HEADER b} =
       SPAN_DATA_SIZE div cls2size ! cls (span_at s (GET_HEADER b))"
  using demo_holds span_accounting [OF demo_env_ok] by meson

lemma node_apart:
  assumes c: "core E tc s V R" and h: "heap_of s V b = Some m" and x: "x \<in> ring_nodes R"
  shows "apart x 16 b m"
proof -
  note f = heap_of_Some [OF c h] and p = coreD(1) [OF c]
  let ?sp = "GET_HEADER b"
  note sp = carved_inside [OF p f(6)]
  have header: "apart (sp' + i) 16 b m" if "sp' \<in> carved (pool s)" "i + 16 \<le> sizeof_span" for sp' i
  proof -
    note sp' = carved_inside [OF p that(1)]
    consider "sp' = ?sp" | "sp' < ?sp" | "?sp < sp'" by linarith
    then show ?thesis
    proof cases
      case 1 then show ?thesis using f(4) that(2) by (simp add: apart_def)
    next
      case 2 from aligned_step [OF sp'(1) sp(1) 2] show ?thesis
        using f(4) that(2) offsets(6) by (simp add: apart_def)
    next
      case 3 from aligned_step [OF sp(1) sp'(1) 3] show ?thesis using f(5) by (simp add: apart_def)
    qed
  qed
  from ring_node_kinds [OF c x] consider
      "x \<in> struct_heads E tc"
    | sp' r where "role V sp' = Some r" "x = nd sp'"
    | sp' where "active V sp'" "x = bl sp'"
    | sp' where "active V sp'" "x \<in> set (flist V sp')" by blast
  then show ?thesis
  proof cases
    case 1
    then have "x + 16 \<le> pool_start (pool s) \<or> pool_end (pool s) \<le> x"
      using p by (auto simp: struct_heads_def pool_ok_def apart_def layout)
    then show ?thesis using sp f(4,5) by (auto simp: apart_def)
  next
    case 2
    with header [of sp' node] coreD(2) [OF c] show ?thesis by (auto simp: layout)
  next
    case 3
    with header [of sp' blk_list] active_facts(1) [OF c] show ?thesis by (auto simp: layout)
  next
    case 4
    note ok = active_facts [OF c 4(1)] and okb = active_facts [OF c f(1)]
    note sp' = carved_inside [OF p ok(1)]
    have xb: "x \<in> blocks sp' (cls (span_at s sp')) (cap (cls (span_at s sp')))"
      using span_ok_blocks [OF ok(2)] 4(2) by auto
    note xi = block_inside [OF ok(3) xb] and big = cls2size_range(1) [OF ok(3)]
    consider "sp' = ?sp" | "sp' < ?sp" | "?sp < sp'" by linarith
    then show ?thesis
    proof cases
      case 1
      have "x \<noteq> b" using 1 4(2) ok(2) f(2) by (auto simp: span_ok_def)
      moreover have "b \<in> blocks ?sp (cls (span_at s ?sp)) (cap (cls (span_at s ?sp)))"
        using span_ok_blocks [OF okb(2)] f(2) by auto
      moreover note xb [unfolded 1]
      ultimately show ?thesis using blocks_apart [OF okb(3), of x ?sp _ b] 1 f(3) big
        unfolding apart_def by (metis add_le_mono le_refl le_trans add_le_cancel_left)
    next
      case 2 from aligned_step [OF sp'(1) sp(1) 2] show ?thesis using xi big f(4) by (simp add: apart_def)
    next
      case 3 from aligned_step [OF sp(1) sp'(1) 3] show ?thesis using xi f(5) by (simp add: apart_def)
    qed
  qed
qed

text \<open>
  C7: In an orderly run (as in C1) the allocator keeps its books outside the program's memory: every list is a well-formed
  ring, and each of their 16-byte nodes (those inside free blocks too) and the span header are apart from every block
  the program holds. So the program's writes cannot harm the lists, and the lists' writes cannot harm the program's
  data. In other runs stale links are followed (C9).
\<close>

theorem metadata_apart:
  assumes "env_ok E tc" "reach E tc s H" "H b = Some n"
  shows "\<exists>R. rings (lnk s) R \<and> struct_heads E tc \<subseteq> dom R \<and> GET_HEADER b + blk_list \<in> dom R \<and>
    (\<forall>x \<in> ring_nodes R. apart x 16 b n) \<and> apart (GET_HEADER b) sizeof_span b n"
proof -
  obtain V R m where w: "alloc_wf E tc s V R" "heap_of s V b = Some m" "n \<le> m"
    by (rule client_inv_live [OF reach_inv [OF assms(1,2)] assms(3)])
  have c: "core E tc s V R" using w(1) by (simp add: alloc_wf_def)
  note ro = ring_okD [OF coreD(6) [OF c]] and f = heap_of_Some [OF c w(2)]
  have "\<forall>x \<in> ring_nodes R. apart x 16 b n"
    using node_apart [OF c w(2)] w(3) by (fastforce simp: apart_def)
  moreover have "struct_heads E tc \<subseteq> dom R" using ro(2-5) by (auto simp: struct_heads_def)
  moreover have "GET_HEADER b + blk_list \<in> dom R" using ro(6) f(1) by auto
  ultimately show ?thesis using ro(1) f(4) by (auto simp: apart_def)
qed

lemma metadata_apart_witness:
  "\<exists>b s H R. reach demo_env 8192 s H \<and> H b = Some 100 \<and> rings (lnk s) R \<and> struct_heads demo_env 8192 \<subseteq> dom R \<and>
     apart (tc_free_list 8192) 16 b 100 \<and> apart (GET_HEADER b) sizeof_span b 100"
proof -
  obtain b s H where r: "reach demo_env 8192 s H" "H b = Some 100" using demo_holds by blast
  from metadata_apart [OF demo_env_ok r] obtain R where
    R: "rings (lnk s) R" "struct_heads demo_env 8192 \<subseteq> dom R" "\<forall>x \<in> ring_nodes R. apart x 16 b 100"
      "apart (GET_HEADER b) sizeof_span b 100" by blast
  have "tc_free_list 8192 \<in> dom R" by (rule subsetD [OF R(2)]) simp
  then have "tc_free_list 8192 \<in> ring_nodes R" by (auto simp: ring_nodes_def)
  with r R show ?thesis by blast
qed

text \<open>
  C8: A program of one thread that makes at most 8155 requests (the spans of one mapped area), each for 1 to 16384 bytes,
  and gives nothing back never fails when the first \<open>mmap\<close> succeeds: all requests are answered, with distinct blocks of
  the sizes asked for.
\<close>

theorem first_area_suffices:
  assumes "env_ok E tc" "mmap E 0 (of_nat ALLOC_UNIT) \<noteq> MAP_FAILED"
    and "length szs \<le> 8155" "small_sizes szs"
  shows "\<exists>as s' H. serve E tc start_state (map Malloc szs) = Inr (as, s') \<and> reach E tc s' H \<and>
    length as = length szs \<and> distinct as \<and> (\<forall>i<length szs. H (as ! i) = Some (unat (szs ! i)))"
  by (rule serve_from_start [OF assms])

lemma first_area_suffices_witness:
  "\<exists>as s. serve demo_env 8192 start_state (map Malloc [16384, 1, 16384]) = Inr (as, s) \<and> length as = 3 \<and> distinct as"
proof -
  have n: "length [16384, 1, 16384 :: size_t] \<le> 8155" "small_sizes [16384, 1, 16384]"
    by (simp_all add: small_sizes_def)
  from first_area_suffices [OF demo_env_ok demo_mapped n] show ?thesis by fastforce
qed

end
