(* ===== verification/Alloc_Bugs.thy ===== *)
theory Alloc_Bugs
  imports Alloc_Correct
begin

text \<open>
  Where the code does not do what it means to: the paths that \<open>Client\<close> keeps programs away from. Each
  theorem states what the code does there.
\<close>

subsection \<open>The search of the suspended list loses the span it finds\<close>

lemma find_available_first:
  "seg (lnk h) a (map nd (xs @ sp # ys)) e \<Longrightarrow> e \<notin> set (map nd (xs @ [sp])) \<Longrightarrow>
   \<forall>x \<in> set xs. free_cnt (span_at h x) = 0 \<Longrightarrow> 0 < free_cnt (span_at h sp) \<Longrightarrow>
   find_available h e (nxt (lnk h) a) = Some (Some sp)"
proof (induction xs arbitrary: a)
  case Nil
  then show ?case by (auto simp: find_available.simps [of h e "nd sp"] list_entry_def)
next
  case (Cons x xs)
  then show ?case by (auto simp: find_available.simps [of h e "nd x"] list_entry_def)
qed

text \<open>
  When a suspended span of the class has a free block again, \<open>replace_available_span\<close> takes the
  first such span off the list and then forgets it: the \<open>break\<close> after \<open>list_del\<close> leaves the search
  loop only, and a span is cut from the pool and put in use instead. The span found keeps its free
  blocks and the state \<open>SUSPEND\<close> but is on no list any more.
\<close>

theorem reusable_span_lost:
  assumes k: "k < 29" "\<not> pool_lock (pool s)"
    and d: "dll (lnk s) (tc_suspend tc k) (map nd (xs @ sp # ys))"
    and z: "\<forall>x \<in> set xs. free_cnt (span_at s x) = 0" "0 < free_cnt (span_at s sp)"
    and e: "dll (lnk s) (tc_free_list tc) []" "dll (lnk s) (pool_suspend E k) []" "dll (lnk s) (pool_free_list E) []"
    and n: "{tc_free_list tc, pool_suspend E k, pool_free_list E, bl (free_start (pool s))} \<inter>
        set (tc_suspend tc k # map nd (xs @ sp # ys)) = {}"
    and f: "free_start (pool s) \<noteq> sp" "free_start (pool s) + SPAN_SIZE \<le> pool_end (pool s)"
  shows "\<exists>s'. replace_available_span E tc s k = Inr s' \<and> using_span (tcache_at s' tc) k = free_start (pool s) \<and>
    span_at s' sp = span_at s sp \<and> dll (lnk s') (tc_suspend tc k) (map nd (xs @ ys))"
proof -
  let ?h = "tc_suspend tc k" and ?L = "list_del (lnk s) (nd sp)"
  have search: "find_available s ?h (nxt (lnk s) ?h) = Some (Some sp)"
    by (rule find_available_first [of s _ xs _ ys, OF _ _ z]) (use d in \<open>auto simp: dll_def\<close>)
  have ne: "\<not> list_empty (lnk s) ?h" using list_empty_iff [OF d] by simp
  have m: "nd sp \<in> set (map nd (xs @ sp # ys))" by simp
  have "dll ?L g []" if "dll (lnk s) g []" "g \<notin> set (?h # map nd (xs @ sp # ys))" for g
    by (rule list_del_frame [OF d m that(1)]) (use that(2) in auto)
  then have "list_empty ?L g" if "g \<in> {tc_free_list tc, pool_suspend E k, pool_free_list E}" for g
    using that e n list_empty_iff [of ?L g "[]"] by auto
  then have emp: "list_empty ?L (tc_free_list tc)" "list_empty ?L (pool_suspend E k)" "list_empty ?L (pool_free_list E)"
    by simp_all
  have "remove1 (nd sp) (map nd (xs @ sp # ys)) = map nd (xs @ ys)"
    using d by (auto simp: dll_def remove1_append)
  then have "dll ?L ?h (map nd (xs @ ys))" using list_del_remove1 [OF d m] by simp
  moreover have "bl (free_start (pool s)) \<notin> set (?h # map nd (xs @ ys))" using n by auto
  ultimately have "dll (INIT_LIST_HEAD ?L (bl (free_start (pool s)))) ?h (map nd (xs @ ys))"
    by (rule INIT_LIST_HEAD_frame)
  then show ?thesis
    using k f search ne emp
    by (simp add: replace_available_span_def acquire_span_def carve_span_def lock_pool_def
        unlock_pool_def span_init_eq Let_def)
qed

text \<open>A thread at 8192 with one suspended span of class 26 (8192 bytes) at 411400, one of its two blocks free.\<close>

definition lost_demo :: wl where
  "lost_demo = start_state\<lparr>
     lnk := \<lparr>nxt = (\<lambda>x. x)(tc_suspend 8192 26 := 411456, 411456 := tc_suspend 8192 26),
             prv = (\<lambda>x. x)(tc_suspend 8192 26 := 411456, 411456 := tc_suspend 8192 26)\<rparr>,
     span_at := (\<lambda>_. \<lparr>owner = 8192, state = SUSPEND, cls = 26, blk_size = 8192, free_blk = 427856, free_cnt = 1\<rparr>),
     pool := \<lparr>pool_lock = False, pool_start = 411400, pool_end = 134627328, free_start = 427856\<rparr>\<rparr>"

lemma reusable_span_lost_witness:
  "\<exists>s'. replace_available_span demo_env 8192 lost_demo 26 = Inr s' \<and>
    using_span (tcache_at s' 8192) 26 = 427856 \<and> state (span_at s' 411400) = SUSPEND \<and>
    free_cnt (span_at s' 411400) = 1 \<and> dll (lnk s') (tc_suspend 8192 26) []"
proof -
  have "dll (lnk lost_demo) (tc_suspend 8192 26) (map nd ([] @ 411400 # []))"
    by (simp add: lost_demo_def dll_def layout)
  from reusable_span_lost [OF _ _ this, of demo_env] show ?thesis
    by (force simp: lost_demo_def start_state_def dll_def demo_env_def layout)
qed

subsection \<open>Blocks given back to a span of the pool\<close>

text \<open>
  Giving back a block whose span belongs to the pool takes the pool's lock and releases the
  thread's own: from then on every request that reaches the pool blocks for ever.
\<close>

theorem pool_block_free_deadlocks:
  assumes "owner (span_at s (GET_HEADER p)) = POOL_OWNER" "tc \<noteq> POOL_OWNER" "\<not> pool_lock (pool s)"
    and "p \<noteq> NULL" "\<not> outside_pool s p"
  shows "\<exists>s'. wl_free E tc s p = Inr s' \<and> pool_lock (pool s') \<and> (\<forall>k. acquire_span E s' k = Inl Deadlock)"
  using assms
  by (simp add: wl_free_def span_free_blk_def lock_pool_def unlock_tc_def release_blk_def Let_def acquire_span_def)

definition pool_block_demo :: wl where
  "pool_block_demo = lost_demo\<lparr>span_at := (\<lambda>_. \<lparr>owner = POOL_OWNER, state = IN_USE, cls = 26,
     blk_size = 8192, free_blk = 427856, free_cnt = 0\<rparr>)\<rparr>"

lemma pool_block_free_deadlocks_witness:
  "\<exists>s'. wl_free demo_env 8192 pool_block_demo 411472 = Inr s' \<and> acquire_span demo_env s' 26 = Inl Deadlock"
  using pool_block_free_deadlocks [of pool_block_demo 411472 8192 demo_env]
  by (auto simp: pool_block_demo_def lost_demo_def layout outside_pool_def)

text \<open>
  A span from which nothing is left answers a request all the same: the address just past its
  blocks (past the whole span, where the next span's header lies, for a class that divides 16384), and
  the counter of free blocks becomes \<open>2 ^ 32 - 1\<close>. \<open>acquire_span\<close> hands out such spans, because it does not
  look at the counter of the spans that exited threads left in the pool.
\<close>

theorem full_pool_span_overruns:
  assumes "\<not> pool_lock (pool s)" "dll (lnk s) (pool_suspend E k) (nd sp # rest)"
    and "span_ok (span_at s sp) sp [] A" "free_cnt (span_at s sp) = 0" "dll (lnk s) (bl sp) []"
    and "bl sp \<notin> set (pool_suspend E k # nd sp # rest)"
  shows "\<exists>s1. acquire_span E s k = Inr (sp, s1) \<and>
    fst (get_blk s1 sp) = sp + sizeof_span + cap (cls (span_at s sp)) * cls2size ! cls (span_at s sp) \<and>
    fst (get_blk s1 sp) \<notin> blocks sp (cls (span_at s sp)) (cap (cls (span_at s sp))) \<and>
    free_cnt (span_at (snd (get_blk s1 sp)) sp) = - 1"
proof -
  let ?L = "list_del (lnk s) (nd sp)" and ?c = "cls (span_at s sp)"
  have m: "nd sp \<in> set (nd sp # rest)" by simp
  have "dll ?L (bl sp) []" by (rule list_del_frame [OF assms(2) m assms(5)]) (use assms(6) in auto)
  then have e: "list_empty ?L (bl sp)" using list_empty_iff by blast
  have q: "acquire_span E s k = Inr (sp, unlock_pool (upd_lnk (\<lambda>L. list_del L (nd sp)) (s\<lparr>pool := (pool s)\<lparr>pool_lock := True\<rparr>\<rparr>)))"
    using assms(1) list_empty_iff [OF assms(2)] dll_next [OF assms(2)]
    by (simp add: acquire_span_def lock_pool_def Let_def list_entry_def upd_lnk_def)
  obtain u where u: "?c < 29" "u \<le> cap ?c" "free_blk (span_at s sp) = blk_addr sp ?c u" "0 = cap ?c - u"
    using assms(3,4) by (auto simp: span_ok_def)
  then have "free_blk (span_at s sp) = blk_addr sp ?c (cap ?c)" by simp
  moreover have "blk_addr sp ?c (cap ?c) \<notin> blocks sp ?c (cap ?c)" using blk_addr_notin u(1) by blast
  ultimately show ?thesis
    using q e assms(4) by (simp add: get_blk_def Let_def blk_addr_def unlock_pool_def)
qed

text \<open>The pool's list of class 28 (one block of 16384 bytes in a span) holds a span that is full.\<close>

definition full_demo :: wl where
  "full_demo = lost_demo\<lparr>
     lnk := \<lparr>nxt = (\<lambda>x. x)(pool_suspend demo_env 28 := 411456, 411456 := pool_suspend demo_env 28),
             prv = (\<lambda>x. x)(pool_suspend demo_env 28 := 411456, 411456 := pool_suspend demo_env 28)\<rparr>,
     span_at := (\<lambda>_. \<lparr>owner = POOL_OWNER, state = IN_USE, cls = 28, blk_size = 16384, free_blk = 427856, free_cnt = 0\<rparr>)\<rparr>"

lemma full_pool_span_overruns_witness:
  "\<exists>s1. acquire_span demo_env full_demo 28 = Inr (411400, s1) \<and> fst (get_blk s1 411400) = 411400 + SPAN_SIZE \<and>
     free_cnt (span_at (snd (get_blk s1 411400)) 411400) = - 1"
proof -
  have l: "\<not> pool_lock (pool full_demo)" by (simp add: full_demo_def lost_demo_def)
  have d: "dll (lnk full_demo) (pool_suspend demo_env 28) (nd 411400 # [])"
    by (simp add: full_demo_def dll_def layout demo_env_def)
  have ok: "span_ok (span_at full_demo 411400) 411400 [] {411472}"
    by (simp add: full_demo_def span_ok_def cap_def blocks_def blk_addr_def cls2size_def layout lessThan_Suc exI [of _ 1])
  have n: "dll (lnk full_demo) (bl 411400) []" "bl 411400 \<notin> set (pool_suspend demo_env 28 # nd 411400 # [])"
    by (simp_all add: full_demo_def dll_def layout demo_env_def)
  have z: "free_cnt (span_at full_demo 411400) = 0" by (simp add: full_demo_def)
  from full_pool_span_overruns [OF l d ok z n] show ?thesis
    by (auto simp: full_demo_def cap_def cls2size_def layout)
qed

subsection \<open>Large blocks\<close>

text \<open>\<open>mmap\<close> rounds the length of a mapping up to whole pages.\<close>

definition mapping_end :: "addr \<Rightarrow> size_t \<Rightarrow> addr" where
  "mapping_end raw sz = raw + (unat sz + PAGE - 1) div PAGE * PAGE"

text \<open>
  \<open>large_alloc\<close> maps the bytes asked for, without room for the span header it puts in front of
  them: when the size is a multiple of the page size the last 72 bytes of the block lie behind the
  end of the mapping.
\<close>

theorem large_block_overruns_mapping:
  assumes "large_alloc E s sz = Inr (b, s')" "sz \<noteq> 0" "unat sz mod PAGE = 0"
  shows "\<exists>raw. os_calls s' = os_calls s @ [Mmap sz raw] \<and> b = raw + sizeof_span \<and>
    mapping_end raw sz + sizeof_span = b + unat sz"
proof -
  obtain q where q: "unat sz = PAGE * q" using assms(3) by auto
  have "(unat sz + PAGE - 1) div PAGE * PAGE = unat sz"
    unfolding q by (simp add: PAGE_def)
  then show ?thesis
    using assms(1) by (auto simp: large_alloc_def syscall_alloc_def Let_def mapping_end_def split: if_splits)
qed

definition map_env :: os_env where
  "map_env = demo_env\<lparr>mmap := (\<lambda>_ _. 1048576)\<rparr>"

lemma large_block_overruns_mapping_witness:
  "\<exists>s'. large_alloc map_env start_state 20480 = Inr (1048648, s') \<and> mapping_end 1048576 20480 = 1069056 \<and>
     1048648 + 20480 = (1069056 :: nat) + sizeof_span"
proof -
  obtain s' where s': "large_alloc map_env start_state 20480 = Inr (1048648, s')"
    by (simp add: large_alloc_def syscall_alloc_def map_env_def layout Let_def)
  from large_block_overruns_mapping [OF s'] show ?thesis
    using s' by (auto simp: layout mapping_end_def)
qed

text \<open>
  Giving a large block back unmaps what was mapped for it exactly when its size fits in 32 bits;
  the header keeps only the low 32 bits, so a block of 4 GiB is "unmapped" with length 0.
\<close>

theorem large_block_unmap:
  assumes "large_alloc E s sz = Inr (b, s')" "outside_pool s' b" "wl_free E tc s' b = Inr s''"
  shows "\<exists>raw len. os_calls s'' = os_calls s @ [Mmap sz raw, Munmap raw len] \<and>
    unat len = unat sz mod 2 ^ 32 \<and> (len = sz \<longleftrightarrow> unat sz < 2 ^ 32)"
proof -
  have len: "unat (ucast (ucast sz :: u32) :: size_t) = unat sz mod 2 ^ 32"
    by (simp add: unsigned_ucast_eq take_bit_eq_mod unat_mod)
  then have "(ucast (ucast sz :: u32) = sz) \<longleftrightarrow> unat sz < 2 ^ 32"
    by (metis mod_less mod_less_divisor word_unat_eq_iff zero_less_numeral zero_less_power)
  with len show ?thesis
    using assms
    by (auto simp: large_alloc_def syscall_alloc_def wl_free_def large_free_def syscall_free_def Let_def layout
        split: if_splits)
qed

lemma large_block_unmap_witness:
  "\<exists>b s' s''. large_alloc map_env start_state 4294967296 = Inr (b, s') \<and> wl_free map_env 8192 s' b = Inr s'' \<and>
     (\<exists>raw. os_calls s'' = [Mmap 4294967296 raw, Munmap raw 0])"
proof -
  obtain s' where s': "large_alloc map_env start_state 4294967296 = Inr (1048648, s')" "pool s' = pool start_state"
    by (simp add: large_alloc_def syscall_alloc_def map_env_def layout Let_def)
  have o: "outside_pool s' 1048648" using s'(2) by (simp add: outside_pool_def start_state_def)
  obtain s'' where f: "wl_free map_env 8192 s' 1048648 = Inr s''"
    using o by (simp add: wl_free_def large_free_def syscall_free_def map_env_def demo_env_def Let_def)
  from large_block_unmap [OF s'(1) o f] obtain raw len where
    r: "os_calls s'' = os_calls start_state @ [Mmap 4294967296 raw, Munmap raw len]" "unat len = 0" by auto
  then have "len = 0" by (simp add: unat_eq_zero)
  with r s' f show ?thesis by (auto simp: start_state_def)
qed

text \<open>
  \<open>realloc\<close> of the null pointer gives \<open>NULL\<close> and allocates nothing, where C asks for \<open>malloc\<close>.
\<close>

theorem realloc_null:
  "realloc E tc s NULL sz = Inr (NULL, s)"
  by (simp add: realloc_def)

end
