(* ===== verification/Alloc_Twice.thy ===== *)
theory Alloc_Twice
  imports Alloc_Bugs
begin

text \<open>
  A run of a program of one thread in which \<open>malloc\<close> hands out a block that the program still holds.
\<close>

named_theorems shots

definition links_at :: "links \<Rightarrow> (addr \<times> addr \<times> addr) list \<Rightarrow> bool" where
  "links_at L ps \<longleftrightarrow> list_all (\<lambda>(a, n, p). nxt L a = n \<and> prv L a = p) ps"

definition spans_at :: "wl \<Rightarrow> (addr \<times> span_state_t \<times> u32 \<times> addr) list \<Rightarrow> bool" where
  "spans_at s ss \<longleftrightarrow> list_all (\<lambda>(a, st, fc, fb). owner (span_at s a) = 8192 \<and> state (span_at s a) = st \<and>
     cls (span_at s a) = 26 \<and> blk_size (span_at s a) = 8192 \<and> free_blk (span_at s a) = fb \<and> free_cnt (span_at s a) = fc) ss"

definition snap :: "wl \<Rightarrow> (addr \<times> addr \<times> addr) list \<Rightarrow> (addr \<times> span_state_t \<times> u32 \<times> addr) list \<Rightarrow> addr \<Rightarrow> addr \<Rightarrow> bool" where
  "snap s ls ss u fs \<longleftrightarrow> links_at (lnk s) ls \<and> spans_at s ss \<and> using_span (tcache_at s 8192) 26 = u \<and>
     free_start (pool s) = fs \<and> \<not> pool_lock (pool s) \<and> thread_state s 8192 \<and>
     pool_start (pool s) = 411400 \<and> pool_end (pool s) = 134627328"

lemma find_steps:
  "find_available h e e = Some None"
  "pos \<noteq> e \<Longrightarrow> 0 < free_cnt (span_at h (list_entry pos node)) \<Longrightarrow> find_available h e pos = Some (Some (list_entry pos node))"
  "pos \<noteq> e \<Longrightarrow> free_cnt (span_at h (list_entry pos node)) = 0 \<Longrightarrow>
    find_available h e pos = find_available h e (nxt (lnk h) pos)"
  by (simp_all add: find_available.simps [of h e])

lemma size_8192: "size2cls 8192 = Some 26" "array_get cls2size 26 = Some 8192"
  by (simp_all add: size2cls_def sizemap256_def cls2size_def array_get_def)

lemmas steps = snap_def links_at_def spans_at_def malloc_def wl_malloc_def check_init_def small_alloc_def size_8192
  replace_available_span_def acquire_span_def carve_span_def lock_pool_def unlock_pool_def span_init_def get_blk_def
  free_def wl_free_def outside_pool_def GET_HEADER_def span_free_blk_def release_blk_def
  list_del_def do_list_del_def list_add_def list_add_tail_def do_list_add_def INIT_LIST_HEAD_def list_empty_def list_entry_def
  find_steps layout Let_def demo_env_def

text \<open>A request that finds its span full, in four parts: suspend it, search, take a span, take a block.\<close>

definition full :: "wl \<Rightarrow> bool" where
  "full s \<longleftrightarrow> thread_state s 8192 \<and> using_span (tcache_at s 8192) 26 \<noteq> NULL \<and>
     free_cnt (span_at s (using_span (tcache_at s 8192) 26)) = 0"

definition suspended :: "wl \<Rightarrow> wl" where
  "suspended s = (let span = using_span (tcache_at s 8192) 26
     in upd_lnk (\<lambda>L. list_add_tail L (span + node) (tc_suspend 8192 26)) (upd_span span (\<lambda>sp. sp\<lparr>state := SUSPEND\<rparr>) s))"

definition searched :: "wl \<Rightarrow> wl outcome" where
  "searched s =
     (if \<not> list_empty (lnk s) (tc_suspend 8192 26)
      then bindE (from_option (find_available s (tc_suspend 8192 26) (nxt (lnk s) (tc_suspend 8192 26))))
             (\<lambda>r. Inr (case r of None \<Rightarrow> s | Some span \<Rightarrow> upd_lnk (\<lambda>L. list_del L (span + node)) s))
      else Inr s)"

definition taken :: "wl \<Rightarrow> wl outcome" where
  "taken s =
     bindE (if \<not> list_empty (lnk s) (tc_free_list 8192)
            then (let span = list_entry (nxt (lnk s) (tc_free_list 8192)) node;
                      s2 = upd_lnk (\<lambda>L. list_del L (span + node)) s
                  in bindE (span_init s2 span 26) (\<lambda>s3. Inr (span, s3)))
            else acquire_span demo_env s 26)
       (\<lambda>(span, s4).
     let s5 = upd_tc 8192 (\<lambda>t. t\<lparr>using_span := (using_span t)(26 := span)\<rparr>) s4;
         s6 = upd_span span (\<lambda>sp. sp\<lparr>owner := 8192\<rparr>) s5
     in Inr (upd_span span (\<lambda>sp. sp\<lparr>state := IN_USE\<rparr>) s6))"

lemma refill:
  assumes a: "shot s \<Longrightarrow> full s \<and> A (suspended s)" and b: "\<And>s. A s \<Longrightarrow> \<exists>s'. searched s = Inr s' \<and> B s'"
    and c: "\<And>s. B s \<Longrightarrow> \<exists>s'. taken s = Inr s' \<and> C s'"
    and d: "\<And>s. C s \<Longrightarrow> \<exists>s'. get_blk s (using_span (tcache_at s 8192) 26) = (p, s') \<and> D s'"
    and s: "shot s"
  shows "\<exists>s'. malloc demo_env 8192 s 8192 = Inr (p, s') \<and> D s'"
proof -
  obtain s1 where s1: "full s" "searched (suspended s) = Inr s1" "B s1" using a [OF s] b by blast
  obtain s2 where s2: "taken s1 = Inr s2" "C s2" using c [OF s1(3)] by blast
  obtain s3 where s3: "get_blk s2 (using_span (tcache_at s2 8192) 26) = (p, s3)" "D s3" using d [OF s2(2)] by blast
  have r: "replace_available_span demo_env 8192 t 26 = bindE (searched t) taken" for t
    by (simp add: replace_available_span_def searched_def taken_def [abs_def])
  have "malloc demo_env 8192 s 8192 = small_alloc demo_env 8192 s 26"
    using s1(1) by (simp add: full_def malloc_def wl_malloc_def check_init_def size_8192 DEFAULT_CLASS_NUM_def)
  also have "\<dots> = Inr (p, s3)"
    using s1(1,2) s2(1) s3(1) by (simp add: full_def small_alloc_def r suspended_def Let_def)
  finally show ?thesis using s3(2) by blast
qed

subsection \<open>The states of the run\<close>

definition shot0 :: "wl \<Rightarrow> bool" where
  [shots]: "shot0 s \<longleftrightarrow> snap s [(8880, 8880, 8880), (8928, 8928, 8928), (4592, 4592, 4592), (4160, 4160, 4160)]
     [] 0 411400"

definition shot1 :: "wl \<Rightarrow> bool" where
  [shots]: "shot1 s \<longleftrightarrow> snap s [(8880, 8880, 8880), (8928, 8928, 8928), (4592, 4592, 4592), (4160, 4160, 4160),
      (411440, 411440, 411440)]
     [(411400, IN_USE, 1, 419664)] 411400 427856"

definition shot2 :: "wl \<Rightarrow> bool" where
  [shots]: "shot2 s \<longleftrightarrow> snap s [(8880, 8880, 8880), (8928, 8928, 8928), (4592, 4592, 4592), (4160, 4160, 4160),
      (411440, 411440, 411440)]
     [(411400, IN_USE, 0, 427856)] 411400 427856"

text \<open>Step 3: the first span is full and suspended.\<close>

definition shot3a :: "wl \<Rightarrow> bool" where
  [shots]: "shot3a s \<longleftrightarrow> snap s [(8880, 411456, 411456), (8928, 8928, 8928), (4592, 4592, 4592), (4160, 4160, 4160),
      (411440, 411440, 411440), (411456, 8880, 8880)]
     [(411400, SUSPEND, 0, 427856)] 411400 427856"

definition shot3b :: "wl \<Rightarrow> bool" where
  [shots]: "shot3b s \<longleftrightarrow> snap s [(8880, 411456, 411456), (8928, 8928, 8928), (4592, 4592, 4592), (4160, 4160, 4160),
      (411440, 411440, 411440), (411456, 8880, 8880)]
     [(411400, SUSPEND, 0, 427856)] 411400 427856"

definition shot3c :: "wl \<Rightarrow> bool" where
  [shots]: "shot3c s \<longleftrightarrow> snap s [(8880, 411456, 411456), (8928, 8928, 8928), (4592, 4592, 4592), (4160, 4160, 4160),
      (411440, 411440, 411440), (411456, 8880, 8880), (427896, 427896, 427896)]
     [(411400, SUSPEND, 0, 427856), (427856, IN_USE, 2, 427928)] 427856 444312"

definition shot3 :: "wl \<Rightarrow> bool" where
  [shots]: "shot3 s \<longleftrightarrow> snap s [(8880, 411456, 411456), (8928, 8928, 8928), (4592, 4592, 4592), (4160, 4160, 4160),
      (411440, 411440, 411440), (411456, 8880, 8880), (427896, 427896, 427896)]
     [(411400, SUSPEND, 0, 427856), (427856, IN_USE, 1, 436120)] 427856 444312"

text \<open>Step 4: it has a free block again.\<close>

definition shot4 :: "wl \<Rightarrow> bool" where
  [shots]: "shot4 s \<longleftrightarrow> snap s [(8880, 411456, 411456), (8928, 8928, 8928), (4592, 4592, 4592), (4160, 4160, 4160),
      (411440, 411472, 411472), (411456, 8880, 8880), (427896, 427896, 427896), (411472, 411440, 411440)]
     [(411400, SUSPEND, 1, 427856), (427856, IN_USE, 1, 436120)] 427856 444312"

definition shot5 :: "wl \<Rightarrow> bool" where
  [shots]: "shot5 s \<longleftrightarrow> snap s [(8880, 411456, 411456), (8928, 8928, 8928), (4592, 4592, 4592), (4160, 4160, 4160),
      (411440, 411472, 411472), (411456, 8880, 8880), (427896, 427896, 427896), (411472, 411440, 411440)]
     [(411400, SUSPEND, 1, 427856), (427856, IN_USE, 0, 444312)] 427856 444312"

text \<open>Step 6: the search finds it, takes it off the list and forgets it.\<close>

definition shot6a :: "wl \<Rightarrow> bool" where
  [shots]: "shot6a s \<longleftrightarrow> snap s [(8880, 411456, 427912), (8928, 8928, 8928), (4592, 4592, 4592), (4160, 4160, 4160),
      (411440, 411472, 411472), (411456, 427912, 8880), (427896, 427896, 427896), (411472, 411440, 411440),
      (427912, 8880, 411456)]
     [(411400, SUSPEND, 1, 427856), (427856, SUSPEND, 0, 444312)] 427856 444312"

definition shot6b :: "wl \<Rightarrow> bool" where
  [shots]: "shot6b s \<longleftrightarrow> snap s [(8880, 427912, 427912), (8928, 8928, 8928), (4592, 4592, 4592), (4160, 4160, 4160),
      (411440, 411472, 411472), (411456, 427912, 8880), (427896, 427896, 427896), (411472, 411440, 411440),
      (427912, 8880, 8880)]
     [(411400, SUSPEND, 1, 427856), (427856, SUSPEND, 0, 444312)] 427856 444312"

definition shot6c :: "wl \<Rightarrow> bool" where
  [shots]: "shot6c s \<longleftrightarrow> snap s [(8880, 427912, 427912), (8928, 8928, 8928), (4592, 4592, 4592), (4160, 4160, 4160),
      (411440, 411472, 411472), (411456, 427912, 8880), (427896, 427896, 427896), (411472, 411440, 411440),
      (427912, 8880, 8880), (444352, 444352, 444352)]
     [(411400, SUSPEND, 1, 427856), (427856, SUSPEND, 0, 444312), (444312, IN_USE, 2, 444384)] 444312 460768"

definition shot6 :: "wl \<Rightarrow> bool" where
  [shots]: "shot6 s \<longleftrightarrow> snap s [(8880, 427912, 427912), (8928, 8928, 8928), (4592, 4592, 4592), (4160, 4160, 4160),
      (411440, 411472, 411472), (411456, 427912, 8880), (427896, 427896, 427896), (411472, 411440, 411440),
      (427912, 8880, 8880), (444352, 444352, 444352)]
     [(411400, SUSPEND, 1, 427856), (427856, SUSPEND, 0, 444312), (444312, IN_USE, 1, 452576)] 444312 460768"

definition shot7 :: "wl \<Rightarrow> bool" where
  [shots]: "shot7 s \<longleftrightarrow> snap s [(8880, 427912, 427912), (8928, 8928, 8928), (4592, 4592, 4592), (4160, 4160, 4160),
      (411440, 411472, 411472), (411456, 427912, 8880), (427896, 436120, 436120), (411472, 411440, 411440),
      (427912, 8880, 8880), (444352, 444352, 444352), (436120, 427896, 427896)]
     [(411400, SUSPEND, 1, 427856), (427856, SUSPEND, 1, 444312), (444312, IN_USE, 1, 452576)] 444312 460768"

text \<open>Step 8: the second span is free and moves to the free list.\<close>

definition shot8 :: "wl \<Rightarrow> bool" where
  [shots]: "shot8 s \<longleftrightarrow> snap s [(8880, 8880, 8880), (8928, 427912, 427912), (4592, 4592, 4592), (4160, 4160, 4160),
      (411440, 411472, 411472), (411456, 427912, 8880), (427896, 427928, 427928), (411472, 411440, 411440),
      (427912, 8928, 8928), (444352, 444352, 444352), (436120, 427896, 427896), (427928, 427896, 427896)]
     [(411400, SUSPEND, 1, 427856), (427856, FREE, 2, 444312), (444312, IN_USE, 1, 452576)] 444312 460768"

text \<open>Step 9: so does the forgotten span; it is unlinked a second time, through its old links, and the suspend list leads to the second span again.\<close>

definition shot9 :: "wl \<Rightarrow> bool" where
  [shots]: "shot9 s \<longleftrightarrow> snap s [(8880, 427912, 8880), (8928, 427912, 411456), (4592, 4592, 4592), (4160, 4160, 4160),
      (411440, 419664, 419664), (411456, 8928, 427912), (427896, 427928, 427928), (411472, 411440, 411440),
      (427912, 411456, 8880), (444352, 444352, 444352), (436120, 427896, 427896), (427928, 427896, 427896),
      (419664, 411440, 411440)]
     [(411400, FREE, 2, 427856), (427856, FREE, 2, 444312), (444312, IN_USE, 1, 452576)] 444312 460768"

definition shot10 :: "wl \<Rightarrow> bool" where
  [shots]: "shot10 s \<longleftrightarrow> snap s [(8880, 427912, 8880), (8928, 427912, 411456), (4592, 4592, 4592), (4160, 4160, 4160),
      (411440, 419664, 419664), (411456, 8928, 427912), (427896, 427928, 427928), (411472, 411440, 411440),
      (427912, 411456, 8880), (444352, 444352, 444352), (436120, 427896, 427896), (427928, 427896, 427896),
      (419664, 411440, 411440)]
     [(411400, FREE, 2, 427856), (427856, FREE, 2, 444312), (444312, IN_USE, 0, 460768)] 444312 460768"

text \<open>Step 11: the second span is taken from the free list, but remains its first element.\<close>

definition shot11a :: "wl \<Rightarrow> bool" where
  [shots]: "shot11a s \<longleftrightarrow> snap s [(8880, 444368, 444368), (8928, 427912, 411456), (4592, 4592, 4592), (4160, 4160, 4160),
      (411440, 419664, 419664), (411456, 8928, 427912), (427896, 427928, 427928), (411472, 411440, 411440),
      (427912, 411456, 8880), (444352, 444352, 444352), (436120, 427896, 427896), (427928, 427896, 427896),
      (419664, 411440, 411440), (444368, 8880, 8880)]
     [(411400, FREE, 2, 427856), (427856, FREE, 2, 444312), (444312, SUSPEND, 0, 460768)] 444312 460768"

definition shot11b :: "wl \<Rightarrow> bool" where
  [shots]: "shot11b s \<longleftrightarrow> snap s [(8880, 444368, 444368), (8928, 427912, 411456), (4592, 4592, 4592), (4160, 4160, 4160),
      (411440, 419664, 419664), (411456, 8928, 427912), (427896, 427928, 427928), (411472, 411440, 411440),
      (427912, 411456, 8880), (444352, 444352, 444352), (436120, 427896, 427896), (427928, 427896, 427896),
      (419664, 411440, 411440), (444368, 8880, 8880)]
     [(411400, FREE, 2, 427856), (427856, FREE, 2, 444312), (444312, SUSPEND, 0, 460768)] 444312 460768"

definition shot11c :: "wl \<Rightarrow> bool" where
  [shots]: "shot11c s \<longleftrightarrow> snap s [(8880, 411456, 444368), (8928, 427912, 411456), (4592, 4592, 4592), (4160, 4160, 4160),
      (411440, 419664, 419664), (411456, 8928, 8880), (427896, 427896, 427896), (411472, 411440, 411440),
      (427912, 411456, 8880), (444352, 444352, 444352), (436120, 427896, 427896), (427928, 427896, 427896),
      (419664, 411440, 411440), (444368, 8880, 8880)]
     [(411400, FREE, 2, 427856), (427856, IN_USE, 2, 427928), (444312, SUSPEND, 0, 460768)] 427856 460768"

definition shot11 :: "wl \<Rightarrow> bool" where
  [shots]: "shot11 s \<longleftrightarrow> snap s [(8880, 411456, 444368), (8928, 427912, 411456), (4592, 4592, 4592), (4160, 4160, 4160),
      (411440, 419664, 419664), (411456, 8928, 8880), (427896, 427896, 427896), (411472, 411440, 411440),
      (427912, 411456, 8880), (444352, 444352, 444352), (436120, 427896, 427896), (427928, 427896, 427896),
      (419664, 411440, 411440), (444368, 8880, 8880)]
     [(411400, FREE, 2, 427856), (427856, IN_USE, 1, 436120), (444312, SUSPEND, 0, 460768)] 427856 460768"

definition shot12 :: "wl \<Rightarrow> bool" where
  [shots]: "shot12 s \<longleftrightarrow> snap s [(8880, 411456, 444368), (8928, 427912, 411456), (4592, 4592, 4592), (4160, 4160, 4160),
      (411440, 419664, 419664), (411456, 8928, 8880), (427896, 427896, 427896), (411472, 411440, 411440),
      (427912, 411456, 8880), (444352, 444352, 444352), (436120, 427896, 427896), (427928, 427896, 427896),
      (419664, 411440, 411440), (444368, 8880, 8880)]
     [(411400, FREE, 2, 427856), (427856, IN_USE, 0, 444312), (444312, SUSPEND, 0, 460768)] 427856 460768"

text \<open>Step 13: it is taken from the free list once more, and cut anew.\<close>

definition shot13a :: "wl \<Rightarrow> bool" where
  [shots]: "shot13a s \<longleftrightarrow> snap s [(8880, 411456, 427912), (8928, 427912, 411456), (4592, 4592, 4592), (4160, 4160, 4160),
      (411440, 419664, 419664), (411456, 8928, 8880), (427896, 427896, 427896), (411472, 411440, 411440),
      (427912, 8880, 444368), (444352, 444352, 444352), (436120, 427896, 427896), (427928, 427896, 427896),
      (419664, 411440, 411440), (444368, 427912, 8880)]
     [(411400, FREE, 2, 427856), (427856, SUSPEND, 0, 444312), (444312, SUSPEND, 0, 460768)] 427856 460768"

definition shot13b :: "wl \<Rightarrow> bool" where
  [shots]: "shot13b s \<longleftrightarrow> snap s [(8880, 8928, 427912), (8928, 427912, 8880), (4592, 4592, 4592), (4160, 4160, 4160),
      (411440, 419664, 419664), (411456, 8928, 8880), (427896, 427896, 427896), (411472, 411440, 411440),
      (427912, 8880, 444368), (444352, 444352, 444352), (436120, 427896, 427896), (427928, 427896, 427896),
      (419664, 411440, 411440), (444368, 427912, 8880)]
     [(411400, FREE, 2, 427856), (427856, SUSPEND, 0, 444312), (444312, SUSPEND, 0, 460768)] 427856 460768"

definition shot13c :: "wl \<Rightarrow> bool" where
  [shots]: "shot13c s \<longleftrightarrow> snap s [(8880, 8928, 444368), (8928, 427912, 8880), (4592, 4592, 4592), (4160, 4160, 4160),
      (411440, 419664, 419664), (411456, 8928, 8880), (427896, 427896, 427896), (411472, 411440, 411440),
      (427912, 8880, 444368), (444352, 444352, 444352), (436120, 427896, 427896), (427928, 427896, 427896),
      (419664, 411440, 411440), (444368, 8880, 8880)]
     [(411400, FREE, 2, 427856), (427856, IN_USE, 2, 427928), (444312, SUSPEND, 0, 460768)] 427856 460768"

definition shot13 :: "wl \<Rightarrow> bool" where
  [shots]: "shot13 s \<longleftrightarrow> snap s [(8880, 8928, 444368), (8928, 427912, 8880), (4592, 4592, 4592), (4160, 4160, 4160),
      (411440, 419664, 419664), (411456, 8928, 8880), (427896, 427896, 427896), (411472, 411440, 411440),
      (427912, 8880, 444368), (444352, 444352, 444352), (436120, 427896, 427896), (427928, 427896, 427896),
      (419664, 411440, 411440), (444368, 8880, 8880)]
     [(411400, FREE, 2, 427856), (427856, IN_USE, 1, 436120), (444312, SUSPEND, 0, 460768)] 427856 460768"

subsection \<open>The steps\<close>

lemma step1: "shot0 s \<Longrightarrow> \<exists>s'. malloc demo_env 8192 s 8192 = Inr (411472, s') \<and> shot1 s'"
  by (simp add: shots steps)

lemma step2: "shot1 s \<Longrightarrow> \<exists>s'. malloc demo_env 8192 s 8192 = Inr (419664, s') \<and> shot2 s'"
  by (simp add: shots steps)

lemma step3a: "shot2 s \<Longrightarrow> full s \<and> shot3a (suspended s)"
  by (simp add: shots steps full_def suspended_def)

lemma step3b: "shot3a s \<Longrightarrow> \<exists>s'. searched s = Inr s' \<and> shot3b s'"
  by (simp add: shots steps searched_def)

lemma step3c: "shot3b s \<Longrightarrow> \<exists>s'. taken s = Inr s' \<and> shot3c s'"
  by (simp add: shots steps taken_def)

lemma step3d: "shot3c s \<Longrightarrow> \<exists>s'. get_blk s (using_span (tcache_at s 8192) 26) = (427928, s') \<and> shot3 s'"
  by (simp add: shots steps)

lemma step3: "shot2 s \<Longrightarrow> \<exists>s'. malloc demo_env 8192 s 8192 = Inr (427928, s') \<and> shot3 s'"
  by (rule refill [where shot = shot2 and A = shot3a and B = shot3b and C = shot3c],
      erule step3a, erule step3b, erule step3c, erule step3d)

lemma step4: "shot3 s \<Longrightarrow> \<exists>s'. free demo_env 8192 s 411472 = Inr s' \<and> shot4 s'"
  by (simp add: shots steps)

lemma step5: "shot4 s \<Longrightarrow> \<exists>s'. malloc demo_env 8192 s 8192 = Inr (436120, s') \<and> shot5 s'"
  by (simp add: shots steps)

lemma step6a: "shot5 s \<Longrightarrow> full s \<and> shot6a (suspended s)"
  by (simp add: shots steps full_def suspended_def)

lemma step6b: "shot6a s \<Longrightarrow> \<exists>s'. searched s = Inr s' \<and> shot6b s'"
  by (simp add: shots steps searched_def)

lemma step6c: "shot6b s \<Longrightarrow> \<exists>s'. taken s = Inr s' \<and> shot6c s'"
  by (simp add: shots steps taken_def)

lemma step6d: "shot6c s \<Longrightarrow> \<exists>s'. get_blk s (using_span (tcache_at s 8192) 26) = (444384, s') \<and> shot6 s'"
  by (simp add: shots steps)

lemma step6: "shot5 s \<Longrightarrow> \<exists>s'. malloc demo_env 8192 s 8192 = Inr (444384, s') \<and> shot6 s'"
  by (rule refill [where shot = shot5 and A = shot6a and B = shot6b and C = shot6c],
      erule step6a, erule step6b, erule step6c, erule step6d)

lemma step7: "shot6 s \<Longrightarrow> \<exists>s'. free demo_env 8192 s 436120 = Inr s' \<and> shot7 s'"
  by (simp add: shots steps)

lemma step8: "shot7 s \<Longrightarrow> \<exists>s'. free demo_env 8192 s 427928 = Inr s' \<and> shot8 s'"
  by (simp add: shots steps)

lemma step9: "shot8 s \<Longrightarrow> \<exists>s'. free demo_env 8192 s 419664 = Inr s' \<and> shot9 s'"
  by (simp add: shots steps)

lemma step10: "shot9 s \<Longrightarrow> \<exists>s'. malloc demo_env 8192 s 8192 = Inr (452576, s') \<and> shot10 s'"
  by (simp add: shots steps)

lemma step11a: "shot10 s \<Longrightarrow> full s \<and> shot11a (suspended s)"
  by (simp add: shots steps full_def suspended_def)

lemma step11b: "shot11a s \<Longrightarrow> \<exists>s'. searched s = Inr s' \<and> shot11b s'"
  by (simp add: shots steps searched_def)

lemma step11c: "shot11b s \<Longrightarrow> \<exists>s'. taken s = Inr s' \<and> shot11c s'"
  by (simp add: shots steps taken_def)

lemma step11d: "shot11c s \<Longrightarrow> \<exists>s'. get_blk s (using_span (tcache_at s 8192) 26) = (427928, s') \<and> shot11 s'"
  by (simp add: shots steps)

lemma step11: "shot10 s \<Longrightarrow> \<exists>s'. malloc demo_env 8192 s 8192 = Inr (427928, s') \<and> shot11 s'"
  by (rule refill [where shot = shot10 and A = shot11a and B = shot11b and C = shot11c],
      erule step11a, erule step11b, erule step11c, erule step11d)

lemma step12: "shot11 s \<Longrightarrow> \<exists>s'. malloc demo_env 8192 s 8192 = Inr (436120, s') \<and> shot12 s'"
  by (simp add: shots steps)

lemma step13a: "shot12 s \<Longrightarrow> full s \<and> shot13a (suspended s)"
  by (simp add: shots steps full_def suspended_def)

lemma step13b: "shot13a s \<Longrightarrow> \<exists>s'. searched s = Inr s' \<and> shot13b s'"
  by (simp add: shots steps searched_def)

lemma step13c: "shot13b s \<Longrightarrow> \<exists>s'. taken s = Inr s' \<and> shot13c s'"
  by (simp add: shots steps taken_def)

lemma step13d: "shot13c s \<Longrightarrow> \<exists>s'. get_blk s (using_span (tcache_at s 8192) 26) = (427928, s') \<and> shot13 s'"
  by (simp add: shots steps)

lemma step13: "shot12 s \<Longrightarrow> \<exists>s'. malloc demo_env 8192 s 8192 = Inr (427928, s') \<and> shot13 s'"
  by (rule refill [where shot = shot12 and A = shot13a and B = shot13b and C = shot13c],
      erule step13a, erule step13b, erule step13c, erule step13d)


subsection \<open>The run\<close>

lemma fold_INIT_at:
  "nxt (fold (\<lambda>i L. INIT_LIST_HEAD L (f i)) xs L) a = (if a \<in> f ` set xs then a else nxt L a)"
  "prv (fold (\<lambda>i L. INIT_LIST_HEAD L (f i)) xs L) a = (if a \<in> f ` set xs then a else prv L a)"
  by (induction xs arbitrary: L) (auto simp: INIT_LIST_HEAD_def)

lemma first_shot: "\<exists>t. check_init demo_env 8192 start_state = Inr t \<and> shot0 t"
proof -
  have st: "\<not> thread_state start_state 8192" "\<not> init_once start_state" "os_calls start_state = []"
    by (simp_all add: start_state_def)
  have raw: "mmap demo_env 0 (of_nat ALLOC_UNIT) = 409600" by (simp add: demo_env_def)
  obtain g where g: "global_init demo_env (start_state\<lparr>init_once := True\<rparr>) = Inr g"
    "lnk g = fold (\<lambda>i L. INIT_LIST_HEAD L (pool_suspend demo_env i)) [0..<29]
      (INIT_LIST_HEAD (lnk start_state) (pool_free_list demo_env))"
    "\<not> pool_lock (pool g)" "pool_start (pool g) = unat (ROUNDUP (of_nat 409600) (of_nat SPAN_SIZE))"
    "free_start (pool g) = pool_start (pool g)" "pool_end (pool g) = 409600 + ALLOC_UNIT"
    using global_init_eq [of demo_env "start_state\<lparr>init_once := True\<rparr>"] st(3) raw by (auto simp: MAP_FAILED_def)
  let ?t = "thread_cache_init 8192 g"
  note tf = thread_cache_init_fields
  have e: "check_init demo_env 8192 start_state = Inr ?t" using st g(1) by (simp add: check_init_def)
  have start: "pool_start (pool g) = 411400" unfolding g(4) by (subst ROUNDUP_start(1)) (simp_all add: layout)
  have "4592 = pool_suspend demo_env 26" "8880 = tc_suspend 8192 26" by (simp_all add: layout demo_env_def)
  then have h: "4592 \<in> pool_suspend demo_env ` set [0..<29]" "8880 \<in> tc_suspend 8192 ` set [0..<29]"
    by (simp_all del: upt_rec_numeral)
  have n: "4160 \<notin> tc_suspend 8192 ` X" "4592 \<notin> tc_suspend 8192 ` X" "4160 \<notin> pool_suspend demo_env ` X" for X
    by (auto simp: layout demo_env_def)
  have c: "tc_free_list 8192 = 8928" "pool_free_list demo_env = 4160" by (simp_all add: layout demo_env_def)
  have "links_at (lnk ?t) [(8880, 8880, 8880), (8928, 8928, 8928), (4592, 4592, 4592), (4160, 4160, 4160)]"
    unfolding tf(1) g(2) c using h n
    by (simp add: links_at_def INIT_LIST_HEAD_def [of _ 8928] INIT_LIST_HEAD_def [of _ 4160] fold_INIT_at del: upt_rec_numeral)
  moreover have "using_span (tcache_at ?t 8192) 26 = 0" by (rule tf(6)) simp
  ultimately have "shot0 ?t"
    using g(3,5,6) start tf(3) [of 8192 g] by (simp add: shots snap_def spans_at_def tf(2) layout)
  with e show ?thesis by blast
qed

text \<open>Thirteen requests for 8192 bytes and of blocks to give back.\<close>

definition twice_run :: "request list" where
  "twice_run = [Malloc 8192, Malloc 8192, Malloc 8192, Free 411472, Malloc 8192, Malloc 8192, Free 436120, Free 427928,
     Free 419664, Malloc 8192, Malloc 8192, Malloc 8192, Malloc 8192]"

text \<open>The blocks a program has in hand; \<open>None\<close> when it gives back one that it does not have.\<close>

fun in_hand :: "request list \<Rightarrow> addr list \<Rightarrow> addr list \<Rightarrow> addr list option" where
  "in_hand (Malloc sz # rs) (a # as) H = in_hand rs as (a # H)"
| "in_hand (Free p # rs) (a # as) H = (if p \<in> set H then in_hand rs as (remove1 p H) else None)"
| "in_hand rs as H = Some H"

text \<open>
  C9: A program of one thread that only asks for blocks of 8192 bytes and gives back blocks that it has is handed out, in
  its thirteenth request, a block that it already holds. A suspended span that the search finds is taken off its list
  and forgotten; when its last block comes back it is taken off a second time, through links that are out of
  date, and from then on a span in use is on the free list.
\<close>

theorem block_handed_out_twice:
  "\<exists>as s H. env_ok demo_env 8192 \<and> serve demo_env 8192 start_state twice_run = Inr (as, s) \<and>
     in_hand twice_run as [] = Some H \<and> \<not> distinct H"
proof -
  obtain t where t: "check_init demo_env 8192 start_state = Inr t" "shot0 t" using first_shot by blast
  obtain s1 where s1: "malloc demo_env 8192 t 8192 = Inr (411472, s1)" "shot1 s1" using step1 [OF t(2)] by blast
  obtain s2 where s2: "malloc demo_env 8192 s1 8192 = Inr (419664, s2)" "shot2 s2" using step2 [OF s1(2)] by blast
  obtain s3 where s3: "malloc demo_env 8192 s2 8192 = Inr (427928, s3)" "shot3 s3" using step3 [OF s2(2)] by blast
  obtain s4 where s4: "free demo_env 8192 s3 411472 = Inr s4" "shot4 s4" using step4 [OF s3(2)] by blast
  obtain s5 where s5: "malloc demo_env 8192 s4 8192 = Inr (436120, s5)" "shot5 s5" using step5 [OF s4(2)] by blast
  obtain s6 where s6: "malloc demo_env 8192 s5 8192 = Inr (444384, s6)" "shot6 s6" using step6 [OF s5(2)] by blast
  obtain s7 where s7: "free demo_env 8192 s6 436120 = Inr s7" "shot7 s7" using step7 [OF s6(2)] by blast
  obtain s8 where s8: "free demo_env 8192 s7 427928 = Inr s8" "shot8 s8" using step8 [OF s7(2)] by blast
  obtain s9 where s9: "free demo_env 8192 s8 419664 = Inr s9" "shot9 s9" using step9 [OF s8(2)] by blast
  obtain s10 where s10: "malloc demo_env 8192 s9 8192 = Inr (452576, s10)" "shot10 s10" using step10 [OF s9(2)] by blast
  obtain s11 where s11: "malloc demo_env 8192 s10 8192 = Inr (427928, s11)" "shot11 s11" using step11 [OF s10(2)] by blast
  obtain s12 where s12: "malloc demo_env 8192 s11 8192 = Inr (436120, s12)" "shot12 s12" using step12 [OF s11(2)] by blast
  obtain s13 where s13: "malloc demo_env 8192 s12 8192 = Inr (427928, s13)" using step13 [OF s12(2)] by blast
  have "serve demo_env 8192 start_state twice_run = Inr ([411472, 419664, 427928, NULL, 436120, 444384, NULL, NULL, NULL,
      452576, 427928, 436120, 427928], s13)"
    by (simp add: twice_run_def malloc_after_init [OF t(1)] s1(1) s2(1) s3(1) s4(1) s5(1) s6(1) s7(1) s8(1) s9(1) s10(1)
      s11(1) s12(1) s13)
  then show ?thesis
    using demo_env_ok by (simp add: twice_run_def)
qed

end
