(* ===== verification/Thread_Exit.thy ===== *)
theory Thread_Exit
  imports Alloc_Bugs
begin

text \<open>
  What a thread leaves behind: \<open>thread_exit\<close> (the destructor of the thread's key) moves the spans in use and the
  suspended spans of the thread to the pool, class by class, and its free spans to the pool's free list.
  The hand-over is shown for lists of any contents, so also for a second thread that exits. What then happens to the
  blocks that are still held is over the runs \<open>reach\<close> of one thread; such a block lies in a span of the pool, which is
  where the error of \<open>span_free_blk\<close> strikes.
\<close>

definition spans_in_use :: "addr \<Rightarrow> wl \<Rightarrow> nat \<Rightarrow> addr list" where
  "spans_in_use tc s c = (let sp = using_span (tcache_at s tc) c in if sp = NULL then [] else [sp])"

definition pool_owned :: "addr set \<Rightarrow> wl \<Rightarrow> addr \<Rightarrow> span_t" where
  "pool_owned X s sp = (if sp \<in> X then (span_at s sp)\<lparr>owner := POOL_OWNER\<rparr> else span_at s sp)"

lemma spans_in_use_lnk [simp]: "spans_in_use tc (s\<lparr>lnk := L\<rparr>) c = spans_in_use tc s c"
  by (simp add: spans_in_use_def)

subsection \<open>The first loop\<close>

lemma suspend_using_step:
  assumes "rings L R" "R (tc_suspend tc n) = Some xs" "\<And>u. u \<in> set (spans_in_use tc s n) \<Longrightarrow> nd u \<notin> ring_nodes R"
  shows "\<exists>L'. suspend_using tc n (s\<lparr>lnk := L\<rparr>) = s\<lparr>lnk := L'\<rparr> \<and>
    rings L' (R(tc_suspend tc n \<mapsto> xs @ map nd (spans_in_use tc s n)))"
proof (cases "using_span (tcache_at s tc) n = NULL")
  case True
  then have "R(tc_suspend tc n \<mapsto> xs @ map nd (spans_in_use tc s n)) = R"
    using assms(2) by (auto simp: spans_in_use_def)
  with True assms(1) show ?thesis by (auto simp: suspend_using_def intro!: exI [of _ L])
next
  case False
  then have "spans_in_use tc s n = [using_span (tcache_at s tc) n]" by (simp add: spans_in_use_def)
  with False rings_add_tail [OF assms(1,2) assms(3)] show ?thesis
    by (auto simp: suspend_using_def Let_def upd_lnk_def intro!: exI [of _ "list_add_tail L (using_span (tcache_at s tc) n + node) (tc_suspend tc n)"])
qed

lemma suspend_all_ok:
  assumes "rings (lnk s) R" "\<forall>c<n. R (tc_suspend tc c) = Some (xs c)"
    and "\<forall>c<n. \<forall>u\<in>set (spans_in_use tc s c). nd u \<notin> ring_nodes R"
    and "\<forall>c<n. \<forall>d<n. c \<noteq> d \<longrightarrow> set (spans_in_use tc s c) \<inter> set (spans_in_use tc s d) = {}"
  shows "\<exists>L R'. fold (suspend_using tc) [0..<n] s = s\<lparr>lnk := L\<rparr> \<and> rings L R' \<and>
    (\<forall>c<n. R' (tc_suspend tc c) = Some (xs c @ map nd (spans_in_use tc s c))) \<and>
    (\<forall>h. (\<forall>c<n. h \<noteq> tc_suspend tc c) \<longrightarrow> R' h = R h) \<and>
    ring_nodes R' \<subseteq> ring_nodes R \<union> (\<Union>c<n. nd ` set (spans_in_use tc s c))"
  using assms
proof (induction n)
  case 0
  then show ?case by (intro exI [of _ "lnk s"] exI [of _ R]) simp
next
  case (Suc n)
  have "\<exists>L R'. fold (suspend_using tc) [0..<n] s = s\<lparr>lnk := L\<rparr> \<and> rings L R' \<and>
    (\<forall>c<n. R' (tc_suspend tc c) = Some (xs c @ map nd (spans_in_use tc s c))) \<and>
    (\<forall>h. (\<forall>c<n. h \<noteq> tc_suspend tc c) \<longrightarrow> R' h = R h) \<and>
    ring_nodes R' \<subseteq> ring_nodes R \<union> (\<Union>c<n. nd ` set (spans_in_use tc s c))"
    by (rule Suc.IH [OF Suc.prems(1)]) (use Suc.prems(2-4) less_SucI in blast)+
  then obtain L R' where L: "fold (suspend_using tc) [0..<n] s = s\<lparr>lnk := L\<rparr>" "rings L R'"
    "\<And>c. c < n \<Longrightarrow> R' (tc_suspend tc c) = Some (xs c @ map nd (spans_in_use tc s c))"
    "\<And>h. (\<And>c. c < n \<Longrightarrow> h \<noteq> tc_suspend tc c) \<Longrightarrow> R' h = R h"
    "ring_nodes R' \<subseteq> ring_nodes R \<union> (\<Union>c<n. nd ` set (spans_in_use tc s c))" by blast
  have ne: "c < n \<Longrightarrow> tc_suspend tc n \<noteq> tc_suspend tc c" for c by (simp add: layout)
  have h: "R' (tc_suspend tc n) = Some (xs n)" using L(4) [of "tc_suspend tc n"] ne Suc.prems(2) by simp
  have f: "nd u \<notin> ring_nodes R'" if u: "u \<in> set (spans_in_use tc s n)" for u
  proof
    assume "nd u \<in> ring_nodes R'"
    moreover have "nd u \<notin> ring_nodes R" using Suc.prems(3) u by blast
    ultimately obtain c x where x: "c < n" "x \<in> set (spans_in_use tc s c)" "nd u = nd x" using L(5) by blast
    have "set (spans_in_use tc s c) \<inter> set (spans_in_use tc s n) = {}" using Suc.prems(4) x(1) by simp
    then show False using x(2,3) u by auto
  qed
  from suspend_using_step [OF L(2) h f] obtain L' where
    L': "suspend_using tc n (s\<lparr>lnk := L\<rparr>) = s\<lparr>lnk := L'\<rparr>"
      "rings L' (R'(tc_suspend tc n \<mapsto> xs n @ map nd (spans_in_use tc s n)))" by blast
  let ?R = "R'(tc_suspend tc n \<mapsto> xs n @ map nd (spans_in_use tc s n))"
  let ?S = "\<lambda>c. nd ` set (spans_in_use tc s c)"
  have "set (tc_suspend tc n # xs n) \<subseteq> ring_nodes R'"
    by (rule subsetI, rule ring_nodesI [where h = "tc_suspend tc n" and xs = "xs n"]) (simp_all add: h)
  then have "set (tc_suspend tc n # xs n @ map nd (spans_in_use tc s n)) \<subseteq> ring_nodes R' \<union> ?S n" by auto
  with ring_nodes_upd [of R' "tc_suspend tc n" "xs n @ map nd (spans_in_use tc s n)"] L(5)
  have sub: "ring_nodes ?R \<subseteq> (ring_nodes R \<union> (\<Union>c<n. ?S c)) \<union> ?S n" by blast
  have u: "ring_nodes R \<union> (\<Union>c<Suc n. ?S c) = (ring_nodes R \<union> (\<Union>c<n. ?S c)) \<union> ?S n"
    by (simp add: lessThan_Suc Un_ac)
  have r: "ring_nodes ?R \<subseteq> ring_nodes R \<union> (\<Union>c<Suc n. ?S c)" unfolding u by (rule sub)
  have "fold (suspend_using tc) [0..<Suc n] s = s\<lparr>lnk := L'\<rparr>" using L(1) L'(1) by simp
  moreover have "?R (tc_suspend tc c) = Some (xs c @ map nd (spans_in_use tc s c))" if "c < Suc n" for c
    using that L(3) [of c] not_sym [OF ne [of c]] by (cases "c = n") simp_all
  moreover have "?R h = R h" if "\<forall>c<Suc n. h \<noteq> tc_suspend tc c" for h
    using that L(4) [of h] by simp
  ultimately show ?case using L'(2) r by blast
qed

subsection \<open>The second loop\<close>

lemma disown_all: "fold disown (map nd xs) s = s\<lparr>span_at := pool_owned (set xs) s\<rparr>"
proof (induction xs arbitrary: s)
  case (Cons x xs)
  have "pool_owned (set xs) (disown (nd x) s) = pool_owned (set (x # xs)) s"
    by (auto simp: pool_owned_def disown_def upd_span_def fun_eq_iff)
  with Cons show ?case by (simp add: disown_def upd_span_def)
qed (simp add: pool_owned_def [abs_def])

lemma give_suspended_ok:
  assumes "rings (lnk s) R" "R (tc_suspend tc c) = Some (map nd xs)" "R (pool_suspend E c) = Some ps" "tc_suspend tc c \<noteq> pool_suspend E c"
  shows "\<exists>L. give_suspended E tc c s = Inr (s\<lparr>lnk := L, span_at := pool_owned (set xs) s\<rparr>) \<and>
    rings L (R(tc_suspend tc c := None, pool_suspend E c \<mapsto> ps @ map nd xs))"
proof -
  let ?L = "list_splice_tail (lnk s) (tc_suspend tc c) (pool_suspend E c)"
  have d: "dll (lnk s) (tc_suspend tc c) (map nd xs)" by (rule rings_dll [OF assms(1,2)])
  have "give_suspended E tc c s = Inr (s\<lparr>lnk := ?L, span_at := pool_owned (set xs) s\<rparr>)"
    by (simp add: give_suspended_def list_for_each_dll [OF d] disown_all upd_lnk_def list_splice_tail_def)
  with rings_splice_tail [OF assms(1,2,3,4)] show ?thesis by blast
qed

lemma pool_owned_pool_owned:
  "pool_owned Y (s\<lparr>lnk := L, span_at := pool_owned X s\<rparr>) = pool_owned (X \<union> Y) s"
  by (auto simp: pool_owned_def fun_eq_iff)

lemma give_all_ok:
  assumes "rings (lnk s) R" "\<forall>c\<in>set cs. R (tc_suspend tc c) = Some (map nd (xs c))"
    and "\<forall>c\<in>set cs. R (pool_suspend E c) = Some (ps c)" "distinct cs"
    and "\<forall>c\<in>set cs. \<forall>d\<in>set cs. tc_suspend tc c \<noteq> pool_suspend E d"
  shows "\<exists>L R'. give_all_suspended E tc cs s = Inr (s\<lparr>lnk := L, span_at := pool_owned (\<Union>c\<in>set cs. set (xs c)) s\<rparr>) \<and> rings L R' \<and>
    (\<forall>c\<in>set cs. R' (pool_suspend E c) = Some (ps c @ map nd (xs c))) \<and>
    (\<forall>h. (\<forall>c\<in>set cs. h \<noteq> tc_suspend tc c \<and> h \<noteq> pool_suspend E c) \<longrightarrow> R' h = R h)"
  using assms
proof (induction cs arbitrary: s R)
  case Nil
  then show ?case by (intro exI [of _ "lnk s"] exI [of _ R]) (simp add: pool_owned_def [abs_def])
next
  case (Cons c cs)
  from give_suspended_ok [OF Cons.prems(1), of tc c "xs c" E "ps c"] Cons.prems(2,3,5) obtain L1 where
    L1: "give_suspended E tc c s = Inr (s\<lparr>lnk := L1, span_at := pool_owned (set (xs c)) s\<rparr>)"
      "rings L1 (R(tc_suspend tc c := None, pool_suspend E c \<mapsto> ps c @ map nd (xs c)))" by auto
  let ?s1 = "s\<lparr>lnk := L1, span_at := pool_owned (set (xs c)) s\<rparr>"
  let ?R1 = "R(tc_suspend tc c := None, pool_suspend E c \<mapsto> ps c @ map nd (xs c))"
  have ne: "tc_suspend tc d \<noteq> tc_suspend tc c" "pool_suspend E d \<noteq> pool_suspend E c" if "d \<in> set cs" for d
    using that Cons.prems(4) by (auto simp: layout)
  have ne2: "tc_suspend tc d \<noteq> pool_suspend E e" if "d \<in> set (c # cs)" "e \<in> set (c # cs)" for d e
    using that Cons.prems(5) by blast
  have r1: "rings (lnk ?s1) ?R1" using L1(2) by simp
  have t1: "\<forall>d\<in>set cs. ?R1 (tc_suspend tc d) = Some (map nd (xs d))"
    using ne ne2 [of _ c] Cons.prems(2) by simp
  have p1: "\<forall>d\<in>set cs. ?R1 (pool_suspend E d) = Some (ps d)"
    using ne(2) not_sym [OF ne2 [of c]] Cons.prems(3) by simp
  have d1: "distinct cs" using Cons.prems(4) by simp
  have n1: "\<forall>d\<in>set cs. \<forall>e\<in>set cs. tc_suspend tc d \<noteq> pool_suspend E e" using ne2 by simp
  from Cons.IH [OF r1 t1 p1 d1 n1] obtain L R' where
    L: "give_all_suspended E tc cs ?s1 = Inr (?s1\<lparr>lnk := L, span_at := pool_owned (\<Union>c\<in>set cs. set (xs c)) ?s1\<rparr>)" "rings L R'"
      "\<And>d. d \<in> set cs \<Longrightarrow> R' (pool_suspend E d) = Some (ps d @ map nd (xs d))"
      "\<And>h. (\<And>d. d \<in> set cs \<Longrightarrow> h \<noteq> tc_suspend tc d \<and> h \<noteq> pool_suspend E d) \<Longrightarrow> R' h = ?R1 h" by blast
  have "R' (pool_suspend E c) = ?R1 (pool_suspend E c)" using ne(2) ne2 by (intro L(4)) fastforce
  then have "R' (pool_suspend E d) = Some (ps d @ map nd (xs d))" if "d \<in> set (c # cs)" for d
    using that L(3) by auto
  moreover have "R' h = R h" if "\<forall>d\<in>set (c # cs). h \<noteq> tc_suspend tc d \<and> h \<noteq> pool_suspend E d" for h
    using L(4) [of h] that by auto
  moreover have "give_all_suspended E tc (c # cs) s =
      Inr (s\<lparr>lnk := L, span_at := pool_owned (\<Union>c\<in>set (c # cs). set (xs c)) s\<rparr>)"
    using L(1) by (simp add: L1(1) pool_owned_pool_owned)
  ultimately show ?case using L(2) by blast
qed

subsection \<open>The whole exit\<close>

lemma in_use_role:
  assumes "alloc_wf E tc s V R" "c < 29"
  shows "u \<in> set (spans_in_use tc s c) \<longleftrightarrow> role V u = Some (Using c)"
  using assms by (auto simp: alloc_wf_def using_match_def spans_in_use_def Let_def)

lemma taken_spans:
  assumes w: "alloc_wf E tc s V R"
  shows "(\<Union>c\<in>set [0..<29]. set (susp V c @ spans_in_use tc s c)) = {sp. active V sp}"
proof -
  have c: "core E tc s V R" using w by (simp add: alloc_wf_def)
  have "(\<exists>k<29. sp \<in> set (susp V k) \<or> sp \<in> set (spans_in_use tc s k)) \<longleftrightarrow> active V sp" for sp
    using coreD(3) [OF c] in_use_role [OF w] using_facts(1) [OF c] susp_facts(1) [OF c]
    unfolding active_def by blast
  then show ?thesis unfolding set_eq_iff by (simp add: atLeast0LessThan Bex_def)
qed

text \<open>
  A thread that may exit: the lists of the thread and of the pool are rings of a memory \<open>R\<close> of disjoint rings, with
  whatever contents, and the spans in use are on none of them. \<open>S c\<close> are the suspended spans of the class \<open>c\<close>, \<open>F\<close>
  and \<open>PF\<close> are the nodes on the free lists of the thread and the pool, \<open>PS c\<close> those on the pool's list of the class.
\<close>

definition exit_ready :: "os_env \<Rightarrow> addr \<Rightarrow> wl \<Rightarrow> ring_map \<Rightarrow> (nat \<Rightarrow> addr list) \<Rightarrow> addr list \<Rightarrow> (nat \<Rightarrow> addr list) \<Rightarrow> addr list \<Rightarrow> bool" where
  "exit_ready E tc s R S F PS PF \<longleftrightarrow>
     apart tc 752 (pool_addr E) 544 \<and> \<not> pool_lock (pool s) \<and> rings (lnk s) R \<and>
     (\<forall>c<29. R (tc_suspend tc c) = Some (map nd (S c)) \<and> R (pool_suspend E c) = Some (PS c)) \<and>
     R (tc_free_list tc) = Some F \<and> R (pool_free_list E) = Some PF \<and>
     (\<forall>c<29. \<forall>u \<in> set (spans_in_use tc s c). nd u \<notin> ring_nodes R) \<and>
     (\<forall>c<29. \<forall>d<29. c \<noteq> d \<longrightarrow> set (spans_in_use tc s c) \<inter> set (spans_in_use tc s d) = {})"

lemma heads_apart:
  assumes "apart tc 752 (pool_addr E) 544"
  shows "c < 29 \<Longrightarrow> tc_suspend tc c \<noteq> tc_free_list tc" "c < 29 \<Longrightarrow> d < 29 \<Longrightarrow> tc_suspend tc c \<noteq> pool_suspend E d"
    "c < 29 \<Longrightarrow> tc_suspend tc c \<noteq> pool_free_list E" "c < 29 \<Longrightarrow> tc_free_list tc \<noteq> pool_suspend E c"
    "tc_free_list tc \<noteq> pool_free_list E" "pool_free_list E \<noteq> pool_suspend E c"
  using assms by (auto simp: apart_def layout)

lemma exit_general:
  assumes r: "exit_ready E tc s R S F PS PF"
  shows "\<exists>L R'. thread_exit E tc s = Inr (s\<lparr>lnk := L, span_at := pool_owned (\<Union>c\<in>set [0..<29]. set (S c @ spans_in_use tc s c)) s\<rparr>) \<and>
    rings L R' \<and> (\<forall>c<29. R' (pool_suspend E c) = Some (PS c @ map nd (S c @ spans_in_use tc s c))) \<and>
    R' (pool_free_list E) = Some (PF @ F) \<and> (\<forall>h. h \<notin> struct_heads E tc \<longrightarrow> R' h = R h)"
proof -
  have ap: "apart tc 752 (pool_addr E) 544" and lk: "\<not> pool_lock (pool s)" and R: "rings (lnk s) R"
    and t: "\<forall>c<29. R (tc_suspend tc c) = Some (map nd (S c))" and ps: "\<forall>c<29. R (pool_suspend E c) = Some (PS c)"
    and fl: "R (tc_free_list tc) = Some F" "R (pool_free_list E) = Some PF"
    and fresh: "\<forall>c<29. \<forall>u\<in>set (spans_in_use tc s c). nd u \<notin> ring_nodes R"
    and dis: "\<forall>c<29. \<forall>d<29. c \<noteq> d \<longrightarrow> set (spans_in_use tc s c) \<inter> set (spans_in_use tc s d) = {}"
    using r by (simp_all add: exit_ready_def)
  note hd = heads_apart [OF ap]
  let ?X = "\<Union>c\<in>set [0..<29]. set (S c @ spans_in_use tc s c)"
  from suspend_all_ok [OF R t fresh dis] obtain L1 R1 where
    L1: "fold (suspend_using tc) [0..<29] s = s\<lparr>lnk := L1\<rparr>" "rings L1 R1"
      "\<And>k. k < 29 \<Longrightarrow> R1 (tc_suspend tc k) = Some (map nd (S k) @ map nd (spans_in_use tc s k))"
      "\<And>h. (\<And>k. k < 29 \<Longrightarrow> h \<noteq> tc_suspend tc k) \<Longrightarrow> R1 h = R h" by blast
  let ?s2 = "s\<lparr>lnk := L1, pool := (pool s)\<lparr>pool_lock := True\<rparr>\<rparr>"
  have t2: "\<forall>k\<in>set [0..<29]. R1 (tc_suspend tc k) = Some (map nd (S k @ spans_in_use tc s k))"
    using L1(3) by simp
  have p2: "\<forall>k\<in>set [0..<29]. R1 (pool_suspend E k) = Some (PS k)"
  proof
    fix k assume "k \<in> set [0..<29]"
    then have k: "k < 29" by simp
    have "R1 (pool_suspend E k) = R (pool_suspend E k)" using hd(2) k by (intro L1(4)) (metis not_sym)
    then show "R1 (pool_suspend E k) = Some (PS k)" using ps k by simp
  qed
  have n2: "\<forall>k\<in>set [0..<29]. \<forall>d\<in>set [0..<29]. tc_suspend tc k \<noteq> pool_suspend E d" using hd(2) by simp
  have "rings (lnk ?s2) R1" using L1(2) by simp
  from give_all_ok [OF this t2 p2 distinct_upt n2] obtain L3 R3 where
    L3: "give_all_suspended E tc [0..<29] ?s2 = Inr (?s2\<lparr>lnk := L3, span_at := pool_owned ?X ?s2\<rparr>)" "rings L3 R3"
      "\<And>k. k < 29 \<Longrightarrow> R3 (pool_suspend E k) = Some (PS k @ map nd (S k @ spans_in_use tc s k))"
      "\<And>h. (\<And>k. k < 29 \<Longrightarrow> h \<noteq> tc_suspend tc k \<and> h \<noteq> pool_suspend E k) \<Longrightarrow> R3 h = R1 h"
    by auto
  have keep: "R3 h = R h" if "\<And>k. k < 29 \<Longrightarrow> h \<noteq> tc_suspend tc k \<and> h \<noteq> pool_suspend E k" for h
    using L3(4) [of h] L1(4) [of h] that by simp
  have f: "R3 (tc_free_list tc) = Some F" "R3 (pool_free_list E) = Some PF"
    using keep [of "tc_free_list tc"] keep [of "pool_free_list E"] hd(1,3,4,6) fl by (metis not_sym)+
  let ?L4 = "list_splice_tail L3 (tc_free_list tc) (pool_free_list E)"
  let ?R4 = "R3(tc_free_list tc := None, pool_free_list E \<mapsto> PF @ F)"
  have r4: "rings ?L4 ?R4" by (rule rings_splice_tail [OF L3(2) f hd(5)])
  have "thread_exit E tc s = Inr (s\<lparr>lnk := ?L4, span_at := pool_owned ?X s\<rparr>)"
  proof -
    have "(pool s)\<lparr>pool_lock := False\<rparr> = pool s" using lk by simp
    moreover have "pool_owned X ?s2 = pool_owned X s" for X by (simp add: pool_owned_def fun_eq_iff)
    ultimately show ?thesis
      using L1(1) L3(1) lk
      by (simp add: thread_exit_def DEFAULT_CLASS_NUM_def lock_pool_def unlock_pool_def upd_lnk_def)
  qed
  moreover have "?R4 (pool_suspend E k) = Some (PS k @ map nd (S k @ spans_in_use tc s k))" if "k < 29" for k
    using L3(3) [OF that] hd(4) [OF that] hd(6) [of k] not_sym by fastforce
  moreover have "?R4 h = R h" if h: "h \<notin> struct_heads E tc" for h
  proof -
    have "R3 h = R h" by (intro keep) (use h struct_heads_mem(3,4) in metis)
    moreover have "h \<noteq> tc_free_list tc" "h \<noteq> pool_free_list E" using h struct_heads_mem(1,2) by metis+
    ultimately show ?thesis by simp
  qed
  ultimately show ?thesis using r4 by (intro exI [of _ ?L4] exI [of _ ?R4]) simp
qed

text \<open>After a run of one thread it may exit; the pool's lists are empty then.\<close>

lemma wf_exit_ready:
  assumes w: "alloc_wf E tc s V R"
  shows "exit_ready E tc s R (susp V) (map nd (frees V)) (\<lambda>_. []) []"
proof -
  have c: "core E tc s V R" using w by (simp add: alloc_wf_def)
  note p = coreD(1) [OF c] and ro = ring_okD [OF coreD(6) [OF c]]
  have "\<forall>k<29. \<forall>u\<in>set (spans_in_use tc s k). nd u \<notin> ring_nodes R"
  proof (intro allI impI ballI)
    fix k u assume "k < 29" "u \<in> set (spans_in_use tc s k)"
    then have "role V u = Some (Using k)" using in_use_role [OF w] by blast
    then show "nd u \<notin> ring_nodes R" by (intro header_fresh [OF c using_facts(7) [OF c]]) (auto simp: layout)
  qed
  moreover have "\<forall>k<29. \<forall>d<29. k \<noteq> d \<longrightarrow> set (spans_in_use tc s k) \<inter> set (spans_in_use tc s d) = {}"
    using in_use_role [OF w] by auto
  ultimately show ?thesis using p ro(1-5) by (simp add: exit_ready_def pool_ok_def)
qed

lemma exit_ok:
  assumes w: "alloc_wf E tc s V R"
  shows "\<exists>L R'. thread_exit E tc s = Inr (s\<lparr>lnk := L, span_at := pool_owned {sp. active V sp} s\<rparr>) \<and> rings L R' \<and>
    (\<forall>c<29. R' (pool_suspend E c) = Some (map nd (susp V c @ spans_in_use tc s c))) \<and>
    R' (pool_free_list E) = Some (map nd (frees V)) \<and> (\<forall>sp. active V sp \<longrightarrow> R' (bl sp) = Some (flist V sp))"
proof -
  have c: "core E tc s V R" using w by (simp add: alloc_wf_def)
  from exit_general [OF wf_exit_ready [OF w]] obtain L R' where
    L: "thread_exit E tc s = Inr (s\<lparr>lnk := L, span_at := pool_owned {sp. active V sp} s\<rparr>)" "rings L R'"
      "\<And>k. k < 29 \<Longrightarrow> R' (pool_suspend E k) = Some (map nd (susp V k @ spans_in_use tc s k))"
      "R' (pool_free_list E) = Some (map nd (frees V))" "\<And>h. h \<notin> struct_heads E tc \<Longrightarrow> R' h = R h"
    unfolding taken_spans [OF w] append_Nil by blast
  have "R' (bl sp) = Some (flist V sp)" if "active V sp" for sp
    using L(5) [OF active_bl [OF c that]] ring_okD(6) [OF coreD(6) [OF c] that] by simp
  with L(1-4) show ?thesis by (intro exI [of _ L] exI [of _ R']) simp
qed

subsection \<open>Properties\<close>

lemma client_wf:
  assumes "env_ok E tc" "reach E tc s H" "thread_state s tc"
  obtains V R where "alloc_wf E tc s V R" "covers (heap_of s V) H"
  using reach_inv [OF assms(1,2)] assms(3) by (auto simp: client_inv_def)

lemma held_active:
  assumes "alloc_wf E tc s V R" "covers (heap_of s V) H" "H b = Some n"
  shows "active V (GET_HEADER b)" "\<not> outside_pool s b" "b \<noteq> NULL"
proof -
  have c: "core E tc s V R" using assms(1) by (simp add: alloc_wf_def)
  obtain m where "heap_of s V b = Some m" using coversD [OF assms(2,3)] by blast
  then show "active V (GET_HEADER b)" "\<not> outside_pool s b" "b \<noteq> NULL"
    using heap_of_Some(1) [OF c] heap_of_inside [OF c] by blast+
qed

text \<open>
  C10: When a thread exits in a state where its lists and the pool's are well-formed rings with whatever contents,
  no other thread is inside the pool, and its spans in use are on no list, \<open>thread_exit\<close> returns (it does not block
  and its traversals end) and everything the thread had is in the pool, behind what the pool had before, for
  instance from a thread that exited earlier: for each class the suspended spans of the thread and then its span in
  use stand, in this order, at the end of the pool's list of that class, its free spans at the end of the pool's free
  list. Exactly these spans change their owner, to the pool; all other lists (those of the free blocks of the spans, and
  those of other threads) and every byte of user memory are as before.
\<close>

theorem thread_exit_hands_over:
  assumes "exit_ready E tc s R S F PS PF"
  shows "\<exists>s' R'. thread_exit E tc s = Inr s' \<and> mem s' = mem s \<and> pool s' = pool s \<and>
    (\<forall>c<29. list_for_each (lnk s') (pool_suspend E c) = Some (PS c @ map nd (S c @ spans_in_use tc s c))) \<and>
    list_for_each (lnk s') (pool_free_list E) = Some (PF @ F) \<and>
    (\<forall>sp. span_at s' sp = (if \<exists>c<29. sp \<in> set (S c @ spans_in_use tc s c)
       then (span_at s sp)\<lparr>owner := POOL_OWNER\<rparr> else span_at s sp)) \<and>
    rings (lnk s') R' \<and> (\<forall>h. h \<notin> struct_heads E tc \<longrightarrow> R' h = R h)"
proof -
  let ?X = "\<Union>c\<in>set [0..<29]. set (S c @ spans_in_use tc s c)"
  from exit_general [OF assms] obtain L R' where
    L: "thread_exit E tc s = Inr (s\<lparr>lnk := L, span_at := pool_owned ?X s\<rparr>)" "rings L R'"
      "\<And>c. c < 29 \<Longrightarrow> R' (pool_suspend E c) = Some (PS c @ map nd (S c @ spans_in_use tc s c))"
      "R' (pool_free_list E) = Some (PF @ F)" "\<And>h. h \<notin> struct_heads E tc \<Longrightarrow> R' h = R h" by blast
  have "list_for_each L (pool_suspend E k) = Some (PS k @ map nd (S k @ spans_in_use tc s k))" if "k < 29" for k
    using list_for_each_dll [OF rings_dll [OF L(2) L(3) [OF that]]] .
  moreover have "sp \<in> ?X \<longleftrightarrow> (\<exists>c<29. sp \<in> set (S c @ spans_in_use tc s c))" for sp by auto
  ultimately show ?thesis
    using L(1,2,5) list_for_each_dll [OF rings_dll [OF L(2,4)]]
    by (intro exI [of _ "s\<lparr>lnk := L, span_at := pool_owned ?X s\<rparr>"] exI [of _ R']) (simp add: pool_owned_def)
qed

text \<open>
  So it is after every run of one thread: it may exit, and the spans of all blocks that the program still holds are
  among those the pool gets.
\<close>

theorem run_may_exit:
  assumes "env_ok E tc" "reach E tc s H" "thread_state s tc"
  shows "\<exists>R S F. exit_ready E tc s R S F (\<lambda>_. []) [] \<and>
    (\<forall>b n. H b = Some n \<longrightarrow> (\<exists>c<29. GET_HEADER b \<in> set (S c @ spans_in_use tc s c)))"
proof -
  obtain V R where w: "alloc_wf E tc s V R" "covers (heap_of s V) H" using client_wf [OF assms] .
  have "\<exists>c<29. GET_HEADER b \<in> set (susp V c @ spans_in_use tc s c)" if "H b = Some n" for b n
  proof -
    have "GET_HEADER b \<in> (\<Union>c\<in>set [0..<29]. set (susp V c @ spans_in_use tc s c))"
      using held_active(1) [OF w that] unfolding taken_spans [OF w(1)] by simp
    then show ?thesis by auto
  qed
  with wf_exit_ready [OF w(1)] show ?thesis by blast
qed

text \<open>
  C25: From then on giving back any block of the exited thread is fatal: whichever thread frees it, the call
  itself returns, but the pool's lock stays taken and every later request that reaches the pool blocks for ever.
  So it is after every run of one thread that asks for 1 to 16384 bytes and makes no request while a suspended span of
  the class has a free block again (\<open>reach\<close>), for every block that it still holds; blocks of more than 16384 bytes are
  not in the pool.
\<close>

theorem free_after_exit_deadlocks:
  assumes "env_ok E tc" "reach E tc s H" "H b = Some n" "thread_exit E tc s = Inr s'" "other \<noteq> POOL_OWNER"
  shows "\<exists>t. free E other s' b = Inr t \<and> pool_lock (pool t) \<and> (\<forall>k. acquire_span E t k = Inl Deadlock)"
proof -
  have ts: "thread_state s tc" using reach_inv [OF assms(1,2)] assms(3) by (auto simp: client_inv_def alloc_wf_def)
  obtain V R where w: "alloc_wf E tc s V R" "covers (heap_of s V) H" using client_wf [OF assms(1,2) ts] .
  have c: "core E tc s V R" using w(1) by (simp add: alloc_wf_def)
  obtain L where s': "s' = s\<lparr>lnk := L, span_at := pool_owned {sp. active V sp} s\<rparr>"
    using exit_ok [OF w(1)] assms(4) by auto
  note h = held_active [OF w assms(3)]
  have "owner (span_at s' (GET_HEADER b)) = POOL_OWNER" "\<not> pool_lock (pool s')" "\<not> outside_pool s' b"
    using h coreD(1) [OF c] by (simp_all add: s' pool_owned_def pool_ok_def outside_pool_def)
  from pool_block_free_deadlocks [OF this(1) assms(5) this(2) h(3) this(3)] show ?thesis by (simp add: free_def)
qed

text \<open>A class of which a span holds one block: a span with a live block has nothing left.\<close>

lemma one_block_full:
  assumes "span_ok sp_rec sp fl A" "cap (cls sp_rec) = 1" "A \<noteq> {}"
  shows "free_cnt sp_rec = 0" "fl = []"
proof -
  note n = span_ok_counts [OF assms(1)]
  have "0 < card A" using n(2) assms(3) by (simp add: card_gt_0_iff)
  then have z: "unat (free_cnt sp_rec) = 0" using n(1) assms(2) by simp
  then show "free_cnt sp_rec = 0" by (simp add: unat_eq_0)
  show "fl = []" using assms(1) z by (auto simp: span_ok_def)
qed

lemma cap_large: "8192 < cls2size ! k \<Longrightarrow> k < 29 \<Longrightarrow> cap k = 1"
  using cls2size_range(2) [of k] by (simp add: cap_def SPAN_DATA_SIZE_def div_nat_eqI)

text \<open>The first span on the pool's list of a class is one that has live blocks, if the thread held one of the class.\<close>

lemma first_handed_over:
  assumes w: "alloc_wf E tc s V R" and b: "b \<in> live V (GET_HEADER b)" "active V (GET_HEADER b)" and k: "k = cls (span_at s (GET_HEADER b))"
  obtains sp rest where "susp V k @ spans_in_use tc s k = sp # rest" "active V sp" "live V sp \<noteq> {}" "cls (span_at s sp) = k"
proof -
  have c: "core E tc s V R" using w by (simp add: alloc_wf_def)
  have k29: "k < 29" using active_facts(3) [OF c b(2)] k by simp
  show ?thesis
  proof (cases "susp V k")
    case (Cons sp rest)
    then have "role V sp = Some (Susp k)" using coreD(3) [OF c, of k] by (metis list.set_intros(1) mem_Collect_eq)
    from susp_facts [OF c this] Cons show ?thesis by (intro that [of sp "rest @ spans_in_use tc s k"]) simp_all
  next
    case Nil
    have "role V (GET_HEADER b) \<noteq> Some (Susp j)" for j
      using Nil susp_facts(4,8) [OF c, of "GET_HEADER b" j] k by auto
    then obtain j where j: "role V (GET_HEADER b) = Some (Using j)" using b(2) by (auto simp: active_def)
    then have "j = k" using using_facts(4) [OF c j] k by simp
    then have "GET_HEADER b \<in> set (spans_in_use tc s k)" using in_use_role [OF w k29] j by simp
    then have "spans_in_use tc s k = [GET_HEADER b]" by (auto simp: spans_in_use_def Let_def split: if_splits)
    then show ?thesis using Nil b k by (intro that [of "GET_HEADER b" "[]"]) auto
  qed
qed

text \<open>
  C26: A block of more than 8192 (and at most 16384) bytes that outlives its thread makes the allocator hand out memory
  it does not have: the next request to the pool for a span of the block's class gets the first one of the pool's list,
  which is full, and the block cut from it lies just behind the only block the span has room for, so it ends behind
  the span; the count of free blocks becomes \<open>2 ^ 32 - 1\<close>. So it is after every run of one thread that asks for 1 to
  16384 bytes and makes no request while a suspended span of the class has a free block again (\<open>reach\<close>).
\<close>

theorem outlived_block_overruns:
  assumes "env_ok E tc" "reach E tc s H" "H b = Some n" "8192 < n" "thread_exit E tc s = Inr s'"
  shows "\<exists>k sp s1. k = cls (span_at s (GET_HEADER b)) \<and> k < 29 \<and> n \<le> cls2size ! k \<and> acquire_span E s' k = Inr (sp, s1) \<and>
    fst (get_blk s1 sp) = sp + sizeof_span + cls2size ! k \<and> sp + SPAN_SIZE < fst (get_blk s1 sp) + cls2size ! k \<and>
    free_cnt (span_at (snd (get_blk s1 sp)) sp) = - 1"
proof -
  have ts: "thread_state s tc" using reach_inv [OF assms(1,2)] assms(3) by (auto simp: client_inv_def alloc_wf_def)
  obtain V R where w: "alloc_wf E tc s V R" "covers (heap_of s V) H" using client_wf [OF assms(1,2) ts] .
  have c: "core E tc s V R" using w(1) by (simp add: alloc_wf_def)
  obtain m where m: "heap_of s V b = Some m" "n \<le> m" using coversD [OF w(2) assms(3)] by blast
  note h = heap_of_Some [OF c m(1)]
  define k where "k = cls (span_at s (GET_HEADER b))"
  have k: "k < 29" "n \<le> cls2size ! k" "8192 < cls2size ! k"
    using active_facts(3) [OF c h(1)] h(3) m(2) assms(4) by (simp_all add: k_def)
  obtain sp rest where sp: "susp V k @ spans_in_use tc s k = sp # rest" "active V sp" "live V sp \<noteq> {}" "cls (span_at s sp) = k"
    using first_handed_over [OF w(1) h(2,1) k_def] .
  have one: "cap k = 1" by (rule cap_large [OF k(3,1)])
  have ok: "span_ok (span_at s sp) sp (flist V sp) (live V sp)" by (rule active_facts(2) [OF c sp(2)])
  note full = one_block_full [OF ok _ sp(3), unfolded sp(4), OF one]
  from exit_ok [OF w(1)] obtain L R' where
    e: "thread_exit E tc s = Inr (s\<lparr>lnk := L, span_at := pool_owned {sp. active V sp} s\<rparr>)" "rings L R'"
      "\<And>c. c < 29 \<Longrightarrow> R' (pool_suspend E c) = Some (map nd (susp V c @ spans_in_use tc s c))"
      "\<And>x. active V x \<Longrightarrow> R' (bl x) = Some (flist V x)" by blast
  have L: "R' (pool_suspend E k) = Some (nd sp # map nd rest)" "R' (bl sp) = Some []"
    using e(3) [OF k(1)] e(4) [OF sp(2)] sp(1) full(2) by simp_all
  have s': "s' = s\<lparr>lnk := L, span_at := pool_owned {sp. active V sp} s\<rparr>" using e(1) assms(5) by simp
  have at: "span_at s' sp = (span_at s sp)\<lparr>owner := POOL_OWNER\<rparr>" using sp(2) by (simp add: s' pool_owned_def)
  have d: "dll (lnk s') (pool_suspend E k) (nd sp # map nd rest)" "dll (lnk s') (bl sp) []"
    using rings_dll [OF e(2)] L by (simp_all add: s')
  have "\<not> pool_lock (pool s')" using coreD(1) [OF c] by (simp add: s' pool_ok_def)
  moreover have "span_ok (span_at s' sp) sp [] (live V sp)" using span_ok_frame(1) [OF ok] full(2) by (simp add: at)
  moreover have "free_cnt (span_at s' sp) = 0" using full(1) by (simp add: at)
  moreover have "bl sp \<notin> set (pool_suspend E k # nd sp # map nd rest)"
  proof -
    have "pool_suspend E k \<noteq> bl sp" using active_bl [OF c sp(2)] k(1) by (metis struct_heads_mem(4))
    from rings_disjoint [OF e(2) L this] show ?thesis by auto
  qed
  ultimately obtain s1 where s1: "acquire_span E s' k = Inr (sp, s1)"
    "fst (get_blk s1 sp) = sp + sizeof_span + cap k * cls2size ! k" "free_cnt (span_at (snd (get_blk s1 sp)) sp) = - 1"
    using full_pool_span_overruns [of s' E k sp "map nd rest" "live V sp"] d sp(4) by (auto simp: at)
  have "fst (get_blk s1 sp) = sp + sizeof_span + cls2size ! k" using s1(2) one by simp
  moreover from this have "sp + SPAN_SIZE < fst (get_blk s1 sp) + cls2size ! k" using k(3) by (simp add: layout)
  ultimately show ?thesis using k(1,2) k_def s1(1,3) by blast
qed

lemma demo_block:
  assumes "sz \<noteq> (0 :: size_t)" "sz \<le> 16384"
  shows "\<exists>b s. reach demo_env 8192 s [b \<mapsto> unat sz] \<and> thread_state s 8192"
proof -
  have "demo_run start_state (Suc 101)" by (simp add: demo_run_start)
  from demo_run_step [OF this assms] obtain b s where
    s: "can_ask demo_env 8192 start_state sz" "malloc demo_env 8192 start_state sz = Inr (b, s)" by auto
  have r: "reach demo_env 8192 s [b \<mapsto> unat sz]" using reach_malloc [OF reach_start s] by simp
  have "thread_state s 8192" using reach_inv [OF demo_env_ok r] by (auto simp: client_inv_def alloc_wf_def)
  with r show ?thesis by blast
qed

lemma demo_one_block: "\<exists>b s. reach demo_env 8192 s [b \<mapsto> 16] \<and> thread_state s 8192"
  using demo_block [of 16] by simp

lemma outlived_block_overruns_witness:
  "\<exists>s s' k sp s1. thread_exit demo_env 8192 s = Inr s' \<and> acquire_span demo_env s' k = Inr (sp, s1) \<and>
     free_cnt (span_at (snd (get_blk s1 sp)) sp) = - 1"
proof -
  obtain b s where r: "reach demo_env 8192 s [b \<mapsto> 16384]" "thread_state s 8192" using demo_block [of 16384] by auto
  obtain V R where "alloc_wf demo_env 8192 s V R" using client_wf [OF demo_env_ok r] by blast
  from exit_ok [OF this] obtain s' where s': "thread_exit demo_env 8192 s = Inr s'" by blast
  have "[b \<mapsto> 16384 :: nat] b = Some 16384" by simp
  from outlived_block_overruns [OF demo_env_ok r(1) this _ s'] obtain k sp s1 where
    "acquire_span demo_env s' k = Inr (sp, s1)" "free_cnt (span_at (snd (get_blk s1 sp)) sp) = - 1" by auto
  with s' show ?thesis by blast
qed

text \<open>
  The second thread of a process exits: the pool has a span of class 0 and a free span from the first one; the thread has
  a suspended span of class 0 (at 20000), one in use (at 30000), and a free one.
\<close>

definition empty_rings :: ring_map where
  "empty_rings = (\<lambda>h. if h \<in> struct_heads demo_env 8192 then Some [] else None)"

definition second_links :: links where
  "second_links = list_add_tail (list_add_tail (list_add_tail (list_add_tail \<lparr>nxt = (\<lambda>x. x), prv = (\<lambda>x. x)\<rparr>
     (nd 20000) (tc_suspend 8192 0)) 40056 (pool_suspend demo_env 0)) 50056 (tc_free_list 8192)) 60056 (pool_free_list demo_env)"

definition second_thread :: wl where
  "second_thread = start_state\<lparr>lnk := second_links,
     tcache_at := (\<lambda>_. \<lparr>lock = False, using_span = (\<lambda>_. 0)(0 := 30000)\<rparr>)\<rparr>"

lemma demo_heads_low: "h \<in> struct_heads demo_env 8192 \<Longrightarrow> h < 9000"
  by (auto simp: struct_heads_def demo_env_def layout)

lemma empty_ring_nodes: "ring_nodes empty_rings \<subseteq> {x. x < 9000}"
  using demo_heads_low by (auto simp: ring_nodes_def empty_rings_def split: if_splits)

lemma second_rings:
  defines "R \<equiv> empty_rings(tc_suspend 8192 0 \<mapsto> [nd 20000], pool_suspend demo_env 0 \<mapsto> [40056], tc_free_list 8192 \<mapsto> [50056],
    pool_free_list demo_env \<mapsto> [60056])"
  shows "rings second_links R" "ring_nodes R \<subseteq> {x. x < 9000} \<union> {20056, 40056, 50056, 60056}"
proof -
  note ly = demo_env_def tc_suspend_def pool_suspend_def tc_free_list_def pool_free_list_def
  let ?L0 = "\<lparr>nxt = (\<lambda>x. x), prv = (\<lambda>x. x)\<rparr>"
  let ?R1 = "empty_rings(tc_suspend 8192 0 \<mapsto> [nd 20000])"
  let ?R2 = "?R1(pool_suspend demo_env 0 \<mapsto> [40056])"
  let ?R3 = "?R2(tc_free_list 8192 \<mapsto> [50056])"
  have h: "tc_suspend 8192 0 < 9000" "pool_suspend demo_env 0 < 9000" "tc_free_list 8192 < 9000" "pool_free_list demo_env < 9000"
    by (simp_all add: ly)
  have n1: "ring_nodes ?R1 \<subseteq> {x. x < 9000} \<union> {20056}"
    using ring_nodes_upd [of empty_rings "tc_suspend 8192 0" "[nd 20000]"] empty_ring_nodes h by (auto simp: node_def)
  have n2: "ring_nodes ?R2 \<subseteq> {x. x < 9000} \<union> {20056, 40056}"
    using ring_nodes_upd [of ?R1 "pool_suspend demo_env 0" "[40056]"] n1 h by auto
  have n3: "ring_nodes ?R3 \<subseteq> {x. x < 9000} \<union> {20056, 40056, 50056}"
    using ring_nodes_upd [of ?R2 "tc_free_list 8192" "[50056]"] n2 h by auto
  show "ring_nodes R \<subseteq> {x. x < 9000} \<union> {20056, 40056, 50056, 60056}"
    unfolding R_def using ring_nodes_upd [of ?R3 "pool_free_list demo_env" "[60056]"] n3 h by auto
  have r0: "rings ?L0 empty_rings" by (auto simp: rings_def empty_rings_def dll_def split: if_splits)
  have e: "empty_rings (tc_suspend 8192 0) = Some []" "?R1 (pool_suspend demo_env 0) = Some []"
    "?R2 (tc_free_list 8192) = Some []" "?R3 (pool_free_list demo_env) = Some []"
    by (simp_all add: empty_rings_def ly) (simp_all add: struct_heads_def demo_env_def layout)
  have f: "nd 20000 \<notin> ring_nodes empty_rings" "40056 \<notin> ring_nodes ?R1" "50056 \<notin> ring_nodes ?R2" "60056 \<notin> ring_nodes ?R3"
    using empty_ring_nodes n1 n2 n3 by (auto simp: node_def)
  note r1 = rings_add_tail [OF r0 e(1) f(1), unfolded append_Nil]
  note r2 = rings_add_tail [OF r1 e(2) f(2), unfolded append_Nil]
  note r3 = rings_add_tail [OF r2 e(3) f(3), unfolded append_Nil]
  note r4 = rings_add_tail [OF r3 e(4) f(4), unfolded append_Nil]
  show "rings second_links R" unfolding second_links_def R_def by (rule r4)
qed

lemma second_exit_ready:
  "exit_ready demo_env 8192 second_thread
     (empty_rings(tc_suspend 8192 0 \<mapsto> [nd 20000], pool_suspend demo_env 0 \<mapsto> [40056], tc_free_list 8192 \<mapsto> [50056],
       pool_free_list demo_env \<mapsto> [60056]))
     (\<lambda>c. if c = 0 then [20000] else []) [50056] (\<lambda>c. if c = 0 then [40056] else []) [60056]"
proof -
  have u: "spans_in_use 8192 second_thread c = (if c = 0 then [30000] else [])" for c
    by (simp add: spans_in_use_def second_thread_def Let_def)
  have "nd 30000 \<notin> ring_nodes (empty_rings(tc_suspend 8192 0 \<mapsto> [nd 20000], pool_suspend demo_env 0 \<mapsto> [40056],
      tc_free_list 8192 \<mapsto> [50056], pool_free_list demo_env \<mapsto> [60056]))"
    using second_rings(2) by (auto simp: node_def)
  then show ?thesis
    using second_rings(1) unfolding exit_ready_def u
    by (auto simp: second_thread_def start_state_def empty_rings_def apart_def demo_env_def struct_heads_def layout)
qed

lemma thread_exit_hands_over_witness:
  "\<exists>s'. thread_exit demo_env 8192 second_thread = Inr s' \<and>
     list_for_each (lnk s') (pool_suspend demo_env 0) = Some [40056, 20056, 30056] \<and>
     list_for_each (lnk s') (pool_free_list demo_env) = Some [60056, 50056] \<and>
     owner (span_at s' 30000) = POOL_OWNER"
proof -
  have u: "spans_in_use 8192 second_thread 0 = [30000]"
    by (simp add: spans_in_use_def second_thread_def Let_def)
  from thread_exit_hands_over [OF second_exit_ready] obtain s' where
    s': "thread_exit demo_env 8192 second_thread = Inr s'"
      "\<forall>c<29. list_for_each (lnk s') (pool_suspend demo_env c) = Some ((if c = 0 then [40056] else []) @
         map nd ((if c = 0 then [20000] else []) @ spans_in_use 8192 second_thread c))"
      "list_for_each (lnk s') (pool_free_list demo_env) = Some ([60056] @ [50056])"
      "\<forall>sp. span_at s' sp = (if \<exists>c<29. sp \<in> set ((if c = 0 then [20000] else []) @ spans_in_use 8192 second_thread c)
         then (span_at second_thread sp)\<lparr>owner := POOL_OWNER\<rparr> else span_at second_thread sp)"
    by blast
  have "\<exists>c<29. 30000 \<in> set ((if c = 0 then [20000] else []) @ spans_in_use 8192 second_thread c)"
    by (intro exI [of _ 0]) (simp add: u)
  then have "owner (span_at s' 30000) = POOL_OWNER" using s'(4) by simp
  moreover have "list_for_each (lnk s') (pool_suspend demo_env 0) = Some [40056, 20056, 30056]"
    using spec [OF s'(2), of 0] by (simp add: u node_def)
  ultimately show ?thesis using s'(1,3) by simp
qed

lemma free_after_exit_deadlocks_witness:
  "\<exists>b s s' t. thread_exit demo_env 8192 s = Inr s' \<and> free demo_env 4096 s' b = Inr t \<and> (\<forall>k. acquire_span demo_env t k = Inl Deadlock)"
proof -
  obtain b s where r: "reach demo_env 8192 s [b \<mapsto> 16]" "thread_state s 8192" using demo_one_block by blast
  obtain V R where "alloc_wf demo_env 8192 s V R" using client_wf [OF demo_env_ok r] by blast
  from exit_ok [OF this] obtain s' where s': "thread_exit demo_env 8192 s = Inr s'" by blast
  have "[b \<mapsto> 16 :: nat] b = Some 16" "4096 \<noteq> POOL_OWNER" by (simp_all add: POOL_OWNER_def)
  from free_after_exit_deadlocks [OF demo_env_ok r(1) this(1) s' this(2)] s' show ?thesis by blast
qed

end
