(* ===== verification/Tri_Mod.thy ===== *)
theory Tri_Mod
  imports Alloc_Bugs
begin

text \<open>
  Triple modular redundancy (\<open>tri_mod_alloc\<close>, \<open>tri_mod_free\<close>, \<open>tri_mod_read\<close>, \<open>tri_mod_write\<close> of
  \<open>src/wlmalloc.c\<close>): a block of three copies, compared and repaired by majority at every read.
\<close>

subsection \<open>Operations\<close>

definition tri_mod_alloc :: "os_env \<Rightarrow> addr \<Rightarrow> wl \<Rightarrow> size_t \<Rightarrow> (addr \<times> wl) outcome" where
  "tri_mod_alloc E tc s sz = wl_malloc E tc s (3 * sz)"

definition tri_mod_free :: "os_env \<Rightarrow> addr \<Rightarrow> wl \<Rightarrow> addr \<Rightarrow> wl outcome" where
  "tri_mod_free E tc s ptr = wl_free E tc s ptr"

definition tri_mod_read :: "wl \<Rightarrow> addr \<Rightarrow> size_t \<Rightarrow> addr \<times> wl" where
  "tri_mod_read s ptr sz =
     (let n = unat sz;
          ptrs = [ptr, ptr + n, ptr + n + n];
          compare = map (\<lambda>i. memcmp_zero (mem s) (ptrs ! i) (ptrs ! ((i + 1) mod 3)) n) [0..<3]
      in if compare ! 0 \<and> compare ! 1 then (ptr, s)
         else if \<not> compare ! 0 \<and> \<not> compare ! 1 \<and> \<not> compare ! 2 then (NULL, s)
         else if compare ! 0 then (ptr, s\<lparr>mem := memcpy (mem s) (ptrs ! 2) (ptrs ! 0) n\<rparr>)
         else if compare ! 1 then (ptr, s\<lparr>mem := memcpy (mem s) (ptrs ! 0) (ptrs ! 1) n\<rparr>)
         else (ptr, s\<lparr>mem := memcpy (mem s) (ptrs ! 1) (ptrs ! 0) n\<rparr>))"

text \<open>
  \<open>tri_mod_write\<close> returns \<open>(void *)-1\<close> when it refuses; when it writes it reaches the end of the
  function without a \<open>return\<close>, so there is no value to use (\<open>None\<close>).
\<close>

definition tri_mod_write :: "wl \<Rightarrow> addr \<Rightarrow> addr \<Rightarrow> size_t \<Rightarrow> addr option \<times> wl" where
  "tri_mod_write s ptr source sz =
     (let sp = GET_HEADER ptr
      in if sp = NULL \<or> (ucast (blk_size (span_at s sp)) :: size_t) < sz * 3 then (Some (2 ^ 64 - 1), s)
         else (let ptr2 = ptr + unat sz;
                   ptr3 = ptr2 + unat sz;
                   m1 = memcpy (mem s) ptr source (unat sz);
                   m2 = memcpy m1 ptr2 source (unat sz);
                   m3 = memcpy m2 ptr3 source (unat sz)
               in (None, s\<lparr>mem := m3\<rparr>)))"

subsection \<open>Majority\<close>

text \<open>The three copies, and the vote that a triple of copies calls for.\<close>

definition copies :: "bytes \<Rightarrow> addr \<Rightarrow> nat \<Rightarrow> byte list \<times> byte list \<times> byte list" where
  "copies m ptr n = (load_bytes m ptr n, load_bytes m (ptr + n) n, load_bytes m (ptr + n + n) n)"

fun majority :: "'a \<times> 'a \<times> 'a \<Rightarrow> 'a option" where
  "majority (a, b, c) = (if a = b \<or> a = c then Some a else if b = c then Some b else None)"

text \<open>At most one of the three differs from \<open>v\<close>.\<close>

fun one_upset :: "'a \<Rightarrow> 'a \<times> 'a \<times> 'a \<Rightarrow> bool" where
  "one_upset v (a, b, c) \<longleftrightarrow> (a = v \<and> b = v) \<or> (b = v \<and> c = v) \<or> (a = v \<and> c = v)"

lemma majority_one_upset: "one_upset v t \<Longrightarrow> majority t = Some v"
  by (cases t) auto

lemma majority_None: "majority (a, b, c) = None \<longleftrightarrow> a \<noteq> b \<and> b \<noteq> c \<and> a \<noteq> c"
  by auto

lemma copies_cong:
  assumes "\<And>x. x < ptr \<or> ptr + 3 * n \<le> x \<Longrightarrow> m' x = m x"
  shows "b + k \<le> ptr \<or> ptr + 3 * n \<le> b \<Longrightarrow> load_bytes m' b k = load_bytes m b k"
  using assms by (auto simp: load_bytes_eq_iff)

lemma upt3: "[0..<3] = [0, 1, 2::nat]"
  by (simp add: upt_0_step upt_rec_numeral)

lemma tri_mod_read_cases:
  "tri_mod_read s ptr sz =
     (let n = unat sz; m = mem s; a = load_bytes m ptr n; b = load_bytes m (ptr + n) n; c = load_bytes m (ptr + n + n) n
      in if a = b \<and> b = c then (ptr, s)
         else if a \<noteq> b \<and> b \<noteq> c \<and> c \<noteq> a then (NULL, s)
         else if a = b then (ptr, s\<lparr>mem := memcpy m (ptr + n + n) ptr n\<rparr>)
         else if b = c then (ptr, s\<lparr>mem := memcpy m ptr (ptr + n) n\<rparr>)
         else (ptr, s\<lparr>mem := memcpy m (ptr + n) ptr n\<rparr>))"
  unfolding tri_mod_read_def Let_def upt3 memcmp_zero_def by simp

lemma read_votes:
  "case tri_mod_read s ptr sz of (r, s') \<Rightarrow>
     (case majority (copies (mem s) ptr (unat sz)) of
        None \<Rightarrow> r = NULL \<and> s' = s
      | Some v \<Rightarrow> r = ptr \<and> copies (mem s') ptr (unat sz) = (v, v, v)) \<and>
     (\<forall>x. x < ptr \<or> ptr + 3 * unat sz \<le> x \<longrightarrow> mem s' x = mem s x)"
proof -
  let ?n = "unat sz" and ?m = "mem s"
  let ?a = "load_bytes ?m ptr ?n" and ?b = "load_bytes ?m (ptr + ?n) ?n" and ?c = "load_bytes ?m (ptr + ?n + ?n) ?n"
  consider "?a = ?b" "?b = ?c" | "?a \<noteq> ?b" "?b \<noteq> ?c" "?c \<noteq> ?a"
    | "?a = ?b" "?b \<noteq> ?c" | "?a \<noteq> ?b" "?b = ?c" | "?a \<noteq> ?b" "?b \<noteq> ?c" "?c = ?a" by metis
  then show ?thesis
    by cases (simp_all add: tri_mod_read_cases Let_def copies_def load_memcpy_other memcpy_outside)
qed

text \<open>
  C18: \<open>tri_mod_read\<close> is a majority vote: when two copies agree it returns the block and all three copies
  hold the majority's bytes afterwards; when all differ it returns \<open>NULL\<close> and repairs nothing. No byte
  outside the three copies changes.
\<close>

theorem tri_mod_read_votes:
  "case tri_mod_read s ptr sz of (r, s') \<Rightarrow>
     (case majority (copies (mem s) ptr (unat sz)) of
        None \<Rightarrow> r = NULL \<and> s' = s
      | Some v \<Rightarrow> r = ptr \<and> copies (mem s') ptr (unat sz) = (v, v, v)) \<and>
     {x. mem s' x \<noteq> mem s x} \<subseteq> {ptr ..< ptr + 3 * unat sz}"
  using read_votes [of s ptr sz] by (auto split: prod.splits simp: not_less [symmetric])

lemma upset_repaired:
  assumes "one_upset v (copies (mem s) ptr (unat sz))"
  shows "\<exists>s'. tri_mod_read s ptr sz = (ptr, s') \<and> copies (mem s') ptr (unat sz) = (v, v, v)"
  using read_votes [of s ptr sz] majority_one_upset [OF assms] by (auto split: prod.splits)

text \<open>
  A single upset is always repaired: whatever happened to one of the three copies of a value, a
  read returns the block, and the first copy, which the caller looks at, and both others hold the
  value again.
\<close>

theorem single_upset_repaired:
  assumes "one_upset v (copies (mem s) ptr (unat sz))"
  shows "\<exists>s'. tri_mod_read s ptr sz = (ptr, s') \<and> copies (mem s') ptr (unat sz) = (v, v, v)"
  using assms by (rule upset_repaired)

lemma single_upset_repaired_witness:
  "\<exists>s'. tri_mod_read (start_state\<lparr>mem := (\<lambda>_. 0)(1004 := 7)\<rparr>) 1000 4 = (1000, s') \<and>
     copies (mem s') 1000 4 = ([0, 0, 0, 0], [0, 0, 0, 0], [0, 0, 0, 0])"
proof -
  have "one_upset [0, 0, 0, 0] (copies (mem (start_state\<lparr>mem := (\<lambda>_. 0)(1004 := 7)\<rparr>)) 1000 (unat (4 :: size_t)))"
    by (simp add: copies_def load_bytes_def upt_0_step)
  from single_upset_repaired [OF this] show ?thesis by simp
qed

subsection \<open>Writing\<close>

lemma copies_after_write:
  assumes "src + n \<le> p \<or> p + 3 * n \<le> src"
  shows "copies (memcpy (memcpy (memcpy m p src n) (p + n) src n) (p + n + n) src n) p n =
    (load_bytes m src n, load_bytes m src n, load_bytes m src n)"
proof -
  have "load_bytes (memcpy m p src n) src n = load_bytes m src n"
    "load_bytes (memcpy (memcpy m p src n) (p + n) src n) src n = load_bytes m src n"
    using assms by (auto simp: load_memcpy_other)
  then show ?thesis by (simp add: copies_def load_memcpy_other)
qed

lemma three_copies_fit:
  fixes sz :: size_t
  assumes "3 * unat sz \<le> n" "n < 2 ^ 64"
  shows "unat (sz * 3) = 3 * unat sz"
  using assms by (simp add: unat_word_ariths)

lemma tri_write_ok:
  assumes "env_ok E tc" "client_inv E tc s H" "H p = Some n" "3 * unat sz \<le> n"
    and "apart src (unat sz) p (3 * unat sz)"
  shows "\<exists>s'. tri_mod_write s p src sz = (None, s') \<and> keeps (mem s) (mem s') H p \<and>
    copies (mem s') p (unat sz) =
      (load_bytes (mem s) src (unat sz), load_bytes (mem s) src (unat sz), load_bytes (mem s) src (unat sz))"
proof -
  note inv = assms(2)
  obtain V R m where w: "alloc_wf E tc s V R" "heap_of s V p = Some m" "n \<le> m"
    by (rule client_inv_live [OF inv assms(3)])
  have c: "core E tc s V R" using w(1) by (simp add: alloc_wf_def)
  have hd: "GET_HEADER p \<noteq> NULL"
    using carved_inside(2) [OF coreD(1) [OF c] heap_of_Some(6) [OF c w(2)]] by simp
  have bs: "unat (blk_size (span_at s (GET_HEADER p))) = m" by (rule heap_of_blk_size [OF w(2)])
  have m: "m < 2 ^ 32" using bs u32_bound [of "blk_size (span_at s (GET_HEADER p))"] by simp
  have "unat (ucast (blk_size (span_at s (GET_HEADER p))) :: size_t) = m"
    using bs by (simp add: unat_u32_size_t)
  moreover have "unat (sz * 3) = 3 * unat sz" using assms(4) w(3) m by (intro three_copies_fit [of sz n]) auto
  ultimately have fits: "\<not> (ucast (blk_size (span_at s (GET_HEADER p))) :: size_t) < sz * 3"
    using assms(4) w(3) by (simp add: word_less_nat_alt)
  let ?n = "unat sz" and ?m = "mem s"
  let ?m1 = "memcpy ?m p src ?n"
  let ?m2 = "memcpy ?m1 (p + ?n) src ?n"
  let ?m3 = "memcpy ?m2 (p + ?n + ?n) src ?n"
  have ok: "env_ok E tc \<and> client_inv E tc s H" using assms(1) inv by blast
  have "keeps ?m ?m1 H p" "keeps ?m1 ?m2 H p" "keeps ?m2 ?m3 H p"
    using bs.memcpy_keeps [OF ok assms(3), of 0] bs.memcpy_keeps [OF ok assms(3), of ?n]
      bs.memcpy_keeps [OF ok assms(3), of "?n + ?n"] assms(4)
    by (simp_all add: add.assoc)
  then have "keeps ?m ?m3 H p" by (blast intro: keeps_trans)
  moreover have "copies ?m3 p ?n = (load_bytes ?m src ?n, load_bytes ?m src ?n, load_bytes ?m src ?n)"
    using assms(5) by (intro copies_after_write) (auto simp: apart_def)
  ultimately show ?thesis using hd fits by (simp add: tri_mod_write_def Let_def)
qed

text \<open>
  C19: On a block of 1 to 16384 bytes that the program of one thread holds in an orderly run (\<open>reach\<close>), with room for three
  copies, \<open>tri_mod_write\<close> finds the header of the block, writes the value three times and touches no other block the
  program holds. A large block has its header elsewhere and is not covered.
\<close>

theorem tri_mod_write_stores:
  assumes "env_ok E tc" "reach E tc s H" "H p = Some n" "3 * unat sz \<le> n"
    and "apart src (unat sz) p (3 * unat sz)"
  shows "\<exists>s'. tri_mod_write s p src sz = (None, s') \<and> keeps (mem s) (mem s') H p \<and>
    copies (mem s') p (unat sz) =
      (load_bytes (mem s) src (unat sz), load_bytes (mem s) src (unat sz), load_bytes (mem s) src (unat sz))"
  using tri_write_ok [OF assms(1) reach_inv [OF assms(1,2)] assms(3-5)] .

lemma tri_mod_write_stores_witness:
  "\<exists>p s s'. reach demo_env 8192 s [p \<mapsto> 100] \<and> tri_mod_write s p (p + 1000) 32 = (None, s') \<and>
     copies (mem s') p 32 = (load_bytes (mem s) (p + 1000) 32, load_bytes (mem s) (p + 1000) 32, load_bytes (mem s) (p + 1000) 32)"
proof -
  obtain p s where r: "reach demo_env 8192 s [p \<mapsto> 100]" using demo_one by blast
  have h: "[p \<mapsto> 100] p = Some 100" by simp
  have "3 * unat (32 :: size_t) \<le> 100" "apart (p + 1000) (unat (32 :: size_t)) p (3 * unat (32 :: size_t))"
    by (simp_all add: apart_def)
  from tri_mod_write_stores [OF demo_env_ok r h this] r show ?thesis by auto
qed

text \<open>
  The size of the three copies wraps: a request for 6148914691236517206 bytes three times over is
  answered as a request for 2 bytes, and the check of \<open>tri_mod_write\<close>, which wraps alike, lets the
  write of three times that size into the 2-byte block pass.
\<close>

theorem tri_mod_size_wraps:
  assumes "GET_HEADER p \<noteq> NULL" "2 \<le> blk_size (span_at s (GET_HEADER p))"
  shows "tri_mod_alloc E tc s 6148914691236517206 = wl_malloc E tc s 2 \<and>
    fst (tri_mod_write s p src 6148914691236517206) = None"
proof -
  have "(2 :: size_t) \<le> ucast (blk_size (span_at s (GET_HEADER p)))"
    using assms(2) by (simp add: word_le_nat_alt unat_u32_size_t)
  then have "\<not> (ucast (blk_size (span_at s (GET_HEADER p))) :: size_t) < 2" by simp
  moreover have wrap: "(18446744073709551618 :: size_t) = 2" by (simp add: word_unat_eq_iff)
  ultimately show ?thesis using assms(1) by (simp add: wrap tri_mod_alloc_def tri_mod_write_def Let_def)
qed

lemma tri_mod_size_wraps_witness:
  "tri_mod_alloc demo_env 8192 full_demo 6148914691236517206 = wl_malloc demo_env 8192 full_demo 2 \<and>
     fst (tri_mod_write full_demo 411472 0 6148914691236517206) = None"
  by (rule tri_mod_size_wraps) (simp_all add: GET_HEADER_def full_demo_def layout)

end
