(* ===== verification/Tri_Demo.thy ===== *)
theory Tri_Demo
  imports Tri_Mod Text
begin

text \<open>
  The program \<open>test_benchmark/tri_mod_test.c\<close>: it writes a redundant value, flips a bit of the first copy and
  reads the value back. The variable \<open>src_int\<close> is a word of the stack at the address \<open>src\<close>; what \<open>printf\<close>
  prints is a string, and the buffers it may take from the allocator are left out.
\<close>

subsection \<open>32-bit words in memory\<close>

definition load_u32 :: "bytes \<Rightarrow> addr \<Rightarrow> u32" where
  "load_u32 m a = foldr (\<lambda>b acc. push_bit 8 acc OR ucast b) (load_bytes m a 4) 0"

definition u32_bytes :: "u32 \<Rightarrow> byte list" where
  "u32_bytes w = map (\<lambda>i. ucast (drop_bit (8 * i) w)) [0..<4]"

definition store_u32 :: "bytes \<Rightarrow> addr \<Rightarrow> u32 \<Rightarrow> bytes" where
  "store_u32 m a w = store_bytes m a (u32_bytes w)"

lemma length_u32_bytes [simp]: "length (u32_bytes w) = 4"
  by (simp add: u32_bytes_def)

lemma upt4: "[0..<4] = [0, 1, 2, 3::nat]"
  by (simp add: upt_0_step upt_rec_numeral)

lemma u32_of_bytes: "foldr (\<lambda>b acc. push_bit 8 acc OR ucast b) (u32_bytes w) 0 = (w :: u32)"
proof (rule bit_word_eqI)
  fix n assume "n < LENGTH(32)"
  then consider "n < 8" | k where "n = 8 + k" "k < 8" | k where "n = 16 + k" "k < 8" | k where "n = 24 + k" "k < 8"
    by (cases "n < 8"; cases "n < 16"; cases "n < 24") (auto simp: nat_less_iff dest!: le_Suc_ex simp: not_less)
  then show "bit (foldr (\<lambda>b acc. push_bit 8 acc OR ucast b) (u32_bytes w) 0 :: u32) n = bit w n"
    by cases (auto simp: u32_bytes_def upt4 bit_simps)
qed

lemma load_store_u32 [simp]: "load_u32 (store_u32 m a w) a = w"
  using load_store_same [of m a "u32_bytes w"] by (simp add: load_u32_def store_u32_def u32_of_bytes)

lemma load_u32_of: "load_bytes m a 4 = u32_bytes w \<Longrightarrow> load_u32 m a = w"
  by (simp add: load_u32_def u32_of_bytes)

lemma load_bytes_store_u32: "load_bytes (store_u32 m a w) a 4 = u32_bytes w"
  using load_store_same [of m a "u32_bytes w"] by (simp add: store_u32_def)

subsection \<open>The program\<close>

text \<open>\<open>%x\<close> of \<open>printf\<close>.\<close>

fun hex :: "nat \<Rightarrow> string" where
  "hex n = (if n < 16 then [''0123456789abcdef'' ! n] else hex (n div 16) @ [''0123456789abcdef'' ! (n mod 16)])"

declare hex.simps [simp del]

definition show_copies :: "bytes \<Rightarrow> addr \<Rightarrow> string" where
  "show_copies m p = hex (unat (load_u32 m p)) @ '', '' @ hex (unat (load_u32 m (p + 4))) @ '', '' @ hex (unat (load_u32 m (p + 8))) @ [newline_char]"

definition tri_mod_test :: "os_env \<Rightarrow> addr \<Rightarrow> addr \<Rightarrow> wl \<Rightarrow> (int \<times> string \<times> wl) outcome" where
  "tri_mod_test E tc src s =
     (let o0 = ''------ start tri_mod test ------'' @ [newline_char];
          s0 = s\<lparr>mem := store_u32 (mem s) src 0xffff\<rparr>
      in bindE (tri_mod_alloc E tc s0 4) (\<lambda>(test_int, s1).
         if test_int = NULL then Inl Undefined
         else let o1 = o0 @ ''Before tri_mod_write: data, copy1, copy2 = '' @ show_copies (mem s1) test_int;
                  (_, s2) = tri_mod_write s1 test_int src 4;
                  o2 = o1 @ ''After tri_mod_write: data, copy1, copy2 = '' @ show_copies (mem s2) test_int;
                  mask = 0xfffffeff;
                  s3 = s2\<lparr>mem := store_u32 (mem s2) test_int (load_u32 (mem s2) test_int AND mask)\<rparr>;
                  o3 = o2 @ [newline_char] @ ''Single event upset. data, copy1, copy2 = '' @ show_copies (mem s3) test_int @ [newline_char];
                  (r, s4) = tri_mod_read s3 test_int 4
              in if r = NULL then Inl Undefined
                 else let o4 = o3 @ ''Using tri_mod_read() to read and recover: test_int = '' @ hex (unat (load_u32 (mem s4) r)) @ [newline_char];
                          o5 = o4 @ ''Now: data, copy1, copy2 = '' @ show_copies (mem s4) test_int
                      in Inr (0, o5, s4)))"

text \<open>The lines after the write: the upset in the first copy, the value read back, and the repaired copies.\<close>

definition recovered :: string where
  "recovered = ''After tri_mod_write: data, copy1, copy2 = ffff, ffff, ffff'' @ [newline_char, newline_char] @
     ''Single event upset. data, copy1, copy2 = feff, ffff, ffff'' @ [newline_char, newline_char] @
     ''Using tri_mod_read() to read and recover: test_int = ffff'' @ [newline_char] @
     ''Now: data, copy1, copy2 = ffff, ffff, ffff'' @ [newline_char]"

lemma hex_values: "hex 65535 = ''ffff''" "hex 65279 = ''feff''"
  by (simp_all add: hex.simps)

lemma show_copies_of:
  assumes "copies m p 4 = (u32_bytes a, u32_bytes b, u32_bytes c)"
  shows "show_copies m p = hex (unat a) @ '', '' @ hex (unat b) @ '', '' @ hex (unat c) @ [newline_char]"
  using assms load_u32_of [of m p a] load_u32_of [of m "p + 4" b] load_u32_of [of m "p + 8" c]
  by (simp add: copies_def show_copies_def add.assoc)

lemma copies_first:
  assumes "copies m p 4 = (x, y, z)"
  shows "copies (store_u32 m p w) p 4 = (u32_bytes w, y, z)"
  using assms load_bytes_store_u32 [of m p w] by (auto simp: copies_def store_u32_def load_store_other)

text \<open>
  C20: Run at the start of a process, or anywhere in an orderly run of one thread (\<open>reach\<close>) in which the class of its 12
  bytes has no suspended span with a free block again (\<open>can_ask\<close>), the demonstration either exits because the
  allocator has no memory for its block, or does what it announces: it prints three equal copies after the write, a
  damaged first copy after the bit flip, the original value as the result of the read and three equal copies again,
  and it leaves every block that is held elsewhere as it was.
\<close>

theorem tri_mod_test_recovers:
  assumes "env_ok E tc" "reach E tc s H" "can_ask E tc (s\<lparr>mem := store_u32 (mem s) src 0xffff\<rparr>) 12"
    and "\<And>p t. malloc E tc (s\<lparr>mem := store_u32 (mem s) src 0xffff\<rparr>) 12 = Inr (p, t) \<Longrightarrow> apart src 4 p 12"
  shows "case tri_mod_test E tc src s of
      Inl e \<Rightarrow> e = Exit \<and> malloc E tc (s\<lparr>mem := store_u32 (mem s) src 0xffff\<rparr>) 12 = Inl Exit
    | Inr (r, o', s') \<Rightarrow> r = 0 \<and> (\<exists>before. o' = before @ recovered) \<and>
        (\<exists>p. H p = None \<and> copies (mem s') p 4 = (u32_bytes 0xffff, u32_bytes 0xffff, u32_bytes 0xffff) \<and>
           keeps (store_u32 (mem s) src 0xffff) (mem s') H p)"
proof -
  let ?s0 = "s\<lparr>mem := store_u32 (mem s) src 0xffff\<rparr>"
  have i0: "client_inv E tc ?s0 H" using reach_inv [OF assms(1,2)] by simp
  have e: "tri_mod_alloc E tc ?s0 4 = malloc E tc ?s0 12" by (simp add: tri_mod_alloc_def malloc_def)
  show ?thesis
  proof (cases "malloc E tc ?s0 12")
    case (Inl x)
    then show ?thesis using malloc_fails [OF assms(1) i0 assms(3) Inl] Inl by (simp add: tri_mod_test_def Let_def e)
  next
    case (Inr ps)
    obtain p s1 where m: "malloc E tc ?s0 12 = Inr (p, s1)" using Inr by (cases ps) auto
    note ms = malloc_step [OF assms(1) i0 assms(3) m] and mc = malloc_client [OF assms(1) i0 assms(3) m]
    have n4: "unat (4 :: size_t) = 4" "unat (12 :: size_t) = 12" by simp_all
    have i1: "client_inv E tc s1 (H(p \<mapsto> 12))" "mem s1 = mem ?s0" using ms unfolding n4 by blast+
    have h: "(H(p \<mapsto> 12)) p = Some 12" "3 * unat (4 :: size_t) \<le> 12" "apart src (unat (4 :: size_t)) p (3 * unat (4 :: size_t))"
      using assms(4) [OF m] by (simp_all add: apart_def)
    from tri_write_ok [OF assms(1) i1(1) h] obtain s2 where
      s2: "tri_mod_write s1 p src 4 = (None, s2)" "keeps (mem s1) (mem s2) (H(p \<mapsto> 12)) p"
        "copies (mem s2) p 4 = (load_bytes (mem s1) src 4, load_bytes (mem s1) src 4, load_bytes (mem s1) src 4)"
      unfolding n4 by blast
    have c2: "copies (mem s2) p 4 = (u32_bytes 0xffff, u32_bytes 0xffff, u32_bytes 0xffff)"
      using s2(3) i1(2) by (simp add: load_bytes_store_u32)
    have "load_u32 (mem s2) p = 0xffff" using c2 by (auto simp: copies_def intro: load_u32_of)
    then have mask: "load_u32 (mem s2) p AND 0xfffffeff = 0xfeff" by simp
    let ?s3 = "s2\<lparr>mem := store_u32 (mem s2) p 0xfeff\<rparr>"
    have c3: "copies (mem ?s3) p 4 = (u32_bytes 0xfeff, u32_bytes 0xffff, u32_bytes 0xffff)"
      using copies_first [OF c2] by simp
    have "one_upset (u32_bytes 0xffff) (copies (mem ?s3) p (unat (4 :: size_t)))" unfolding n4 c3 by simp
    from upset_repaired [OF this] read_votes [of ?s3 p 4] obtain s4 where
      s4: "tri_mod_read ?s3 p 4 = (p, s4)" "copies (mem s4) p 4 = (u32_bytes 0xffff, u32_bytes 0xffff, u32_bytes 0xffff)"
        "\<forall>x. x < p \<or> p + 12 \<le> x \<longrightarrow> mem s4 x = mem ?s3 x" unfolding n4 by auto
    have v4: "load_u32 (mem s4) p = 0xffff" using s4(2) by (auto simp: copies_def intro: load_u32_of)
    let ?before = "''------ start tri_mod test ------'' @ [newline_char] @ ''Before tri_mod_write: data, copy1, copy2 = '' @ show_copies (mem s1) p"
    have r: "tri_mod_test E tc src s = Inr (0, ?before @ recovered, s4)"
      using mc
      by (simp add: tri_mod_test_def Let_def e m s2(1) mask s4(1) v4 show_copies_of [OF c2] show_copies_of [OF c3, simplified]
          show_copies_of [OF s4(2)] hex_values recovered_def)
    have "mem s4 x = mem s2 x" if "x < p \<or> p + 12 \<le> x" for x
      using s4(3) that by (auto simp: store_u32_def store_bytes_def)
    then have "load_bytes (mem s4) c k = load_bytes (mem s2) c k" if "H c = Some k" for c k
      using mc that by (auto simp: load_bytes_eq_iff apart_def dom_def)
    then have "keeps (mem ?s0) (mem s4) H p"
      using s2(2) i1(2) by (simp add: keeps_def)
    then show ?thesis using mc s4(2) unfolding r by auto
  qed
qed

lemma tri_mod_test_recovers_witness:
  "\<exists>s before s'. tri_mod_test demo_env 8192 4 s = Inr (0, before @ recovered, s')"
proof -
  have "demo_run start_state (Suc 101)" by (simp add: demo_run_start)
  from demo_run_step [OF this, of 16] obtain b s where
    s: "can_ask demo_env 8192 start_state 16" "malloc demo_env 8192 start_state 16 = Inr (b, s)" "\<forall>m. demo_run (s\<lparr>mem := m\<rparr>) 101"
    by auto
  have r: "reach demo_env 8192 s [b \<mapsto> 16]" using reach_malloc [OF reach_start s(1,2)] by simp
  let ?s0 = "s\<lparr>mem := store_u32 (mem s) 4 0xffff\<rparr>"
  have "demo_run ?s0 (Suc 100)" using s(3) by simp
  from demo_run_step [OF this, of 12] obtain p t where
    p: "can_ask demo_env 8192 ?s0 12" "malloc demo_env 8192 ?s0 12 = Inr (p, t)" by auto
  have "client_inv demo_env 8192 ?s0 [b \<mapsto> 16]" using reach_inv [OF demo_env_ok r] by simp
  from malloc_client [OF demo_env_ok this p] have "p \<noteq> NULL" "p mod 8 = 0" by simp_all
  then have "8 \<le> p" by presburger
  then have a: "apart 4 4 q 12" if "malloc demo_env 8192 ?s0 12 = Inr (q, u)" for q u
    using that p(2) by (simp add: apart_def)
  let ?H = "[b \<mapsto> 16] :: holdings"
  have w: "case tri_mod_test demo_env 8192 4 s of
      Inl e \<Rightarrow> e = Exit \<and> malloc demo_env 8192 ?s0 12 = Inl Exit
    | Inr (r, o', s') \<Rightarrow> r = 0 \<and> (\<exists>before. o' = before @ recovered) \<and>
        (\<exists>p. ?H p = None \<and> copies (mem s') p 4 = (u32_bytes 0xffff, u32_bytes 0xffff, u32_bytes 0xffff) \<and>
           keeps (store_u32 (mem s) 4 0xffff) (mem s') ?H p)"
    by (rule tri_mod_test_recovers [OF demo_env_ok r p(1)]) (rule a)
  show ?thesis
  proof (cases "tri_mod_test demo_env 8192 4 s")
    case (Inl e)
    then show ?thesis using w p(2) by simp
  next
    case (Inr x)
    obtain r o' s' where "x = (r, o', s')" by (cases x)
    then show ?thesis using w Inr by auto
  qed
qed

end
