(* ===== verification/Gc.thy ===== *)
theory Gc
  imports Prelude
begin

text \<open>
  The conservative mark-and-sweep collector of \<open>src/wlgc.h\<close> and \<open>src/wlgc.c\<close>: a chained hash table of
  the blocks handed out, a marking phase that follows every 8-byte word of the stack and of the blocks
  found, and a sweep that gives the unmarked blocks back.

  The C library it calls (\<open>malloc\<close>, \<open>calloc\<close>, \<open>realloc\<close>, \<open>free\<close>) is the argument \<open>A\<close>; theory
  \<open>Gc_Correct\<close> puts \<open>src/wlmalloc.c\<close> there. The table's nodes are records by their address
  (\<open>alloc_at\<close>), the table is the array \<open>allocs\<close>. The stack is ordinary memory: \<open>tos\<close> is the stack pointer
  that \<open>gc_mark\<close> reads, and \<open>setjmp\<close> has stored the registers above it.
\<close>

record 's libc =
  lib_malloc :: "'s \<Rightarrow> size_t \<Rightarrow> (addr \<times> 's) outcome"
  lib_calloc :: "'s \<Rightarrow> size_t \<Rightarrow> size_t \<Rightarrow> (addr \<times> 's) outcome"
  lib_realloc :: "'s \<Rightarrow> addr \<Rightarrow> size_t \<Rightarrow> (addr \<times> 's) outcome"
  lib_free :: "'s \<Rightarrow> addr \<Rightarrow> 's outcome"
  lib_bytes :: "'s \<Rightarrow> bytes"

record alloc_t =
  blk :: addr
  size_tag :: size_t
  chain_next :: addr

record 's gc_t =
  lib :: 's
  alloc_at :: "addr \<Rightarrow> alloc_t"
  bos :: addr
  allocs_addr :: addr
  allocs :: "addr list"
  capacity :: size_t
  gc_size :: size_t
  sweep_limit :: size_t
  gc_cnt :: size_t

definition sizeof_alloc :: size_t where [layout]: "sizeof_alloc = 24"
definition sizeof_ptr :: size_t where [layout]: "sizeof_ptr = 8"
definition DEFAULT_CAPACITY :: size_t where [layout]: "DEFAULT_CAPACITY = 4096"

definition upd_alloc :: "addr \<Rightarrow> (alloc_t \<Rightarrow> alloc_t) \<Rightarrow> 's gc_t \<Rightarrow> 's gc_t" where
  "upd_alloc a f G = G\<lparr>alloc_at := (alloc_at G)(a := f (alloc_at G a))\<rparr>"

subsection \<open>The hash table\<close>

definition hash_func :: "64 word \<Rightarrow> 64 word" where
  "hash_func key0 =
     (let key1 = (NOT key0) + push_bit 21 key0;
          key2 = key1 XOR drop_bit 24 key1;
          key3 = (key2 + push_bit 3 key2) + push_bit 8 key2;
          key4 = key3 XOR drop_bit 14 key3;
          key5 = (key4 + push_bit 2 key4) + push_bit 4 key4;
          key6 = key5 XOR drop_bit 28 key5
      in key6 + push_bit 31 key6)"

text \<open>\<open>uint32_t index = hash_func((uint64_t)p) % gc.capacity\<close>.\<close>

definition bucket :: "size_t \<Rightarrow> addr \<Rightarrow> nat" where
  "bucket cap p = unat (ucast (hash_func (of_nat p) mod cap) :: u32)"

partial_function (option) search_chain :: "(addr \<Rightarrow> alloc_t) \<Rightarrow> addr \<Rightarrow> addr \<Rightarrow> addr option" where
  "search_chain N ret p =
     (if ret = NULL then Some NULL
      else if blk (N ret) = p then Some ret
      else search_chain N (chain_next (N ret)) p)"

definition search :: "'s gc_t \<Rightarrow> addr \<Rightarrow> addr option" where
  "search G p =
     Option.bind (array_get (allocs G) (bucket (capacity G) p)) (\<lambda>a. search_chain (alloc_at G) a p)"

text \<open>\<open>register_alloc\<close>: a new node at the front of its chain; a failing \<open>malloc\<close> is not tested.\<close>

definition register_alloc :: "'s libc \<Rightarrow> 's gc_t \<Rightarrow> addr \<Rightarrow> size_t \<Rightarrow> 's gc_t outcome" where
  "register_alloc A G p sz =
     (if p = NULL then Inr G
      else bindE (lib_malloc A (lib G) sizeof_alloc) (\<lambda>(alloc, s).
        if alloc = NULL then Inl Undefined
        else (let i = bucket (capacity G) p
              in bindE (from_option (array_get (allocs G) i)) (\<lambda>a.
                 Inr (G\<lparr>lib := s,
                        alloc_at := (alloc_at G)(alloc := \<lparr>blk = p, size_tag = sz, chain_next = a\<rparr>),
                        allocs := (allocs G)[i := alloc],
                        gc_size := gc_size G + 1\<rparr>)))))"

text \<open>
  The loop of \<open>gc_free_alloc\<close> that walks a chain with two pointers; it returns the nodes and where \<open>p\<close>
  and \<open>q\<close> stand at its end.
\<close>

partial_function (option) unlink_loop ::
  "(addr \<Rightarrow> alloc_t) \<Rightarrow> addr \<Rightarrow> addr \<Rightarrow> addr \<Rightarrow> ((addr \<Rightarrow> alloc_t) \<times> addr \<times> addr) option" where
  "unlink_loop N alloc p q =
     (if q = NULL then Some (N, p, q)
      else if q = alloc then Some (N(p := (N p)\<lparr>chain_next := chain_next (N q)\<rparr>), p, q)
      else unlink_loop N alloc q (chain_next (N q)))"

definition unlink_alloc :: "'s gc_t \<Rightarrow> addr \<Rightarrow> 's gc_t outcome" where
  "unlink_alloc G alloc =
     (let i = bucket (capacity G) (blk (alloc_at G alloc))
      in bindE (from_option (array_get (allocs G) i)) (\<lambda>p.
         if p = alloc then Inr (G\<lparr>allocs := (allocs G)[i := chain_next (alloc_at G alloc)]\<rparr>)
         else if p = NULL then Inl Undefined
         else bindE (from_option (unlink_loop (alloc_at G) alloc p (chain_next (alloc_at G p)))) (\<lambda>(N, _, _).
              Inr (G\<lparr>alloc_at := N\<rparr>))))"

definition gc_free_alloc :: "'s libc \<Rightarrow> 's gc_t \<Rightarrow> addr \<Rightarrow> 's gc_t outcome" where
  "gc_free_alloc A G alloc =
     (if alloc = NULL then Inr G
      else bindE (unlink_alloc G alloc) (\<lambda>G1.
           bindE (lib_free A (lib G1) (blk (alloc_at G1 alloc))) (\<lambda>s1.
           bindE (lib_free A s1 alloc) (\<lambda>s2.
           Inr (G1\<lparr>lib := s2, gc_size := gc_size G1 - 1, gc_cnt := gc_cnt G1 + 1\<rparr>)))))"

subsection \<open>Resizing\<close>

text \<open>Moving one chain into the new table, node by node.\<close>

partial_function (option) rehash_chain ::
  "size_t \<Rightarrow> addr \<Rightarrow> (addr \<Rightarrow> alloc_t) \<times> addr list \<Rightarrow> ((addr \<Rightarrow> alloc_t) \<times> addr list) option" where
  "rehash_chain new_cap alloc NT =
     (case NT of (N, T) \<Rightarrow>
      if alloc = NULL then Some (N, T)
      else (let i = unat (ucast (hash_func (of_nat (blk (N alloc))) AND (new_cap - 1)) :: u32)
            in Option.bind (array_get T i) (\<lambda>a.
               rehash_chain new_cap (chain_next (N alloc))
                 (N(alloc := (N alloc)\<lparr>chain_next := a\<rparr>), T[i := alloc]))))"

fun rehash_all :: "size_t \<Rightarrow> addr list \<Rightarrow> (addr \<Rightarrow> alloc_t) \<times> addr list \<Rightarrow> ((addr \<Rightarrow> alloc_t) \<times> addr list) option" where
  "rehash_all new_cap [] NT = Some NT"
| "rehash_all new_cap (alloc # old) NT = Option.bind (rehash_chain new_cap alloc NT) (rehash_all new_cap old)"

definition gc_hash_resize :: "'s libc \<Rightarrow> 's gc_t \<Rightarrow> 's gc_t outcome" where
  "gc_hash_resize A G =
     (let new_cap = capacity G * 2
      in bindE (lib_calloc A (lib G) new_cap sizeof_ptr) (\<lambda>(new_allocs, s1).
         if new_allocs = NULL then Inl Undefined
         else bindE (from_option (rehash_all new_cap (allocs G) (alloc_at G, replicate (unat new_cap) NULL))) (\<lambda>(N, T).
              bindE (lib_free A s1 (allocs_addr G)) (\<lambda>s2.
              Inr (G\<lparr>lib := s2, alloc_at := N, allocs_addr := new_allocs, allocs := T, capacity := new_cap,
                     sweep_limit := new_cap div 2\<rparr>)))))"

text \<open>
  The triggers. \<open>SWEEP_FACTOR\<close> is 0.5. \<open>LOAD_FACTOR\<close> is the double nearest to 0.7, which is
  6305039478318694 / 2^53; a capacity is a power of two, so \<open>capacity * LOAD_FACTOR\<close> is exact.
\<close>

definition gc_need_collect :: "'s gc_t \<Rightarrow> bool" where
  "gc_need_collect G \<longleftrightarrow> gc_size G > sweep_limit G"

definition gc_need_resize :: "'s gc_t \<Rightarrow> bool" where
  "gc_need_resize G \<longleftrightarrow> unat (gc_size G) * 2 ^ 53 > unat (capacity G) * 6305039478318694"

subsection \<open>Marking\<close>

definition marked :: "alloc_t \<Rightarrow> bool" where
  "marked a \<longleftrightarrow> size_tag a AND 1 \<noteq> 0"

definition set_mark :: "alloc_t \<Rightarrow> alloc_t" where
  "set_mark a = a\<lparr>size_tag := size_tag a OR 1\<rparr>"

definition clear_mark :: "alloc_t \<Rightarrow> alloc_t" where
  "clear_mark a = a\<lparr>size_tag := size_tag a AND NOT 1\<rparr>"

text \<open>The addresses from \<open>p1\<close> to \<open>p2\<close>, the last one whose 8-byte word lies in the block.\<close>

definition scan_range :: "alloc_t \<Rightarrow> addr list" where
  "scan_range a = [blk a ..< blk a + unat (size_tag a AND NOT 1) + 1 - 8]"

text \<open>
  \<open>gc_mark_alloc\<close> and the loop in its body; the first argument bounds the depth of the recursion, and
  the result is \<open>None\<close> when it does not suffice (or when a search does not end).
\<close>

fun gc_mark_alloc :: "'s libc \<Rightarrow> nat \<Rightarrow> 's gc_t \<Rightarrow> addr \<Rightarrow> 's gc_t option"
and mark_words :: "'s libc \<Rightarrow> nat \<Rightarrow> 's gc_t \<Rightarrow> addr list \<Rightarrow> 's gc_t option" where
  "gc_mark_alloc A 0 G alloc = None"
| "gc_mark_alloc A (Suc d) G alloc =
     (if alloc \<noteq> NULL \<and> \<not> marked (alloc_at G alloc)
      then mark_words A d (upd_alloc alloc set_mark G) (scan_range (set_mark (alloc_at G alloc)))
      else Some G)"
| "mark_words A d G [] = Some G"
| "mark_words A d G (q # qs) =
     Option.bind (search G (unat (load_u64 (lib_bytes A (lib G)) q))) (\<lambda>alloc.
       if alloc \<noteq> NULL then Option.bind (gc_mark_alloc A d G alloc) (\<lambda>G1. mark_words A d G1 qs)
       else mark_words A d G qs)"

definition gc_mark :: "'s libc \<Rightarrow> nat \<Rightarrow> addr \<Rightarrow> 's gc_t \<Rightarrow> 's gc_t option" where
  "gc_mark A d tos G = mark_words A d G [tos ..< bos G + 1]"

subsection \<open>Sweeping\<close>

partial_function (option) sweep_chain :: "'s libc \<Rightarrow> addr \<Rightarrow> 's gc_t \<Rightarrow> 's gc_t outcome option" where
  "sweep_chain A alloc G =
     (if alloc = NULL then Some (Inr G)
      else if marked (alloc_at G alloc)
      then sweep_chain A (chain_next (alloc_at G alloc)) (upd_alloc alloc clear_mark G)
      else (case gc_free_alloc A G alloc of
              Inl e \<Rightarrow> Some (Inl e)
            | Inr G1 \<Rightarrow> sweep_chain A (chain_next (alloc_at G alloc)) G1))"

fun sweep_buckets :: "'s libc \<Rightarrow> nat list \<Rightarrow> 's gc_t \<Rightarrow> 's gc_t outcome" where
  "sweep_buckets A [] G = Inr G"
| "sweep_buckets A (i # is) G =
     bindE (from_option (array_get (allocs G) i)) (\<lambda>alloc.
     bindE (case sweep_chain A alloc G of None \<Rightarrow> Inl Undefined | Some r \<Rightarrow> r) (sweep_buckets A is))"

definition gc_sweep :: "'s libc \<Rightarrow> 's gc_t \<Rightarrow> 's gc_t outcome" where
  "gc_sweep A G =
     (if gc_size G = 0 then Inr G
      else bindE (sweep_buckets A [0..<unat (capacity G)] G) (\<lambda>G1.
           if gc_need_collect G1 \<or> gc_need_resize G1 then gc_hash_resize A G1 else Inr G1))"

definition gc_collect :: "'s libc \<Rightarrow> nat \<Rightarrow> addr \<Rightarrow> 's gc_t \<Rightarrow> 's gc_t outcome" where
  "gc_collect A d tos G = bindE (from_option (gc_mark A d tos G)) (gc_sweep A)"

subsection \<open>The interface\<close>

definition gc_init :: "'s libc \<Rightarrow> addr \<Rightarrow> 's gc_t \<Rightarrow> 's gc_t outcome" where
  "gc_init A frame G =
     bindE (lib_calloc A (lib G) DEFAULT_CAPACITY sizeof_ptr) (\<lambda>(t, s).
       Inr (G\<lparr>lib := s, bos := frame, capacity := DEFAULT_CAPACITY, allocs_addr := t,
              allocs := (if t = NULL then [] else replicate (unat DEFAULT_CAPACITY) NULL),
              gc_size := 0, sweep_limit := DEFAULT_CAPACITY div 2, gc_cnt := 0\<rparr>))"

definition round8 :: "size_t \<Rightarrow> size_t" where
  "round8 x = (x + 8 - 1) div 8 * 8"

definition collect_if_needed :: "'s libc \<Rightarrow> nat \<Rightarrow> addr \<Rightarrow> 's gc_t \<Rightarrow> 's gc_t outcome" where
  "collect_if_needed A d tos G = (if gc_need_collect G then gc_collect A d tos G else Inr G)"

definition gc_malloc :: "'s libc \<Rightarrow> nat \<Rightarrow> addr \<Rightarrow> 's gc_t \<Rightarrow> size_t \<Rightarrow> (addr \<times> 's gc_t) outcome" where
  "gc_malloc A d tos G nbytes =
     (if nbytes = 0 then Inr (NULL, G)
      else bindE (collect_if_needed A d tos G) (\<lambda>G1.
           bindE (lib_malloc A (lib G1) (round8 nbytes)) (\<lambda>(ret, s).
           bindE (register_alloc A (G1\<lparr>lib := s\<rparr>) ret (round8 nbytes)) (\<lambda>G2. Inr (ret, G2)))))"

definition gc_calloc :: "'s libc \<Rightarrow> nat \<Rightarrow> addr \<Rightarrow> 's gc_t \<Rightarrow> size_t \<Rightarrow> size_t \<Rightarrow> (addr \<times> 's gc_t) outcome" where
  "gc_calloc A d tos G nmemb nbytes =
     (if nmemb = 0 \<or> nbytes = 0 then Inr (NULL, G)
      else bindE (collect_if_needed A d tos G) (\<lambda>G1.
           bindE (lib_calloc A (lib G1) nmemb (round8 nbytes)) (\<lambda>(ret, s).
           bindE (register_alloc A (G1\<lparr>lib := s\<rparr>) ret (round8 nbytes * nmemb)) (\<lambda>G2. Inr (ret, G2)))))"

definition gc_realloc :: "'s libc \<Rightarrow> nat \<Rightarrow> addr \<Rightarrow> 's gc_t \<Rightarrow> addr \<Rightarrow> size_t \<Rightarrow> (addr \<times> 's gc_t) outcome" where
  "gc_realloc A d tos G ptr nbytes =
     (if nbytes = 0 then Inr (NULL, G)
      else bindE (collect_if_needed A d tos G) (\<lambda>G1.
           bindE (lib_realloc A (lib G1) ptr (round8 nbytes)) (\<lambda>(ret, s).
           bindE (register_alloc A (G1\<lparr>lib := s\<rparr>) ret (round8 nbytes)) (\<lambda>G2. Inr (ret, G2)))))"

definition gc_free :: "'s libc \<Rightarrow> 's gc_t \<Rightarrow> addr \<Rightarrow> 's gc_t outcome" where
  "gc_free A G ptr =
     (if ptr = NULL then Inr G
      else bindE (from_option (search G ptr)) (\<lambda>alloc.
           if alloc \<noteq> NULL then gc_free_alloc A G alloc
           else bindE (lib_free A (lib G) ptr) (\<lambda>s. Inr (G\<lparr>lib := s\<rparr>))))"

definition gc_collected :: "'s gc_t \<Rightarrow> size_t" where
  "gc_collected G = gc_cnt G"

end
