(* ===== verification/Gc_Table.thy ===== *)
theory Gc_Table
  imports Gc
begin

text \<open>
  The hash table of the collector: \<open>tbl_ok G ch\<close> says that the chain in bucket \<open>i\<close> is the list of nodes
  \<open>ch i\<close>, that every node is in the bucket its block hashes to, and that no block is entered twice.
\<close>

subsection \<open>The hash function\<close>

lemma bucket_less:
  assumes "cap \<noteq> 0"
  shows "bucket cap p < unat cap"
proof -
  have "0 < unat cap" using assms by (simp add: unat_gt_0)
  then have "unat (hash_func (of_nat p) mod cap) < unat cap" by (simp add: unat_mod)
  moreover have "bucket cap p \<le> unat (hash_func (of_nat p) mod cap)"
    by (simp add: bucket_def unsigned_ucast_eq take_bit_nat_less_eq_self)
  ultimately show ?thesis by linarith
qed

text \<open>The index that \<open>gc_hash_resize\<close> computes with a mask is the one that \<open>search\<close> computes with \<open>%\<close>.\<close>

lemma mask_bucket:
  assumes "cap = 2 ^ k" "k < 64"
  shows "unat (ucast (hash_func (of_nat p) AND (cap - 1)) :: u32) = bucket cap p"
proof -
  have "cap - 1 = mask k" using assms by (simp add: mask_eq_exp_minus_1)
  moreover have "hash_func (of_nat p) mod cap = take_bit k (hash_func (of_nat p))"
    using assms by (simp add: take_bit_eq_mod)
  ultimately show ?thesis by (simp add: bucket_def take_bit_eq_mask)
qed

subsection \<open>Chains\<close>

fun chain :: "(addr \<Rightarrow> alloc_t) \<Rightarrow> addr \<Rightarrow> addr list \<Rightarrow> bool" where
  "chain N a [] \<longleftrightarrow> a = NULL"
| "chain N a (x # xs) \<longleftrightarrow> a = x \<and> x \<noteq> NULL \<and> chain N (chain_next (N x)) xs"

lemma chain_not_null: "chain N a xs \<Longrightarrow> NULL \<notin> set xs"
  by (induction xs arbitrary: a) auto

lemma chain_null [simp]: "chain N NULL xs \<longleftrightarrow> xs = []"
  by (cases xs) auto

lemma chain_cong:
  "chain N a xs \<Longrightarrow> (\<And>x. x \<in> set xs \<Longrightarrow> chain_next (N' x) = chain_next (N x)) \<Longrightarrow> chain N' a xs"
  by (induction xs arbitrary: a) auto

lemma search_chain_spec:
  "chain N a xs \<Longrightarrow> \<exists>r. search_chain N a p = Some r \<and>
    (r = NULL \<and> (\<forall>x \<in> set xs. blk (N x) \<noteq> p) \<or> r \<in> set xs \<and> r \<noteq> NULL \<and> blk (N r) = p)"
proof (induction xs arbitrary: a)
  case Nil
  then show ?case by (simp add: search_chain.simps)
next
  case (Cons x xs)
  then have a: "a = x" "x \<noteq> NULL" "chain N (chain_next (N x)) xs" by auto
  show ?case
  proof (cases "blk (N x) = p")
    case True
    with a show ?thesis by (auto simp: search_chain.simps [of N x])
  next
    case False
    with a Cons.IH [OF a(3)] show ?thesis by (auto simp: search_chain.simps [of N x])
  qed
qed

text \<open>Taking a node out of the tail of a chain.\<close>

lemma unlink_loop_spec:
  "chain N (chain_next (N p)) ys \<Longrightarrow> distinct (p # ys) \<Longrightarrow> alloc \<in> set ys \<Longrightarrow>
   \<exists>N' p' q'. unlink_loop N alloc p (chain_next (N p)) = Some (N', p', q') \<and>
     chain N' (chain_next (N' p)) (remove1 alloc ys) \<and>
     (\<forall>x. blk (N' x) = blk (N x) \<and> size_tag (N' x) = size_tag (N x) \<and>
        (x \<notin> set (p # ys) \<longrightarrow> N' x = N x)) \<and> chain_next (N' alloc) = chain_next (N alloc)"
proof (induction ys arbitrary: p)
  case (Cons y ys)
  then have y: "chain_next (N p) = y" "y \<noteq> NULL" "chain N (chain_next (N y)) ys" by auto
  show ?case
  proof (cases "y = alloc")
    case True
    define M where "M = N(p := (N p)\<lparr>chain_next := chain_next (N y)\<rparr>)"
    have "chain M (chain_next (N y)) ys" using Cons.prems(2) by (intro chain_cong [OF y(3)]) (auto simp: M_def)
    then have "chain M (chain_next (M p)) (remove1 alloc (y # ys))" using True by (simp add: M_def)
    moreover have "unlink_loop N alloc p y = Some (M, p, y)"
      using y True by (simp add: unlink_loop.simps M_def)
    moreover have "\<forall>x. blk (M x) = blk (N x) \<and> size_tag (M x) = size_tag (N x) \<and> (x \<notin> set (p # y # ys) \<longrightarrow> M x = N x)"
      by (simp add: M_def)
    moreover have "chain_next (M alloc) = chain_next (N alloc)" using True Cons.prems(2) by (auto simp: M_def)
    ultimately show ?thesis unfolding y(1) by blast
  next
    case False
    then have "alloc \<in> set ys" using Cons.prems(3) by simp
    with Cons.IH [OF y(3)] Cons.prems(2) obtain N' p' q' where
      ih: "unlink_loop N alloc y (chain_next (N y)) = Some (N', p', q')"
        "chain N' (chain_next (N' y)) (remove1 alloc ys)"
        "\<forall>x. blk (N' x) = blk (N x) \<and> size_tag (N' x) = size_tag (N x) \<and> (x \<notin> set (y # ys) \<longrightarrow> N' x = N x)"
        "chain_next (N' alloc) = chain_next (N alloc)" by auto
    have "unlink_loop N alloc p y = Some (N', p', q')"
      using y False ih(1) by (simp add: unlink_loop.simps [of N alloc p y])
    moreover have "N' p = N p" using ih(3) Cons.prems(2) by auto
    then have "chain N' (chain_next (N' p)) (remove1 alloc (y # ys))" using ih(2) False y by simp
    moreover have "\<forall>x. blk (N' x) = blk (N x) \<and> size_tag (N' x) = size_tag (N x) \<and>
        (x \<notin> set (p # y # ys) \<longrightarrow> N' x = N x)" using ih(3) by simp
    ultimately show ?thesis unfolding y(1) using ih(4) by blast
  qed
qed simp

subsection \<open>Tables\<close>

definition nodes :: "'s gc_t \<Rightarrow> (nat \<Rightarrow> addr list) \<Rightarrow> addr set" where
  "nodes G ch = (\<Union>i<unat (capacity G). set (ch i))"

definition tbl_ok :: "'s gc_t \<Rightarrow> (nat \<Rightarrow> addr list) \<Rightarrow> bool" where
  "tbl_ok G ch \<longleftrightarrow>
     capacity G \<noteq> 0 \<and> length (allocs G) = unat (capacity G) \<and>
     (\<forall>i<unat (capacity G).
        chain (alloc_at G) (allocs G ! i) (ch i) \<and> distinct (ch i) \<and>
        (\<forall>x \<in> set (ch i). bucket (capacity G) (blk (alloc_at G x)) = i)) \<and>
     (\<forall>x \<in> nodes G ch. blk (alloc_at G x) \<noteq> NULL) \<and>
     inj_on (\<lambda>x. blk (alloc_at G x)) (nodes G ch)"

lemma tbl_okD:
  assumes "tbl_ok G ch"
  shows "capacity G \<noteq> 0" "0 < unat (capacity G)" "length (allocs G) = unat (capacity G)"
    "i < unat (capacity G) \<Longrightarrow> chain (alloc_at G) (allocs G ! i) (ch i)"
    "i < unat (capacity G) \<Longrightarrow> distinct (ch i)"
    "i < unat (capacity G) \<Longrightarrow> x \<in> set (ch i) \<Longrightarrow> bucket (capacity G) (blk (alloc_at G x)) = i"
    "x \<in> nodes G ch \<Longrightarrow> blk (alloc_at G x) \<noteq> NULL"
    "inj_on (\<lambda>x. blk (alloc_at G x)) (nodes G ch)"
  using assms by (auto simp: tbl_ok_def unat_gt_0)

lemma tbl_bucket: "tbl_ok G ch \<Longrightarrow> bucket (capacity G) p < unat (capacity G)"
  by (intro bucket_less tbl_okD)

lemma nodes_in_bucket:
  assumes "tbl_ok G ch" "x \<in> nodes G ch"
  shows "x \<in> set (ch (bucket (capacity G) (blk (alloc_at G x))))"
  using assms tbl_okD(6) [OF assms(1)] by (auto simp: nodes_def)

lemma nodes_not_null: "tbl_ok G ch \<Longrightarrow> NULL \<notin> nodes G ch"
  using tbl_okD(4) chain_not_null by (fastforce simp: nodes_def)

lemma finite_nodes [simp]: "finite (nodes G ch)"
  by (simp add: nodes_def)

lemma bucket_disjoint:
  assumes "tbl_ok G ch" "i < unat (capacity G)" "j < unat (capacity G)" "i \<noteq> j"
  shows "set (ch i) \<inter> set (ch j) = {}"
  using tbl_okD(6) [OF assms(1)] assms(2-4) by blast

lemma search_spec:
  assumes "tbl_ok G ch"
  shows "\<exists>r. search G p = Some r \<and>
    (r = NULL \<and> (\<forall>x \<in> nodes G ch. blk (alloc_at G x) \<noteq> p) \<or> r \<in> nodes G ch \<and> r \<noteq> NULL \<and> blk (alloc_at G r) = p)"
proof -
  let ?i = "bucket (capacity G) p"
  have i: "?i < unat (capacity G)" by (rule tbl_bucket [OF assms])
  obtain r where r: "search_chain (alloc_at G) (allocs G ! ?i) p = Some r"
    "r = NULL \<and> (\<forall>x \<in> set (ch ?i). blk (alloc_at G x) \<noteq> p) \<or> r \<in> set (ch ?i) \<and> r \<noteq> NULL \<and> blk (alloc_at G r) = p"
    using search_chain_spec [OF tbl_okD(4) [OF assms i]] by blast
  have "search G p = Some r" using r(1) i tbl_okD(3) [OF assms] by (simp add: search_def)
  moreover have "\<forall>x \<in> nodes G ch. blk (alloc_at G x) \<noteq> p" if "\<forall>x \<in> set (ch ?i). blk (alloc_at G x) \<noteq> p"
    using that nodes_in_bucket [OF assms] by fastforce
  ultimately show ?thesis using r(2) i by (auto simp: nodes_def)
qed

lemma search_unique:
  assumes "tbl_ok G ch" "x \<in> nodes G ch"
  shows "search G (blk (alloc_at G x)) = Some x"
  using search_spec [OF assms(1), of "blk (alloc_at G x)"] assms(2) inj_onD [OF tbl_okD(8) [OF assms(1)]]
  by metis

lemma search_NULL:
  assumes "tbl_ok G ch" "p \<notin> (\<lambda>x. blk (alloc_at G x)) ` nodes G ch"
  shows "search G p = Some NULL"
  using search_spec [OF assms(1), of p] assms(2) by auto

subsection \<open>Changing the table\<close>

lemma tbl_ok_same:
  assumes "tbl_ok G ch" "capacity G' = capacity G" "allocs G' = allocs G"
    "\<And>x. x \<in> nodes G ch \<Longrightarrow> blk (alloc_at G' x) = blk (alloc_at G x) \<and> chain_next (alloc_at G' x) = chain_next (alloc_at G x)"
  shows "tbl_ok G' ch" "nodes G' ch = nodes G ch"
proof -
  show n: "nodes G' ch = nodes G ch" using assms(2) by (simp add: nodes_def)
  have m: "x \<in> nodes G ch" if "i < unat (capacity G)" "x \<in> set (ch i)" for i x
    using that by (auto simp: nodes_def)
  have "chain (alloc_at G') (allocs G ! i) (ch i)" if "i < unat (capacity G)" for i
    using assms(4) m [OF that] by (intro chain_cong [OF tbl_okD(4) [OF assms(1) that]]) auto
  moreover have "inj_on (\<lambda>x. blk (alloc_at G' x)) (nodes G ch)"
    using tbl_okD(8) [OF assms(1)] assms(4) by (simp add: inj_on_def)
  ultimately show "tbl_ok G' ch"
    using assms(1-3) tbl_okD [OF assms(1)] assms(4) m n unfolding tbl_ok_def by simp
qed

text \<open>One bucket \<open>i\<close> changes to hold \<open>ys\<close>.\<close>

lemma tbl_ok_bucket:
  assumes t: "tbl_ok G ch" and i: "i < unat (capacity G)"
    and G': "capacity G' = capacity G" "length (allocs G') = length (allocs G)"
      "\<And>j. j \<noteq> i \<Longrightarrow> j < unat (capacity G) \<Longrightarrow> allocs G' ! j = allocs G ! j"
      "\<And>x. x \<in> nodes G ch - set (ch i) \<Longrightarrow> alloc_at G' x = alloc_at G x"
    and ys: "chain (alloc_at G') (allocs G' ! i) ys" "distinct ys"
      "\<And>x. x \<in> set ys \<Longrightarrow> bucket (capacity G) (blk (alloc_at G' x)) = i \<and> blk (alloc_at G' x) \<noteq> NULL"
      "inj_on (\<lambda>x. blk (alloc_at G' x)) (nodes G ch - set (ch i) \<union> set ys)"
  shows "tbl_ok G' (ch(i := ys))" "nodes G' (ch(i := ys)) = nodes G ch - set (ch i) \<union> set ys"
proof -
  have o: "x \<in> nodes G ch - set (ch i)" if "j < unat (capacity G)" "j \<noteq> i" "x \<in> set (ch j)" for j x
    using that bucket_disjoint [OF t that(1) i that(2)] by (auto simp: nodes_def)
  show n: "nodes G' (ch(i := ys)) = nodes G ch - set (ch i) \<union> set ys"
    unfolding nodes_def G'(1)
  proof (intro equalityI subsetI)
    fix x assume "x \<in> (\<Union>j<unat (capacity G). set ((ch(i := ys)) j))"
    then obtain j where "j < unat (capacity G)" "x \<in> set ((ch(i := ys)) j)" by blast
    then show "x \<in> (\<Union>j<unat (capacity G). set (ch j)) - set (ch i) \<union> set ys"
      using o [of j x] by (cases "j = i") (auto simp: nodes_def)
  next
    fix x assume "x \<in> (\<Union>j<unat (capacity G). set (ch j)) - set (ch i) \<union> set ys"
    then show "x \<in> (\<Union>j<unat (capacity G). set ((ch(i := ys)) j))"
      using i by (auto split: if_splits)
  qed
  have "chain (alloc_at G') (allocs G' ! j) (ch j)" if j: "j < unat (capacity G)" "j \<noteq> i" for j
  proof -
    have "chain (alloc_at G) (allocs G' ! j) (ch j)" using tbl_okD(4) [OF t j(1)] G'(3) [OF j(2,1)] by simp
    then show ?thesis using G'(4) o [OF j] by (elim chain_cong) simp
  qed
  moreover have "bucket (capacity G) (blk (alloc_at G' x)) = j"
    if j: "j < unat (capacity G)" "j \<noteq> i" "x \<in> set (ch j)" for j x
    using tbl_okD(6) [OF t j(1,3)] G'(4) o [OF j] by simp
  moreover have "blk (alloc_at G' x) \<noteq> NULL" if "x \<in> nodes G ch - set (ch i) \<union> set ys" for x
    using that ys(3) G'(4) tbl_okD(7) [OF t] by auto
  ultimately show "tbl_ok G' (ch(i := ys))"
    using tbl_okD(1-3,5) [OF t] ys G'(1,2) unfolding tbl_ok_def n by simp
qed

lemma register_ok:
  assumes t: "tbl_ok G ch" and p: "p \<noteq> NULL" "p \<notin> (\<lambda>x. blk (alloc_at G x)) ` nodes G ch"
    and m: "lib_malloc A (lib G) sizeof_alloc = Inr (a, s)" "a \<noteq> NULL" "a \<notin> nodes G ch"
  defines "i \<equiv> bucket (capacity G) p"
  shows "\<exists>G'. register_alloc A G p sz = Inr G' \<and> tbl_ok G' (ch(i := a # ch i)) \<and>
    nodes G' (ch(i := a # ch i)) = insert a (nodes G ch) \<and> lib G' = s \<and>
    alloc_at G' = (alloc_at G)(a := \<lparr>blk = p, size_tag = sz, chain_next = allocs G ! i\<rparr>) \<and>
    gc_size G' = gc_size G + 1 \<and> capacity G' = capacity G \<and> allocs_addr G' = allocs_addr G \<and>
    sweep_limit G' = sweep_limit G \<and> gc_cnt G' = gc_cnt G \<and> bos G' = bos G"
proof -
  have i: "i < unat (capacity G)" unfolding i_def by (rule tbl_bucket [OF t])
  note len = tbl_okD(3) [OF t]
  let ?N = "(alloc_at G)(a := \<lparr>blk = p, size_tag = sz, chain_next = allocs G ! i\<rparr>)"
  let ?G = "G\<lparr>lib := s, alloc_at := ?N, allocs := (allocs G)[i := a], gc_size := gc_size G + 1\<rparr>"
  have sub: "set (ch i) \<subseteq> nodes G ch" using i by (auto simp: nodes_def)
  have r: "register_alloc A G p sz = Inr ?G"
    using p m i len by (simp add: register_alloc_def Let_def i_def)
  have c: "chain ?N (allocs G ! i) (ch i)"
    using m(3) sub by (intro chain_cong [OF tbl_okD(4) [OF t i]]) auto
  have fresh: "blk (alloc_at G x) \<noteq> p" if "x \<in> nodes G ch" for x using that p(2) by auto
  have inj: "inj_on (\<lambda>x. blk (?N x)) (insert a (nodes G ch))"
    using tbl_okD(8) [OF t] m(3) fresh by (auto simp: inj_on_def)
  have eq: "nodes G ch - set (ch i) \<union> set (a # ch i) = insert a (nodes G ch)" using sub by auto
  have "tbl_ok ?G (ch(i := a # ch i))"
    "nodes ?G (ch(i := a # ch i)) = nodes G ch - set (ch i) \<union> set (a # ch i)"
    by (rule tbl_ok_bucket [OF t i];
        use c i len m p tbl_okD(5,6,7) [OF t] sub inj eq in \<open>auto simp: i_def\<close>)+
  with r eq show ?thesis by simp
qed

text \<open>The fields of \<open>gc\<close> beside the table and its nodes.\<close>

definition same_fields :: "'s gc_t \<Rightarrow> 's gc_t \<Rightarrow> bool" where
  "same_fields G G' \<longleftrightarrow> capacity G' = capacity G \<and> allocs_addr G' = allocs_addr G \<and>
     sweep_limit G' = sweep_limit G \<and> bos G' = bos G"

lemma same_fields_refl [simp]: "same_fields G G"
  by (simp add: same_fields_def)

lemma same_fields_trans: "same_fields G G' \<Longrightarrow> same_fields G' G'' \<Longrightarrow> same_fields G G''"
  by (simp add: same_fields_def)

lemma unlink_ok:
  assumes t: "tbl_ok G ch" and a: "a \<in> nodes G ch"
  defines "i \<equiv> bucket (capacity G) (blk (alloc_at G a))"
  shows "\<exists>G'. unlink_alloc G a = Inr G' \<and> tbl_ok G' (ch(i := remove1 a (ch i))) \<and>
    nodes G' (ch(i := remove1 a (ch i))) = nodes G ch - {a} \<and> lib G' = lib G \<and> same_fields G G' \<and>
    gc_size G' = gc_size G \<and> gc_cnt G' = gc_cnt G \<and>
    (\<forall>x. blk (alloc_at G' x) = blk (alloc_at G x) \<and> size_tag (alloc_at G' x) = size_tag (alloc_at G x)) \<and>
    chain_next (alloc_at G' a) = chain_next (alloc_at G a)"
proof -
  have i: "i < unat (capacity G)" unfolding i_def by (rule tbl_bucket [OF t])
  note len = tbl_okD(3) [OF t]
  have ai: "a \<in> set (ch i)" using nodes_in_bucket [OF t a] by (simp add: i_def)
  have sub: "set (ch i) \<subseteq> nodes G ch" using i by (auto simp: nodes_def)
  have rm: "nodes G ch - set (ch i) \<union> set (remove1 a (ch i)) = nodes G ch - {a}"
    using ai sub tbl_okD(5) [OF t i] by auto
  have fin: ?thesis if G': "unlink_alloc G a = Inr G'" "lib G' = lib G" "same_fields G G'" "gc_size G' = gc_size G"
      "gc_cnt G' = gc_cnt G" "\<And>x. blk (alloc_at G' x) = blk (alloc_at G x)"
      "\<And>x. size_tag (alloc_at G' x) = size_tag (alloc_at G x)" "chain_next (alloc_at G' a) = chain_next (alloc_at G a)"
      "length (allocs G') = length (allocs G)" "\<And>j. j \<noteq> i \<Longrightarrow> allocs G' ! j = allocs G ! j"
      "\<And>x. x \<notin> set (ch i) \<Longrightarrow> alloc_at G' x = alloc_at G x"
      "chain (alloc_at G') (allocs G' ! i) (remove1 a (ch i))" for G'
  proof -
    have c: "capacity G' = capacity G" using G'(3) by (simp add: same_fields_def)
    have b: "bucket (capacity G) (blk (alloc_at G' x)) = i \<and> blk (alloc_at G' x) \<noteq> NULL"
      if "x \<in> set (remove1 a (ch i))" for x
    proof -
      have "x \<in> set (ch i)" using that set_remove1_subset by fastforce
      then show ?thesis using tbl_okD(6) [OF t i] tbl_okD(7) [OF t] sub G'(6) by auto
    qed
    have inj: "inj_on (\<lambda>x. blk (alloc_at G' x)) (nodes G ch - set (ch i) \<union> set (remove1 a (ch i)))"
      unfolding rm G'(6) by (rule inj_on_subset [OF tbl_okD(8) [OF t]]) auto
    have o: "allocs G' ! j = allocs G ! j" if "j \<noteq> i" "j < unat (capacity G)" for j using G'(10) that by simp
    have n: "alloc_at G' x = alloc_at G x" if "x \<in> nodes G ch - set (ch i)" for x using G'(11) that by simp
    have d: "distinct (remove1 a (ch i))" using tbl_okD(5) [OF t i] by simp
    note tbl_ok_bucket [OF t i c G'(9) o n G'(12) d b inj]
    then show ?thesis unfolding rm using G' by blast
  qed
  have head: "array_get (allocs G) i = Some (allocs G ! i)" using i len by simp
  obtain h zs where ch: "ch i = h # zs" using ai by (cases "ch i") auto
  then have h: "allocs G ! i = h" "h \<noteq> NULL" "chain (alloc_at G) (chain_next (alloc_at G h)) zs"
    using tbl_okD(4) [OF t i] by auto
  have d: "distinct (h # zs)" using tbl_okD(5) [OF t i] ch by simp
  show ?thesis
  proof (cases "h = a")
    case True
    let ?G = "G\<lparr>allocs := (allocs G)[i := chain_next (alloc_at G a)]\<rparr>"
    have "unlink_alloc G a = Inr ?G"
      using True h head by (simp add: unlink_alloc_def Let_def i_def)
    then show ?thesis
      by (rule fin) (use True h ch i len in \<open>auto simp: same_fields_def\<close>)
  next
    case False
    then have "a \<in> set zs" using ai ch by simp
    from unlink_loop_spec [OF h(3) d this] obtain N' p' q' where
      u: "unlink_loop (alloc_at G) a h (chain_next (alloc_at G h)) = Some (N', p', q')"
        "chain N' (chain_next (N' h)) (remove1 a zs)"
        "\<forall>x. blk (N' x) = blk (alloc_at G x) \<and> size_tag (N' x) = size_tag (alloc_at G x) \<and>
          (x \<notin> set (h # zs) \<longrightarrow> N' x = alloc_at G x)"
        "chain_next (N' a) = chain_next (alloc_at G a)" by blast
    have "unlink_alloc G a = Inr (G\<lparr>alloc_at := N'\<rparr>)"
      using False h head u(1) by (simp add: unlink_alloc_def Let_def i_def)
    then show ?thesis
      by (rule fin) (use False h ch u in \<open>auto simp: same_fields_def\<close>)
  qed
qed

end
