(* ===== verification/Gc_Mark.thy ===== *)
theory Gc_Mark
  imports Gc_Table
begin

text \<open>
  The marking phase: \<open>gc_mark\<close> marks exactly the blocks that the words of the stack lead to, directly or
  through the words of other blocks, and a recursion depth above the number of blocks is enough.
\<close>

subsection \<open>Setting marks\<close>

definition mark_all :: "addr set \<Rightarrow> 's gc_t \<Rightarrow> 's gc_t" where
  "mark_all S G = G\<lparr>alloc_at := (\<lambda>x. if x \<in> S then set_mark (alloc_at G x) else alloc_at G x)\<rparr>"

definition marks :: "'s gc_t \<Rightarrow> addr set" where
  "marks G = {x. marked (alloc_at G x)}"

lemma tag_bits:
  fixes w :: size_t
  shows "w AND 1 \<noteq> 0 \<longleftrightarrow> bit w 0" "(w OR 1) AND NOT 1 = w AND NOT 1" "(w OR 1) OR 1 = w OR 1"
    "bit (w OR 1) 0" "\<not> bit (w AND NOT 1) 0" "(w OR 1) AND - 2 = w AND - 2" "\<not> bit (w AND - 2) 0"
proof -
  have n: "NOT 1 = (- 2 :: size_t)" by simp
  show "w AND 1 \<noteq> 0 \<longleftrightarrow> bit w 0" by (simp add: and_one_eq mod_2_eq_odd bit_0)
  show m: "(w OR 1) AND NOT 1 = w AND NOT 1" "(w OR 1) OR 1 = w OR 1"
    by (rule bit_word_eqI, auto simp: bit_simps simp del: not_one_eq)+
  show c: "bit (w OR 1) 0" "\<not> bit (w AND NOT 1) 0" by (auto simp: bit_simps simp del: not_one_eq)
  show "(w OR 1) AND - 2 = w AND - 2" "\<not> bit (w AND - 2) 0" using m(1) c(2) unfolding n by simp_all
qed

lemma mark_simps [simp]:
  "blk (set_mark a) = blk a" "chain_next (set_mark a) = chain_next a" "marked (set_mark a)"
  "set_mark (set_mark a) = set_mark a" "scan_range (set_mark a) = scan_range a"
  "blk (clear_mark a) = blk a" "chain_next (clear_mark a) = chain_next a" "\<not> marked (clear_mark a)"
  by (simp_all add: set_mark_def clear_mark_def marked_def scan_range_def tag_bits)

lemma clear_set_mark: "clear_mark (set_mark a) = clear_mark a"
  by (simp add: set_mark_def clear_mark_def tag_bits)

lemma alloc_at_mark_all: "alloc_at (mark_all S G) x = (if x \<in> S then set_mark (alloc_at G x) else alloc_at G x)"
  by (simp add: mark_all_def)

lemma mark_all_fields [simp]:
  "lib (mark_all S G) = lib G" "capacity (mark_all S G) = capacity G" "allocs (mark_all S G) = allocs G"
  "bos (mark_all S G) = bos G" "gc_size (mark_all S G) = gc_size G" "gc_cnt (mark_all S G) = gc_cnt G"
  "allocs_addr (mark_all S G) = allocs_addr G" "sweep_limit (mark_all S G) = sweep_limit G"
  "gc_t.more (mark_all S G) = gc_t.more G" "same_fields G (mark_all S G)"
  by (simp_all add: mark_all_def same_fields_def)

lemma mark_all_simps [simp]:
  "mark_all S (mark_all T G) = mark_all (S \<union> T) G" "mark_all {} G = G"
  "blk (alloc_at (mark_all S G) x) = blk (alloc_at G x)"
  "chain_next (alloc_at (mark_all S G) x) = chain_next (alloc_at G x)"
  "scan_range (alloc_at (mark_all S G) x) = scan_range (alloc_at G x)"
  "marks (mark_all S G) = marks G \<union> S"
proof -
  show "mark_all S (mark_all T G) = mark_all (S \<union> T) G" "mark_all {} G = G"
    by (rule gc_t.equality; auto simp: alloc_at_mark_all fun_eq_iff)+
qed (auto simp: alloc_at_mark_all marks_def)

lemma upd_alloc_mark: "upd_alloc a set_mark G = mark_all {a} G"
  by (rule gc_t.equality) (auto simp: upd_alloc_def alloc_at_mark_all)

lemma mark_all_tbl [simp]:
  assumes "tbl_ok G ch"
  shows "tbl_ok (mark_all S G) ch" "nodes (mark_all S G) ch = nodes G ch"
  by (rule tbl_ok_same [OF assms]; simp)+

subsection \<open>Reachable blocks\<close>

definition word_at :: "'s libc \<Rightarrow> 's gc_t \<Rightarrow> addr \<Rightarrow> addr" where
  "word_at A G q = unat (load_u64 (lib_bytes A (lib G)) q)"

text \<open>The word at \<open>q\<close> is the address of the block of node \<open>y\<close>.\<close>

definition refers :: "'s libc \<Rightarrow> 's gc_t \<Rightarrow> (nat \<Rightarrow> addr list) \<Rightarrow> addr \<Rightarrow> addr \<Rightarrow> bool" where
  "refers A G ch q y \<longleftrightarrow> y \<in> nodes G ch \<and> word_at A G q = blk (alloc_at G y)"

definition edge :: "'s libc \<Rightarrow> 's gc_t \<Rightarrow> (nat \<Rightarrow> addr list) \<Rightarrow> addr \<Rightarrow> addr \<Rightarrow> bool" where
  "edge A G ch x y \<longleftrightarrow> (\<exists>q \<in> set (scan_range (alloc_at G x)). refers A G ch q y)"

inductive reachable :: "'s libc \<Rightarrow> 's gc_t \<Rightarrow> (nat \<Rightarrow> addr list) \<Rightarrow> addr list \<Rightarrow> addr \<Rightarrow> bool"
  for A G ch roots where
  reach_root: "q \<in> set roots \<Longrightarrow> refers A G ch q y \<Longrightarrow> reachable A G ch roots y"
| reach_edge: "reachable A G ch roots x \<Longrightarrow> edge A G ch x y \<Longrightarrow> reachable A G ch roots y"

lemma reachable_node: "reachable A G ch roots x \<Longrightarrow> x \<in> nodes G ch"
  by (induction rule: reachable.induct) (auto simp: edge_def refers_def)

lemma reachable_mono: "reachable A G ch qs x \<Longrightarrow> set qs \<subseteq> set rs \<Longrightarrow> reachable A G ch rs x"
  by (induction rule: reachable.induct) (auto intro: reachable.intros)

lemma marking_same [simp]:
  assumes "tbl_ok G ch"
  shows "word_at A (mark_all S G) = word_at A G" "refers A (mark_all S G) ch = refers A G ch"
    "edge A (mark_all S G) ch = edge A G ch"
  using assms by (auto simp: word_at_def refers_def edge_def fun_eq_iff)

lemma search_refers:
  assumes "tbl_ok G ch"
  shows "\<exists>r. search G (word_at A G q) = Some r \<and>
    (r = NULL \<and> (\<forall>y. \<not> refers A G ch q y) \<or> r \<noteq> NULL \<and> refers A G ch q r \<and> (\<forall>y. refers A G ch q y \<longrightarrow> y = r))"
proof -
  obtain r where r: "search G (word_at A G q) = Some r"
    "r = NULL \<and> (\<forall>x \<in> nodes G ch. blk (alloc_at G x) \<noteq> word_at A G q) \<or>
     r \<in> nodes G ch \<and> r \<noteq> NULL \<and> blk (alloc_at G r) = word_at A G q"
    using search_spec [OF assms] by blast
  have "y = r" if "r \<in> nodes G ch" "blk (alloc_at G r) = word_at A G q" "refers A G ch q y" for y
    using inj_onD [OF tbl_okD(8) [OF assms]] that unfolding refers_def by metis
  with r show ?thesis unfolding refers_def by metis
qed

subsection \<open>The marking recursion\<close>

text \<open>
  What one call of the recursion has done: it marked a set \<open>S\<close> of nodes, among them \<open>T\<close>, all of them
  reachable from \<open>roots\<close>, and whatever a node of \<open>S\<close> refers to is marked too.
\<close>

definition marked_from :: "'s libc \<Rightarrow> (nat \<Rightarrow> addr list) \<Rightarrow> 's gc_t \<Rightarrow> 's gc_t \<Rightarrow> (addr \<Rightarrow> bool) \<Rightarrow> addr set \<Rightarrow> bool" where
  "marked_from A ch G G' R T \<longleftrightarrow>
     (\<exists>S. G' = mark_all S G \<and> T \<subseteq> marks G \<union> S \<and> (\<forall>x\<in>S. x \<in> nodes G ch \<and> R x) \<and>
       (\<forall>x\<in>S. \<forall>y. edge A G ch x y \<longrightarrow> y \<in> marks G \<union> S))"

definition reach_from :: "'s libc \<Rightarrow> (nat \<Rightarrow> addr list) \<Rightarrow> 's gc_t \<Rightarrow> addr \<Rightarrow> addr \<Rightarrow> bool" where
  "reach_from A ch G a x \<longleftrightarrow> (edge A G ch)\<^sup>*\<^sup>* a x"

lemma reach_words:
  "refers A G ch q a \<Longrightarrow> q \<in> set qs \<Longrightarrow> reach_from A ch G a x \<Longrightarrow> reachable A G ch qs x"
  unfolding reach_from_def
  by (rotate_tac 2, induction rule: rtranclp_induct) (auto intro: reachable.intros)

lemma marked_from_seq:
  assumes t: "tbl_ok G ch" and a: "marked_from A ch G G1 R {a}" and b: "marked_from A ch G1 G2 R' T"
    and RR: "\<And>x. R' x \<Longrightarrow> Q x" "\<And>x. R x \<Longrightarrow> Q x"
  shows "marked_from A ch G G2 Q (insert a T)"
proof -
  obtain S where S: "G1 = mark_all S G" "a \<in> marks G \<union> S" "\<forall>x\<in>S. x \<in> nodes G ch \<and> R x"
    "\<forall>x\<in>S. \<forall>y. edge A G ch x y \<longrightarrow> y \<in> marks G \<union> S"
    using a by (auto simp: marked_from_def)
  obtain S' where S': "G2 = mark_all S' G1" "T \<subseteq> marks G1 \<union> S'" "\<forall>x\<in>S'. x \<in> nodes G ch \<and> R' x"
    "\<forall>x\<in>S'. \<forall>y. edge A G ch x y \<longrightarrow> y \<in> marks G1 \<union> S'"
    using b t S(1) by (auto simp: marked_from_def)
  have "G2 = mark_all (S' \<union> S) G" using S(1) S'(1) by simp
  moreover have "insert a T \<subseteq> marks G \<union> (S' \<union> S)" using S(1,2) S'(2) by auto
  moreover have "\<forall>x\<in>S' \<union> S. x \<in> nodes G ch \<and> Q x" using S(3) S'(3) RR by blast
  moreover have "\<forall>x\<in>S' \<union> S. \<forall>y. edge A G ch x y \<longrightarrow> y \<in> marks G \<union> (S' \<union> S)"
    using S(1,4) S'(4) by (auto simp: S(1))
  ultimately show ?thesis unfolding marked_from_def by blast
qed

text \<open>The nodes that the words at \<open>qs\<close> refer to.\<close>

definition targets :: "'s libc \<Rightarrow> (nat \<Rightarrow> addr list) \<Rightarrow> 's gc_t \<Rightarrow> addr list \<Rightarrow> addr set" where
  "targets A ch G qs = {y. \<exists>q \<in> set qs. refers A G ch q y}"

lemma marking_correct:
  "tbl_ok G ch \<Longrightarrow> a \<in> nodes G ch \<Longrightarrow> gc_mark_alloc A d G a = Some G' \<Longrightarrow>
     marked_from A ch G G' (reach_from A ch G a) {a}"
  "tbl_ok G ch \<Longrightarrow> mark_words A d G qs = Some G' \<Longrightarrow>
     marked_from A ch G G' (reachable A G ch qs) (targets A ch G qs)"
proof (induction A d G a and A d G qs arbitrary: G' and G' rule: gc_mark_alloc_mark_words.induct)
  case (1 A G alloc)
  then show ?case by simp
next
  case (2 A d G alloc)
  have nn: "alloc \<noteq> NULL" using nodes_not_null [OF "2.prems"(1)] "2.prems"(2) by metis
  show ?case
  proof (cases "marked (alloc_at G alloc)")
    case True
    with "2.prems" show ?thesis
      by (auto simp: marked_from_def marks_def intro!: exI [of _ "{}"])
  next
    case False
    let ?G = "mark_all {alloc} G" and ?qs = "scan_range (alloc_at G alloc)"
    have "marked_from A ch ?G G' (reachable A ?G ch ?qs) (targets A ch ?G ?qs)"
      using "2.IH" False nn "2.prems" by (simp add: upd_alloc_mark)
    then obtain S where S: "G' = mark_all S ?G" "targets A ch ?G ?qs \<subseteq> marks ?G \<union> S"
      "\<forall>x\<in>S. x \<in> nodes G ch \<and> reachable A ?G ch ?qs x"
      "\<forall>x\<in>S. \<forall>y. edge A G ch x y \<longrightarrow> y \<in> marks ?G \<union> S"
      using "2.prems"(1) by (auto simp: marked_from_def)
    have "reach_from A ch G alloc x" if "reachable A ?G ch ?qs x" for x
      using that unfolding reach_from_def
      by (induction rule: reachable.induct)
        (use "2.prems"(1) in \<open>auto simp: edge_def intro: rtranclp.rtrancl_into_rtrancl\<close>)
    moreover have "y \<in> targets A ch ?G ?qs" if "edge A G ch alloc y" for y
      using that "2.prems"(1) by (auto simp: edge_def targets_def)
    ultimately show ?thesis
      using S "2.prems"(2) unfolding marked_from_def
      by (intro exI [of _ "insert alloc S"]) (auto simp: reach_from_def)
  qed
next
  case (3 A d G)
  then show ?case by (auto simp: marked_from_def targets_def intro!: exI [of _ "{}"])
next
  case (4 A d G q qs)
  obtain r where r: "search G (word_at A G q) = Some r"
    "r = NULL \<and> (\<forall>y. \<not> refers A G ch q y) \<or> r \<noteq> NULL \<and> refers A G ch q r \<and> (\<forall>y. refers A G ch q y \<longrightarrow> y = r)"
    using search_refers [OF "4.prems"(1)] by blast
  show ?case
  proof (cases "r = NULL")
    case True
    with r have "targets A ch G (q # qs) = targets A ch G qs" by (auto simp: targets_def)
    moreover have "reachable A G ch (q # qs) x" if "reachable A G ch qs x" for x
      using reachable_mono [OF that, of "q # qs"] by auto
    moreover have "marked_from A ch G G' (reachable A G ch qs) (targets A ch G qs)"
      using "4.IH"(3) [OF r(1) [unfolded word_at_def]] True "4.prems" r(1) by (simp add: word_at_def)
    ultimately show ?thesis unfolding marked_from_def by metis
  next
    case False
    then have rr: "refers A G ch q r" "r \<in> nodes G ch" "\<forall>y. refers A G ch q y \<longrightarrow> y = r"
      using r(2) by (auto simp: refers_def)
    obtain G1 where G1: "gc_mark_alloc A d G r = Some G1" "mark_words A d G1 qs = Some G'"
      using "4.prems"(2) r(1) False by (auto simp: word_at_def bind_eq_Some_conv)
    have m: "marked_from A ch G G1 (reach_from A ch G r) {r}"
      using "4.IH"(1) [OF r(1) [unfolded word_at_def]] False "4.prems"(1) rr(2) G1(1) by simp
    then obtain S where G1S: "G1 = mark_all S G" by (auto simp: marked_from_def)
    have t1: "tbl_ok G1 ch" unfolding G1S using "4.prems"(1) by simp
    have w: "marked_from A ch G1 G' (reachable A G1 ch qs) (targets A ch G1 qs)"
      using "4.IH"(2) [OF r(1) [unfolded word_at_def] _ G1(1)] False t1 G1(2) by simp
    have same: "targets A ch G1 qs = targets A ch G qs" "edge A G1 ch = edge A G ch" "refers A G1 ch = refers A G ch"
      using "4.prems"(1) by (simp_all add: G1S targets_def)
    have "reachable A G ch (q # qs) x" if "reachable A G1 ch qs x" for x
      using that by (induction rule: reachable.induct) (auto simp: same intro: reachable.intros)
    moreover have "reachable A G ch (q # qs) x" if "reach_from A ch G r x" for x
      using reach_words [OF rr(1) _ that] by simp
    ultimately have "marked_from A ch G G' (reachable A G ch (q # qs)) (insert r (targets A ch G1 qs))"
      by (rule marked_from_seq [OF "4.prems"(1) m w])
    moreover have "refers A G ch q y \<longleftrightarrow> y = r" for y using rr(1,3) by blast
    then have "targets A ch G (q # qs) = insert r (targets A ch G1 qs)"
      unfolding same(1) by (auto simp: targets_def)
    ultimately show ?thesis by simp
  qed
qed

text \<open>The recursion is never deeper than the number of blocks that were unmarked before.\<close>

definition unmarked :: "(nat \<Rightarrow> addr list) \<Rightarrow> 's gc_t \<Rightarrow> nat" where
  "unmarked ch G = card (nodes G ch - marks G)"

lemma unmarked_mark_all: "tbl_ok G ch \<Longrightarrow> unmarked ch (mark_all S G) \<le> unmarked ch G"
  unfolding unmarked_def by (rule card_mono) auto

lemma unmarked_insert:
  assumes "tbl_ok G ch" "a \<in> nodes G ch" "\<not> marked (alloc_at G a)"
  shows "unmarked ch (mark_all {a} G) < unmarked ch G"
  unfolding unmarked_def using assms by (intro psubset_card_mono) (auto simp: marks_def [of G])

lemma marking_deep_enough:
  "tbl_ok G ch \<Longrightarrow> a \<in> nodes G ch \<Longrightarrow> unmarked ch G < d \<Longrightarrow> gc_mark_alloc A d G a \<noteq> None"
  "tbl_ok G ch \<Longrightarrow> unmarked ch G < d \<Longrightarrow> mark_words A d G qs \<noteq> None"
proof (induction A d G a and A d G qs rule: gc_mark_alloc_mark_words.induct)
  case (2 A d G alloc)
  show ?case
  proof (cases "alloc \<noteq> NULL \<and> \<not> marked (alloc_at G alloc)")
    case True
    have "unmarked ch (mark_all {alloc} G) < d"
      using unmarked_insert [OF "2.prems"(1,2)] True "2.prems"(3) by linarith
    then show ?thesis using "2.IH" True "2.prems"(1) by (simp add: upd_alloc_mark)
  qed auto
next
  case (4 A d G q qs)
  obtain r where r: "search G (word_at A G q) = Some r" "r = NULL \<or> refers A G ch q r"
    using search_refers [OF "4.prems"(1)] by blast
  show ?case
  proof (cases "r = NULL")
    case True
    then show ?thesis using r(1) "4.IH"(3) [OF r(1) [unfolded word_at_def]] "4.prems" by (simp add: word_at_def)
  next
    case False
    then have n: "r \<in> nodes G ch" using r(2) by (simp add: refers_def)
    then obtain G1 where G1: "gc_mark_alloc A d G r = Some G1"
      using "4.IH"(1) [OF r(1) [unfolded word_at_def]] False "4.prems" by auto
    obtain S where S: "G1 = mark_all S G"
      using marking_correct(1) [OF "4.prems"(1) n G1] by (auto simp: marked_from_def)
    have "unmarked ch G1 < d" using unmarked_mark_all [OF "4.prems"(1), of S] "4.prems"(2) S by simp
    then have "mark_words A d G1 qs \<noteq> None"
      using "4.IH"(2) [OF r(1) [unfolded word_at_def] _ G1] False "4.prems"(1) S by simp
    then show ?thesis using r(1) False G1 by (simp add: word_at_def)
  qed
qed simp_all

subsection \<open>The mark phase\<close>

definition live_nodes :: "'s libc \<Rightarrow> addr \<Rightarrow> 's gc_t \<Rightarrow> (nat \<Rightarrow> addr list) \<Rightarrow> addr set" where
  "live_nodes A tos G ch = {x. reachable A G ch [tos ..< bos G + 1] x}"

lemma live_nodes_sub: "live_nodes A tos G ch \<subseteq> nodes G ch"
  by (auto simp: live_nodes_def dest: reachable_node)

lemma gc_mark_spec:
  assumes t: "tbl_ok G ch" and u: "nodes G ch \<inter> marks G = {}" and d: "card (nodes G ch) < d"
  shows "gc_mark A d tos G = Some (mark_all (live_nodes A tos G ch) G)"
proof -
  let ?roots = "[tos ..< bos G + 1]"
  have "unmarked ch G < d" using u d by (simp add: unmarked_def Diff_triv)
  then obtain G' where G': "mark_words A d G ?roots = Some G'"
    using marking_deep_enough(2) [OF t] by blast
  from marking_correct(2) [OF t G'] obtain S where
    S: "G' = mark_all S G" "targets A ch G ?roots \<subseteq> marks G \<union> S"
      "\<forall>x\<in>S. x \<in> nodes G ch \<and> reachable A G ch ?roots x"
      "\<forall>x\<in>S. \<forall>y. edge A G ch x y \<longrightarrow> y \<in> marks G \<union> S"
    by (auto simp: marked_from_def)
  have "x \<in> S" if "reachable A G ch ?roots x" for x
    using that
  proof induction
    case (reach_root q y)
    then have "y \<in> marks G \<union> S" "y \<in> nodes G ch" using S(2) by (auto simp: targets_def refers_def)
    then show ?case using u by blast
  next
    case (reach_edge x y)
    then have "y \<in> marks G \<union> S" "y \<in> nodes G ch" using S(4) by (auto simp: edge_def refers_def)
    then show ?case using u by blast
  qed
  with S(3) have "S = live_nodes A tos G ch" by (auto simp: live_nodes_def)
  with S(1) G' show ?thesis by (simp add: gc_mark_def)
qed

end
