(* ===== verification/Gc_Sweep.thy ===== *)
theory Gc_Sweep
  imports Gc_Mark Block_Interface
begin

text \<open>
  The sweep: every unmarked block is given back to the store of blocks, with its node, exactly once; the
  marked ones stay and lose their marks. The store is the locale of \<open>Block_Interface\<close>.
\<close>

lemma chain_head: "chain N a xs \<Longrightarrow> a = (case xs of [] \<Rightarrow> NULL | x # _ \<Rightarrow> x)"
  by (cases xs) auto

lemma chain_append: "chain N a (xs @ ys) \<Longrightarrow> \<exists>b. chain N b ys"
  by (induction xs arbitrary: a) auto

definition blocks_of :: "'s gc_t \<Rightarrow> addr set \<Rightarrow> addr set" where
  "blocks_of G D = (\<lambda>x. blk (alloc_at G x)) ` D"

text \<open>The collector's part of the store: its nodes and its blocks, all different.\<close>

definition gc_holds :: "'s gc_t \<Rightarrow> (nat \<Rightarrow> addr list) \<Rightarrow> holdings \<Rightarrow> bool" where
  "gc_holds G ch H \<longleftrightarrow>
     tbl_ok G ch \<and> nodes G ch \<union> blocks_of G (nodes G ch) \<subseteq> dom H \<and>
     nodes G ch \<inter> blocks_of G (nodes G ch) = {} \<and> unat (gc_size G) = card (nodes G ch)"

definition without :: "'s gc_t \<Rightarrow> addr set \<Rightarrow> holdings \<Rightarrow> holdings" where
  "without G D H = H |` (- (D \<union> blocks_of G D))"

lemma without_empty [simp]: "without G {} H = H"
  by (simp add: without_def blocks_of_def restrict_map_def)

text \<open>\<open>swept G G' D C\<close>: the nodes \<open>D\<close> were freed, the marks of \<open>C\<close> cleared, nothing else changed.\<close>

definition swept :: "'s libc \<Rightarrow> 's gc_t \<Rightarrow> 's gc_t \<Rightarrow> addr set \<Rightarrow> addr set \<Rightarrow> bool" where
  "swept A G G' D C \<longleftrightarrow>
     same_fields G G' \<and> lib_bytes A (lib G') = lib_bytes A (lib G) \<and>
     gc_size G' = gc_size G - of_nat (card D) \<and> gc_cnt G' = gc_cnt G + of_nat (card D) \<and>
     (\<forall>x. blk (alloc_at G' x) = blk (alloc_at G x) \<and>
        size_tag (alloc_at G' x) = (if x \<in> C then size_tag (alloc_at G x) AND NOT 1 else size_tag (alloc_at G x)))"

lemma swept_refl [simp]: "swept A G G {} {}"
  by (simp add: swept_def)

lemma swept_trans:
  assumes "swept A G G1 D C" "swept A G1 G2 D' C'" "finite D" "finite D'" "D \<inter> D' = {}"
  shows "swept A G G2 (D \<union> D') (C \<union> C')"
proof -
  have "card (D \<union> D') = card D + card D'" using assms(3-5) by (rule card_Un_disjoint)
  moreover have "((w :: size_t) AND NOT 1) AND NOT 1 = w AND NOT 1" for w
    by (rule bit_word_eqI) (auto simp: bit_simps simp del: not_one_eq)
  ultimately show ?thesis
    using assms(1,2) by (auto simp: swept_def same_fields_trans [of G G1 G2] simp del: not_one_eq)
qed

lemma swept_marked:
  "swept A G G' D C \<Longrightarrow> x \<notin> C \<Longrightarrow> marked (alloc_at G' x) = marked (alloc_at G x)"
  by (simp add: swept_def marked_def)

lemma swept_blocks: "swept A G G' D C \<Longrightarrow> blocks_of G' X = blocks_of G X"
  by (simp add: swept_def blocks_of_def)

lemma without_without:
  "swept A G G' D C \<Longrightarrow> without G' D' (without G D H) = without G (D \<union> D') H"
  by (auto simp: without_def swept_blocks restrict_map_def fun_eq_iff blocks_of_def swept_def)

lemma unat_minus_card:
  fixes w :: size_t
  assumes "unat w = card X" "finite X" "D \<subseteq> X"
  shows "unat (w - of_nat (card D)) = card (X - D)"
proof -
  have le: "card D \<le> card X" using assms by (intro card_mono) auto
  then have lt: "card D < 2 ^ 64" using assms(1) unsigned_less [of w, where 'a = nat] by simp
  then have "unat (of_nat (card D) :: size_t) = card D" by (simp add: unat_of_nat take_bit_nat_eq_self)
  moreover from this have "(of_nat (card D) :: size_t) \<le> w" using le assms(1) by (simp add: word_le_nat_alt)
  ultimately have "unat (w - of_nat (card D)) = card X - card D" using assms(1) by (simp add: unat_sub)
  moreover have "card (X - D) = card X - card D" using assms(2,3) by (intro card_Diff_subset) (auto intro: finite_subset)
  ultimately show ?thesis by simp
qed

text \<open>The marked and the unmarked nodes of the buckets \<open>I\<close>, and the chains when those have been swept.\<close>

definition survivors :: "'s gc_t \<Rightarrow> nat set \<Rightarrow> (nat \<Rightarrow> addr list) \<Rightarrow> addr set" where
  "survivors G I ch = {x \<in> (\<Union>i\<in>I. set (ch i)). marked (alloc_at G x)}"

definition garbage :: "'s gc_t \<Rightarrow> nat set \<Rightarrow> (nat \<Rightarrow> addr list) \<Rightarrow> addr set" where
  "garbage G I ch = (\<Union>i\<in>I. set (ch i)) - survivors G I ch"

definition kept_chains :: "'s gc_t \<Rightarrow> nat set \<Rightarrow> (nat \<Rightarrow> addr list) \<Rightarrow> nat \<Rightarrow> addr list" where
  "kept_chains G I ch = (\<lambda>i. if i \<in> I then filter (\<lambda>x. marked (alloc_at G x)) (ch i) else ch i)"

lemma gc_sets_bucket:
  "{x \<in> set (ch i). marked (alloc_at G x)} = survivors G {i} ch"
  "set (ch i) - survivors G {i} ch = garbage G {i} ch"
  "ch(i := filter (\<lambda>x. marked (alloc_at G x)) (ch i)) = kept_chains G {i} ch"
  by (auto simp: survivors_def garbage_def kept_chains_def fun_eq_iff)

lemma gc_sets_empty: "survivors G {} ch = {}" "garbage G {} ch = {}" "kept_chains G {} ch = ch"
  by (auto simp: survivors_def garbage_def kept_chains_def fun_eq_iff)

lemma gc_sets_step:
  assumes t: "tbl_ok G ch" and J: "J \<subseteq> {..<unat (capacity G)}" and i: "i < unat (capacity G)" "i \<notin> J"
    and sw: "swept A G G1 (garbage G {i} ch) (survivors G {i} ch)"
  shows "kept_chains G1 J (kept_chains G {i} ch) = kept_chains G (insert i J) ch"
    "garbage G1 J (kept_chains G {i} ch) = garbage G J ch"
    "survivors G1 J (kept_chains G {i} ch) = survivors G J ch"
    "garbage G (insert i J) ch = garbage G {i} ch \<union> garbage G J ch"
    "survivors G (insert i J) ch = survivors G {i} ch \<union> survivors G J ch"
    "garbage G {i} ch \<inter> garbage G J ch = {}"
proof -
  have d: "set (ch i) \<inter> set (ch j) = {}" if "j \<in> J" for j
    using bucket_disjoint [OF t i(1), of j] that J i(2) by auto
  have m: "marked (alloc_at G1 x) = marked (alloc_at G x)" if "j \<in> J" "x \<in> set (ch j)" for j x
    using d [OF that(1)] that(2) by (intro swept_marked [OF sw]) (auto simp: survivors_def)
  have k: "kept_chains G {i} ch j = ch j" if "j \<in> J" for j using that i(2) by (auto simp: kept_chains_def)
  show "kept_chains G1 J (kept_chains G {i} ch) = kept_chains G (insert i J) ch"
  proof
    fix j show "kept_chains G1 J (kept_chains G {i} ch) j = kept_chains G (insert i J) ch j"
      using m i(2) by (auto simp: kept_chains_def intro!: filter_cong)
  qed
  show s: "survivors G1 J (kept_chains G {i} ch) = survivors G J ch"
    using m k by (auto simp: survivors_def)
  show "garbage G1 J (kept_chains G {i} ch) = garbage G J ch"
    unfolding garbage_def s using k by auto
  show "survivors G (insert i J) ch = survivors G {i} ch \<union> survivors G J ch"
    by (auto simp: survivors_def)
  show "garbage G (insert i J) ch = garbage G {i} ch \<union> garbage G J ch"
    by (auto simp: garbage_def survivors_def)
  show "garbage G {i} ch \<inter> garbage G J ch = {}" using d by (auto simp: garbage_def)
qed

lemma finite_gc_sets:
  "finite I \<Longrightarrow> finite (garbage G I ch)" "finite I \<Longrightarrow> finite (survivors G I ch)"
  by (simp_all add: garbage_def survivors_def)

locale gc_store = block_store ok ask "lib_malloc A" "lib_free A" "lib_bytes A" set_bytes
  for ok :: "'s \<Rightarrow> holdings \<Rightarrow> bool" and ask :: "'s \<Rightarrow> size_t \<Rightarrow> bool" and A :: "'s libc"
    and set_bytes :: "bytes \<Rightarrow> 's \<Rightarrow> 's"
begin

lemma free_alloc_ok:
  assumes h: "gc_holds G ch H" and ok: "ok (lib G) H" and a: "a \<in> nodes G ch"
  defines "i \<equiv> bucket (capacity G) (blk (alloc_at G a))"
  shows "\<exists>G'. gc_free_alloc A G a = Inr G' \<and> gc_holds G' (ch(i := remove1 a (ch i))) (without G {a} H) \<and>
    ok (lib G') (without G {a} H) \<and> nodes G' (ch(i := remove1 a (ch i))) = nodes G ch - {a} \<and>
    swept A G G' {a} {} \<and> chain_next (alloc_at G' a) = chain_next (alloc_at G a)"
proof -
  have t: "tbl_ok G ch" using h by (simp add: gc_holds_def)
  let ?ch = "ch(i := remove1 a (ch i))" and ?p = "blk (alloc_at G a)"
  obtain G1 where G1: "unlink_alloc G a = Inr G1" "tbl_ok G1 ?ch" "nodes G1 ?ch = nodes G ch - {a}"
    "lib G1 = lib G" "same_fields G G1" "gc_size G1 = gc_size G" "gc_cnt G1 = gc_cnt G"
    "\<And>x. blk (alloc_at G1 x) = blk (alloc_at G x)" "\<And>x. size_tag (alloc_at G1 x) = size_tag (alloc_at G x)"
    "chain_next (alloc_at G1 a) = chain_next (alloc_at G a)"
    using unlink_ok [OF t a] unfolding i_def by blast
  have in_H: "a \<in> dom H" "?p \<in> dom H" "a \<noteq> ?p"
    using h a by (auto simp: gc_holds_def blocks_of_def)
  obtain s1 where s1: "lib_free A (lib G) ?p = Inr s1" "ok s1 (H(?p := None))" "lib_bytes A s1 = lib_bytes A (lib G)"
    using release [OF ok] in_H(2) by blast
  obtain s2 where s2: "lib_free A s1 a = Inr s2" "ok s2 (H(?p := None, a := None))" "lib_bytes A s2 = lib_bytes A s1"
    using release [OF s1(2), of a] in_H by auto
  let ?G = "G1\<lparr>lib := s2, gc_size := gc_size G1 - 1, gc_cnt := gc_cnt G1 + 1\<rparr>"
  have "a \<noteq> NULL" using nodes_not_null [OF t] a by metis
  then have e: "gc_free_alloc A G a = Inr ?G" using G1 s1(1) s2(1) by (simp add: gc_free_alloc_def)
  have w: "without G {a} H = H(?p := None, a := None)"
    by (auto simp: without_def blocks_of_def fun_eq_iff restrict_map_def)
  have tb: "tbl_ok ?G ?ch" "nodes ?G ?ch = nodes G ch - {a}"
    using tbl_ok_same [OF G1(2), of ?G] G1(3) by auto
  have sw: "swept A G ?G {a} {}"
    using G1 s1(3) s2(3) by (auto simp: swept_def same_fields_def)
  have b: "blocks_of ?G X = blocks_of G X" for X using swept_blocks [OF sw] .
  have "\<forall>x \<in> nodes G ch. x \<noteq> a \<longrightarrow> blk (alloc_at G x) \<noteq> ?p"
    using inj_onD [OF tbl_okD(8) [OF t]] a by metis
  moreover have "unat (gc_size G - of_nat (card {a})) = card (nodes G ch - {a})"
    using h a by (intro unat_minus_card) (auto simp: gc_holds_def)
  ultimately have "gc_holds ?G ?ch (without G {a} H)"
    using h tb G1(6) a unfolding gc_holds_def w b tb(2) by (auto simp: blocks_of_def)
  with e tb s2(2) sw G1(10) show ?thesis unfolding w by auto
qed

lemma sweep_chain_ok:
  assumes i: "i < cap"
  shows "gc_holds G ch H \<Longrightarrow> ok (lib G) H \<Longrightarrow> cap = unat (capacity G) \<Longrightarrow> ch i = kept @ rest \<Longrightarrow>
    chain (alloc_at G) alloc rest \<Longrightarrow>
    \<exists>G'. sweep_chain A alloc G = Some (Inr G') \<and>
      (let C = {x \<in> set rest. marked (alloc_at G x)}; D = set rest - C;
           ch' = ch(i := kept @ filter (\<lambda>x. marked (alloc_at G x)) rest)
       in gc_holds G' ch' (without G D H) \<and> ok (lib G') (without G D H) \<and> nodes G' ch' = nodes G ch - D \<and>
          swept A G G' D C)"
proof (induction rest arbitrary: G ch H kept alloc)
  case Nil
  then show ?case by (simp add: sweep_chain.simps fun_upd_idem)
next
  case (Cons x rest)
  let ?m = "\<lambda>x. marked (alloc_at G x)"
  have t: "tbl_ok G ch" using Cons.prems(1) by (simp add: gc_holds_def)
  have x: "alloc = x" "x \<noteq> NULL" "chain (alloc_at G) (chain_next (alloc_at G x)) rest"
    using Cons.prems(5) by auto
  have icap: "i < unat (capacity G)" using i Cons.prems(3) by simp
  have xn: "x \<in> nodes G ch" using icap Cons.prems(4) unfolding nodes_def by (intro UN_I [of i]) simp_all
  have d: "distinct (kept @ x # rest)" using tbl_okD(5) [OF t icap] Cons.prems(4) by simp
  show ?case
  proof (cases "?m x")
    case True
    let ?G = "upd_alloc x clear_mark G"
    have at: "alloc_at ?G = (alloc_at G)(x := clear_mark (alloc_at G x))" "lib ?G = lib G"
      "capacity ?G = capacity G" "allocs ?G = allocs G" "gc_size ?G = gc_size G" "gc_cnt ?G = gc_cnt G"
      by (simp_all add: upd_alloc_def)
    have b: "blk (alloc_at ?G y) = blk (alloc_at G y) \<and> chain_next (alloc_at ?G y) = chain_next (alloc_at G y)" for y
      by (simp add: at(1))
    have t': "tbl_ok ?G ch" "nodes ?G ch = nodes G ch" using tbl_ok_same [OF t at(3,4) b] by blast+
    have bo: "blocks_of ?G X = blocks_of G X" "without ?G X H = without G X H" for X
      using b by (simp_all add: blocks_of_def without_def)
    have h: "gc_holds ?G ch H" using Cons.prems(1) t' bo at(5) by (simp add: gc_holds_def)
    have sw: "swept A G ?G {} {x}"
      by (simp add: swept_def upd_alloc_def same_fields_def clear_mark_def)
    have mr: "marked (alloc_at ?G y) = ?m y" if "y \<in> set rest" for y using that d by (auto simp: at(1))
    have c: "chain (alloc_at ?G) (chain_next (alloc_at G x)) rest" by (rule chain_cong [OF x(3)]) (simp add: b)
    have "ok (lib ?G) H" "cap = unat (capacity ?G)" "ch i = (kept @ [x]) @ rest"
      using Cons.prems(2-4) at(2,3) by simp_all
    note IH = Cons.IH [OF h this c]
    obtain G' where G': "sweep_chain A (chain_next (alloc_at G x)) ?G = Some (Inr G')"
      "let C = {x \<in> set rest. marked (alloc_at ?G x)}; D = set rest - C;
           ch' = ch(i := (kept @ [x]) @ filter (\<lambda>x. marked (alloc_at ?G x)) rest)
       in gc_holds G' ch' (without ?G D H) \<and> ok (lib G') (without ?G D H) \<and> nodes G' ch' = nodes ?G ch - D \<and>
          swept A ?G G' D C" using IH by blast
    let ?C = "{y \<in> set rest. ?m y}"
    have C: "{y \<in> set rest. marked (alloc_at ?G y)} = ?C" using mr by auto
    have f: "filter (\<lambda>y. marked (alloc_at ?G y)) rest = filter ?m rest" using mr by (intro filter_cong) auto
    have "{y \<in> set (x # rest). ?m y} = insert x ?C" "set (x # rest) - insert x ?C = set rest - ?C"
      using True d by auto
    moreover have "swept A G G' (set rest - ?C) (insert x ?C)"
      using swept_trans [OF sw, of G' "set rest - ?C" ?C] G'(2) C by (simp add: Let_def)
    moreover have "sweep_chain A alloc G = Some (Inr G')"
      using x True G'(1) by (simp add: sweep_chain.simps [of A x])
    ultimately show ?thesis using G'(2) True t'(2) bo unfolding Let_def C f by auto
  next
    case False
    obtain G1 where G1: "gc_free_alloc A G x = Inr G1"
      "gc_holds G1 (ch(bucket (capacity G) (blk (alloc_at G x)) := remove1 x (ch (bucket (capacity G) (blk (alloc_at G x)))))) (without G {x} H)"
      "ok (lib G1) (without G {x} H)"
      "nodes G1 (ch(bucket (capacity G) (blk (alloc_at G x)) := remove1 x (ch (bucket (capacity G) (blk (alloc_at G x)))))) = nodes G ch - {x}"
      "swept A G G1 {x} {}" "chain_next (alloc_at G1 x) = chain_next (alloc_at G x)"
      using free_alloc_ok [OF Cons.prems(1,2) xn] by blast
    have bi: "bucket (capacity G) (blk (alloc_at G x)) = i"
      using tbl_okD(6) [OF t icap] Cons.prems(4) by auto
    have rm: "remove1 x (ch i) = kept @ rest" using Cons.prems(4) d by (auto simp: remove1_append)
    note G1' = G1(2-4) [unfolded bi rm]
    have c1: "capacity G1 = capacity G" using G1(5) by (simp add: swept_def same_fields_def)
    have "tbl_ok G1 (ch(i := kept @ rest))" using G1'(1) by (simp add: gc_holds_def)
    from tbl_okD(4) [OF this, of i] icap c1 have "chain (alloc_at G1) (allocs G1 ! i) (kept @ rest)" by simp
    then obtain b where "chain (alloc_at G1) b rest" using chain_append by blast
    then have ch1: "chain (alloc_at G1) (chain_next (alloc_at G x)) rest"
      using chain_head [OF x(3)] chain_head by metis
    have mr: "marked (alloc_at G1 y) = ?m y" for y by (rule swept_marked [OF G1(5)]) simp
    have "cap = unat (capacity G1)" "(ch(i := kept @ rest)) i = kept @ rest" using Cons.prems(3) c1 by simp_all
    note IH = Cons.IH [OF G1'(1,2) this ch1, unfolded mr fun_upd_upd]
    obtain G' where G': "sweep_chain A (chain_next (alloc_at G x)) G1 = Some (Inr G')"
      "let C = {x \<in> set rest. ?m x}; D = set rest - C; ch' = ch(i := kept @ filter ?m rest)
       in gc_holds G' ch' (without G1 D (without G {x} H)) \<and> ok (lib G') (without G1 D (without G {x} H)) \<and>
          nodes G' ch' = nodes G1 (ch(i := kept @ rest)) - D \<and> swept A G1 G' D C"
      using IH by blast
    let ?C = "{y \<in> set rest. ?m y}"
    have CD: "{y \<in> set (x # rest). ?m y} = ?C" "set (x # rest) - ?C = {x} \<union> (set rest - ?C)"
      using False d by auto
    have sw: "swept A G G' ({x} \<union> (set rest - ?C)) ?C"
      using swept_trans [OF G1(5), of G' "set rest - ?C" ?C] G'(2) d by (auto simp: Let_def)
    have e: "sweep_chain A alloc G = Some (Inr G')"
      using x False G1(1) G'(1) by (simp add: sweep_chain.simps [of A x])
    have w: "without G1 (set rest - ?C) (without G {x} H) = without G ({x} \<union> (set rest - ?C)) H"
      by (rule without_without [OF G1(5)])
    have f: "filter ?m (x # rest) = filter ?m rest" using False by simp
    have n: "nodes G ch - {x} - (set rest - ?C) = nodes G ch - ({x} \<union> (set rest - ?C))" by blast
    note G'' = G'(2) [unfolded Let_def w G1'(3) n]
    show ?thesis unfolding Let_def CD f by (intro exI [of _ G'] conjI e sw) (use G'' in blast)+
  qed
qed

text \<open>The buckets \<open>is\<close>, one after the other.\<close>

lemma sweep_bucket:
  assumes h: "gc_holds G ch H" "ok (lib G) H" and i: "i < unat (capacity G)"
  obtains G' where "sweep_chain A (allocs G ! i) G = Some (Inr G')"
    "gc_holds G' (kept_chains G {i} ch) (without G (garbage G {i} ch) H)"
    "ok (lib G') (without G (garbage G {i} ch) H)"
    "nodes G' (kept_chains G {i} ch) = nodes G ch - garbage G {i} ch"
    "swept A G G' (garbage G {i} ch) (survivors G {i} ch)"
proof -
  have t: "tbl_ok G ch" using h(1) by (simp add: gc_holds_def)
  have e: "ch i = [] @ ch i" by simp
  from sweep_chain_ok [OF i h refl e tbl_okD(4) [OF t i]] that show ?thesis
    unfolding Let_def append_Nil gc_sets_bucket by blast
qed

lemma sweep_buckets_ok:
  "gc_holds G ch H \<Longrightarrow> ok (lib G) H \<Longrightarrow> distinct is \<Longrightarrow> set is \<subseteq> {..<unat (capacity G)} \<Longrightarrow>
   \<exists>G'. sweep_buckets A is G = Inr G' \<and>
     gc_holds G' (kept_chains G (set is) ch) (without G (garbage G (set is) ch) H) \<and>
     ok (lib G') (without G (garbage G (set is) ch) H) \<and>
     nodes G' (kept_chains G (set is) ch) = nodes G ch - garbage G (set is) ch \<and>
     swept A G G' (garbage G (set is) ch) (survivors G (set is) ch)"
proof (induction "is" arbitrary: G ch H)
  case Nil
  then show ?case by (simp add: gc_sets_empty)
next
  case (Cons i js)
  have t: "tbl_ok G ch" using Cons.prems(1) by (simp add: gc_holds_def)
  have i: "i < unat (capacity G)" and js: "set js \<subseteq> {..<unat (capacity G)}" "i \<notin> set js" "distinct js"
    using Cons.prems(3,4) by auto
  let ?D = "garbage G {i} ch" and ?C = "survivors G {i} ch" and ?ch = "kept_chains G {i} ch"
  obtain G1 where G1: "sweep_chain A (allocs G ! i) G = Some (Inr G1)" "gc_holds G1 ?ch (without G ?D H)"
    "ok (lib G1) (without G ?D H)" "nodes G1 ?ch = nodes G ch - ?D" "swept A G G1 ?D ?C"
    by (rule sweep_bucket [OF Cons.prems(1,2) i])
  have c: "capacity G1 = capacity G" using G1(5) by (simp add: swept_def same_fields_def)
  note st = gc_sets_step [OF t js(1) i js(2) G1(5)]
  have "set js \<subseteq> {..<unat (capacity G1)}" using js c by simp
  from Cons.IH [OF G1(2,3) js(3) this] obtain G' where G': "sweep_buckets A js G1 = Inr G'"
    "gc_holds G' (kept_chains G (insert i (set js)) ch) (without G1 (garbage G (set js) ch) (without G ?D H))"
    "ok (lib G') (without G1 (garbage G (set js) ch) (without G ?D H))"
    "nodes G' (kept_chains G (insert i (set js)) ch) = nodes G1 ?ch - garbage G (set js) ch"
    "swept A G1 G' (garbage G (set js) ch) (survivors G (set js) ch)"
    unfolding st(1-3) by blast
  note w = without_without [OF G1(5), of "garbage G (set js) ch" H]
  have sw: "swept A G G' (?D \<union> garbage G (set js) ch) (?C \<union> survivors G (set js) ch)"
    by (rule swept_trans [OF G1(5) G'(5) _ _ st(6)]) (simp_all add: finite_gc_sets)
  have "array_get (allocs G) i = Some (allocs G ! i)" using i tbl_okD(3) [OF t] by simp
  then have e: "sweep_buckets A (i # js) G = Inr G'" using G1(1) G'(1) by simp
  have n: "nodes G ch - ?D - garbage G (set js) ch = nodes G ch - (?D \<union> garbage G (set js) ch)" by blast
  show ?case unfolding list.set(2) st(4,5)
    by (rule exI [of _ G'], intro conjI e sw) (use G'(2-4) in \<open>simp_all add: w G1(4) n\<close>)
qed

end

end
