(* ===== verification/Gc_Collect.thy ===== *)
theory Gc_Collect
  imports Gc_Sweep
begin

text \<open>
  One collection, one tracked allocation and one explicit \<open>gc_free\<close>, over any store of blocks: the
  collection frees the nodes that are not live and leaves the others with cleared marks.
\<close>

text \<open>No block carries a mark between two collections.\<close>

definition clean :: "'s gc_t \<Rightarrow> (nat \<Rightarrow> addr list) \<Rightarrow> bool" where
  "clean G ch \<longleftrightarrow> nodes G ch \<inter> marks G = {}"

text \<open>Neither trigger of \<open>gc_hash_resize\<close> fires for \<open>n\<close> blocks.\<close>

definition table_fits :: "'s gc_t \<Rightarrow> nat \<Rightarrow> bool" where
  "table_fits G n \<longleftrightarrow> n \<le> unat (sweep_limit G) \<and> n * 2 ^ 53 \<le> unat (capacity G) * 6305039478318694"

lemma table_fits_need:
  "unat (gc_size G) = n \<Longrightarrow> table_fits G n \<longleftrightarrow> \<not> gc_need_collect G \<and> \<not> gc_need_resize G"
  by (auto simp: table_fits_def gc_need_collect_def gc_need_resize_def word_less_nat_alt)

lemma all_buckets:
  "survivors G {..<unat (capacity G)} ch = nodes G ch \<inter> marks G"
  "garbage G {..<unat (capacity G)} ch = nodes G ch - marks G"
  by (auto simp: survivors_def garbage_def nodes_def marks_def)

lemma clean_tag:
  "clean G ch \<Longrightarrow> x \<in> nodes G ch \<Longrightarrow> size_tag (alloc_at G x) AND NOT 1 = size_tag (alloc_at G x)"
  by (rule bit_word_eqI) (auto simp: clean_def marks_def marked_def tag_bits bit_simps simp del: not_one_eq)

lemma gc_holds_mark_all:
  assumes "gc_holds G ch H"
  shows "gc_holds (mark_all S G) ch H" "without (mark_all S G) D H = without G D H"
  using assms by (simp_all add: gc_holds_def blocks_of_def without_def)

text \<open>What a collection leaves, when the nodes \<open>L\<close> were live.\<close>

definition collected :: "'s libc \<Rightarrow> 's gc_t \<Rightarrow> 's gc_t \<Rightarrow> (nat \<Rightarrow> addr list) \<Rightarrow> addr set \<Rightarrow> bool" where
  "collected A G G' ch L \<longleftrightarrow>
     same_fields G G' \<and> lib_bytes A (lib G') = lib_bytes A (lib G) \<and>
     gc_collected G' = gc_collected G + of_nat (card (nodes G ch - L)) \<and>
     (\<forall>x\<in>L. blk (alloc_at G' x) = blk (alloc_at G x) \<and> size_tag (alloc_at G' x) = size_tag (alloc_at G x))"

lemma round8_tag: "\<not> marked \<lparr>blk = p, size_tag = round8 n, chain_next = q\<rparr>"
proof -
  have "round8 n = push_bit 3 (drop_bit 3 (n + 7))"
    by (simp add: round8_def push_bit_eq_mult drop_bit_eq_div add.commute)
  then show ?thesis by (simp add: marked_def tag_bits bit_simps)
qed

text \<open>A new block \<open>p\<close> with its new node \<open>a\<close>.\<close>

definition tracked :: "'s gc_t \<Rightarrow> 's gc_t \<Rightarrow> (nat \<Rightarrow> addr list) \<Rightarrow> (nat \<Rightarrow> addr list) \<Rightarrow> addr \<Rightarrow> addr \<Rightarrow> size_t \<Rightarrow> bool" where
  "tracked G G' ch ch' a p sz \<longleftrightarrow>
     a \<notin> nodes G ch \<and> nodes G' ch' = insert a (nodes G ch) \<and>
     blk (alloc_at G' a) = p \<and> size_tag (alloc_at G' a) = sz \<and> search G' p = Some a \<and>
     (\<forall>x \<in> nodes G ch. alloc_at G' x = alloc_at G x) \<and> gc_collected G' = gc_collected G \<and> same_fields G G'"

context gc_store
begin

lemma malloc_ok:
  assumes h: "gc_holds G ch H" "ok (lib G) H" and c: "clean G ch" and sz: "unat (gc_size G) + 1 < 2 ^ 64"
    and nc: "\<not> gc_need_collect G" and nz: "nbytes \<noteq> 0"
    and m: "ask (lib G) (round8 nbytes)" "lib_malloc A (lib G) (round8 nbytes) = Inr (p, s1)" "p \<noteq> NULL"
    and a: "ask s1 sizeof_alloc" "lib_malloc A s1 sizeof_alloc = Inr (a, s2)" "a \<noteq> NULL"
  shows "\<exists>G' ch'. gc_malloc A d tos G nbytes = Inr (p, G') \<and>
    gc_holds G' ch' (H(p \<mapsto> unat (round8 nbytes), a \<mapsto> unat sizeof_alloc)) \<and>
    ok (lib G') (H(p \<mapsto> unat (round8 nbytes), a \<mapsto> unat sizeof_alloc)) \<and> H p = None \<and> H a = None \<and> p \<noteq> a \<and>
    clean G' ch' \<and> lib G' = s2 \<and> lib_bytes A (lib G') = lib_bytes A (lib G) \<and> tracked G G' ch ch' a p (round8 nbytes)"
proof -
  note p = alloc [OF h(2) m] and b = alloc [OF conjunct1 [OF conjunct2 [OF alloc [OF h(2) m]]] a]
  let ?H = "H(p \<mapsto> unat (round8 nbytes))" and ?G = "G\<lparr>lib := s1\<rparr>" and ?i = "bucket (capacity G) p"
  have t: "tbl_ok G ch" and hH: "nodes G ch \<union> blocks_of G (nodes G ch) \<subseteq> dom H"
    "nodes G ch \<inter> blocks_of G (nodes G ch) = {}" "unat (gc_size G) = card (nodes G ch)"
    using h(1) by (simp_all add: gc_holds_def)
  have t1: "tbl_ok ?G ch" "nodes ?G ch = nodes G ch" by (rule tbl_ok_same [OF t]; simp)+
  have pn: "p \<noteq> NULL" "a \<noteq> NULL" "p \<noteq> a"
    using not_null [of s1 ?H p] not_null [of s2 "?H(a \<mapsto> unat sizeof_alloc)" a] p b by (auto split: if_splits)
  have new: "p \<notin> (\<lambda>x. blk (alloc_at ?G x)) ` nodes ?G ch" "a \<notin> nodes ?G ch" "a \<notin> blocks_of G (nodes G ch)"
    "p \<notin> nodes G ch" using p b hH pn t1(2) by (auto simp: blocks_of_def split: if_splits)
  have a': "lib_malloc A (lib ?G) sizeof_alloc = Inr (a, s2)" using a(2) by simp
  from register_ok [OF t1(1) pn(1) new(1) a' pn(2) new(2), of "round8 nbytes"] obtain G' where
    G': "register_alloc A ?G p (round8 nbytes) = Inr G'" "tbl_ok G' (ch(?i := a # ch ?i))"
      "nodes G' (ch(?i := a # ch ?i)) = insert a (nodes G ch)" "lib G' = s2"
      "alloc_at G' = (alloc_at G)(a := \<lparr>blk = p, size_tag = round8 nbytes, chain_next = allocs G ! ?i\<rparr>)"
      "gc_size G' = gc_size G + 1" "same_fields G G'" "gc_cnt G' = gc_cnt G"
    by (auto simp: t1(2) same_fields_def)
  let ?ch = "ch(?i := a # ch ?i)" and ?H2 = "?H(a \<mapsto> unat sizeof_alloc)"
  have e: "gc_malloc A d tos G nbytes = Inr (p, G')"
    using nz nc m(2) G'(1) by (simp add: gc_malloc_def collect_if_needed_def)
  have bo: "blocks_of G' (insert a (nodes G ch)) = insert p (blocks_of G (nodes G ch))"
    using G'(5) new(2) t1(2) by (auto simp: blocks_of_def)
  have "unat (gc_size G') = card (nodes G' ?ch)"
    using G'(3,6) hH(3) sz new(2) t1(2) by (simp add: unat_word_ariths)
  then have gh: "gc_holds G' ?ch ?H2"
    using G'(2,3) hH new pn t1(2) unfolding gc_holds_def G'(3) bo by auto
  have "search G' p = Some a"
    using search_unique [OF G'(2), of a] G'(3,5) by simp
  then have tr: "tracked G G' ch ?ch a p (round8 nbytes)"
    using G' new(2) t1(2) unfolding tracked_def gc_collected_def by auto
  have "clean G' ?ch"
    using c round8_tag new(2) t1(2) unfolding clean_def G'(3) by (auto simp: marks_def G'(5))
  moreover have "ok (lib G') ?H2" "lib_bytes A (lib G') = lib_bytes A (lib G)" "H p = None" "H a = None"
    using b p G'(4) pn by (auto split: if_splits)
  ultimately show ?thesis using e gh tr pn(3) G'(4) by blast
qed

lemma free_ok:
  assumes h: "gc_holds G ch H" "ok (lib G) H" and a: "a \<in> nodes G ch"
  shows "\<exists>G' ch'. gc_free A G (blk (alloc_at G a)) = Inr G' \<and> gc_holds G' ch' (without G {a} H) \<and>
    ok (lib G') (without G {a} H) \<and> nodes G' ch' = nodes G ch - {a} \<and> swept A G G' {a} {}"
proof -
  have t: "tbl_ok G ch" using h(1) by (simp add: gc_holds_def)
  have "a \<noteq> NULL" "blk (alloc_at G a) \<noteq> NULL" using nodes_not_null [OF t] tbl_okD(7) [OF t a] a by metis+
  then have "gc_free A G (blk (alloc_at G a)) = gc_free_alloc A G a"
    using search_unique [OF t a] by (simp add: gc_free_def)
  then show ?thesis using free_alloc_ok [OF h a] by metis
qed

lemma sweep_ok:
  assumes h: "gc_holds G ch H" "ok (lib G) H" and f: "table_fits G (card (nodes G ch \<inter> marks G))"
  shows "\<exists>G' ch'. gc_sweep A G = Inr G' \<and> gc_holds G' ch' (without G (nodes G ch - marks G) H) \<and>
    ok (lib G') (without G (nodes G ch - marks G) H) \<and> nodes G' ch' = nodes G ch \<inter> marks G \<and>
    swept A G G' (nodes G ch - marks G) (nodes G ch \<inter> marks G)"
proof (cases "gc_size G = 0")
  case True
  then have "nodes G ch = {}" using h(1) by (simp add: gc_holds_def)
  with True h show ?thesis by (intro exI [of _ G] exI [of _ ch]) (simp add: gc_sweep_def)
next
  case False
  have "set [0..<unat (capacity G)] = {..<unat (capacity G)}" by auto
  with sweep_buckets_ok [OF h, of "[0..<unat (capacity G)]"] obtain G' where
    G': "sweep_buckets A [0..<unat (capacity G)] G = Inr G'"
      "gc_holds G' (kept_chains G {..<unat (capacity G)} ch) (without G (nodes G ch - marks G) H)"
      "ok (lib G') (without G (nodes G ch - marks G) H)"
      "nodes G' (kept_chains G {..<unat (capacity G)} ch) = nodes G ch - (nodes G ch - marks G)"
      "swept A G G' (nodes G ch - marks G) (nodes G ch \<inter> marks G)"
    by (auto simp: all_buckets)
  have n: "nodes G ch - (nodes G ch - marks G) = nodes G ch \<inter> marks G" by blast
  have "unat (gc_size G') = card (nodes G ch \<inter> marks G)" using G'(2,4) n by (simp add: gc_holds_def)
  moreover have "table_fits G' (card (nodes G ch \<inter> marks G))"
    using f G'(5) by (simp add: table_fits_def swept_def same_fields_def)
  ultimately have "\<not> gc_need_collect G' \<and> \<not> gc_need_resize G'" using table_fits_need by blast
  then have "gc_sweep A G = Inr G'" using False G'(1) by (simp add: gc_sweep_def)
  with G' n show ?thesis by auto
qed

lemma collect_ok:
  fixes tos :: addr
  assumes h: "gc_holds G ch H" "ok (lib G) H" and c: "clean G ch" and d: "card (nodes G ch) < d"
  defines "L \<equiv> live_nodes A tos G ch"
  assumes f: "table_fits G (card L)"
  shows "\<exists>G' ch'. gc_collect A d tos G = Inr G' \<and> gc_holds G' ch' (without G (nodes G ch - L) H) \<and>
    ok (lib G') (without G (nodes G ch - L) H) \<and> nodes G' ch' = L \<and> clean G' ch' \<and> collected A G G' ch L"
proof -
  have t: "tbl_ok G ch" using h(1) by (simp add: gc_holds_def)
  have m: "gc_mark A d tos G = Some (mark_all L G)"
    unfolding L_def using gc_mark_spec [OF t _ d] c by (simp add: clean_def)
  have sub: "L \<subseteq> nodes G ch" unfolding L_def by (rule live_nodes_sub)
  let ?G = "mark_all L G"
  have n: "nodes ?G ch = nodes G ch" using t by simp
  have e: "nodes G ch \<inter> (marks G \<union> L) = L" "nodes G ch - (marks G \<union> L) = nodes G ch - L"
    using c sub by (auto simp: clean_def)
  have "ok (lib ?G) H" "table_fits ?G (card (nodes ?G ch \<inter> marks ?G))"
    using h(2) f n e by (simp_all add: table_fits_def)
  from sweep_ok [OF gc_holds_mark_all(1) [OF h(1)] this] obtain G' ch' where
    G': "gc_sweep A ?G = Inr G'" "gc_holds G' ch' (without G (nodes G ch - L) H)"
      "ok (lib G') (without G (nodes G ch - L) H)" "nodes G' ch' = L" "swept A ?G G' (nodes G ch - L) L"
    unfolding n by (simp add: e gc_holds_mark_all(2) [OF h(1)]) blast
  have tag: "size_tag (alloc_at G' x) = size_tag (alloc_at G x)" if "x \<in> L" for x
    using G'(5) that clean_tag [OF c, of x] sub
    by (auto simp: swept_def alloc_at_mark_all set_mark_def tag_bits simp del: not_one_eq)
  have "clean G' ch'"
    using c sub G'(4) tag by (auto simp: clean_def marks_def marked_def)
  moreover have "collected A G G' ch L"
    using G'(5) tag by (auto simp: swept_def collected_def same_fields_def gc_collected_def)
  ultimately show ?thesis using G' m by (auto simp: gc_collect_def)
qed

end

end
