(* ===== verification/Gc_Resize.thy ===== *)
theory Gc_Resize
  imports Gc_Table
begin

text \<open>
  Doubling the hash table: every node is moved to the front of the chain its block hashes to in the new
  table, and no node is lost.
\<close>

text \<open>The chains of the new table after the nodes \<open>xs\<close> have been moved.\<close>

fun move_nodes :: "(addr \<Rightarrow> nat) \<Rightarrow> addr list \<Rightarrow> (nat \<Rightarrow> addr list) \<Rightarrow> nat \<Rightarrow> addr list" where
  "move_nodes h [] ch = ch"
| "move_nodes h (x # xs) ch = move_nodes h xs (ch(h x := x # ch (h x)))"

lemma move_nodes_append: "move_nodes h (xs @ ys) ch = move_nodes h ys (move_nodes h xs ch)"
  by (induction xs arbitrary: ch) auto

lemma move_nodes_cong: "(\<And>x. x \<in> set xs \<Longrightarrow> h x = k x) \<Longrightarrow> move_nodes h xs ch = move_nodes k xs ch"
  by (induction xs arbitrary: ch) auto

lemma move_nodes_eq: "move_nodes h xs ch j = rev (filter (\<lambda>x. h x = j) xs) @ ch j"
  by (induction xs arbitrary: ch) auto

definition chains_at :: "size_t \<Rightarrow> (addr \<Rightarrow> alloc_t) \<Rightarrow> addr list \<Rightarrow> (nat \<Rightarrow> addr list) \<Rightarrow> bool" where
  "chains_at cap N T ch \<longleftrightarrow> length T = unat cap \<and> (\<forall>j<unat cap. chain N (T ! j) (ch j))"

lemma word_power_nat: "k < 64 \<Longrightarrow> unat (2 ^ k :: size_t) = 2 ^ k" "k < 63 \<Longrightarrow> unat (2 ^ k :: size_t) = 2 ^ k"
proof -
  show "unat (2 ^ k :: size_t) = 2 ^ k" if "k < 64"
  proof -
    have "(2 :: nat) ^ k < 2 ^ 64" using that by (rule power_strict_increasing) simp
    then have "unat (of_nat (2 ^ k) :: size_t) = 2 ^ k" by (simp add: unat_of_nat take_bit_nat_eq_self del: of_nat_power)
    then show ?thesis by simp
  qed
  then show "unat (2 ^ k :: size_t) = 2 ^ k" if "k < 63" using that by simp
qed

lemma rehash_chain_ok:
  assumes cap: "cap = 2 ^ k" "k < 64"
  shows "chain N a xs \<Longrightarrow> distinct xs \<Longrightarrow> chains_at cap N T ch \<Longrightarrow>
    (\<And>j. j < unat cap \<Longrightarrow> set (ch j) \<inter> set xs = {}) \<Longrightarrow>
    \<exists>N' T'. rehash_chain cap a (N, T) = Some (N', T') \<and>
      chains_at cap N' T' (move_nodes (\<lambda>x. bucket cap (blk (N x))) xs ch) \<and>
      (\<forall>x. blk (N' x) = blk (N x) \<and> size_tag (N' x) = size_tag (N x) \<and> (x \<notin> set xs \<longrightarrow> N' x = N x))"
proof (induction xs arbitrary: a N T ch)
  case Nil
  then show ?case by (auto simp: rehash_chain.simps)
next
  case (Cons x xs)
  have x: "a = x" "x \<noteq> NULL" "chain N (chain_next (N x)) xs" using Cons.prems(1) by auto
  let ?i = "bucket cap (blk (N x))"
  have c0: "cap \<noteq> 0" using cap by simp
  have i: "?i < unat cap" by (rule bucket_less [OF c0])
  have len: "length T = unat cap" using Cons.prems(3) by (simp add: chains_at_def)
  define N1 where "N1 = N(x := (N x)\<lparr>chain_next := T ! ?i\<rparr>)"
  define T1 where "T1 = T[?i := x]"
  define ch1 where "ch1 = ch(?i := x # ch ?i)"
  have N1: "blk (N1 y) = blk (N y)" "size_tag (N1 y) = size_tag (N y)" "y \<noteq> x \<Longrightarrow> N1 y = N y" for y
    by (simp_all add: N1_def)
  have old: "chain N1 (T ! j) (ch j)" if "j < unat cap" for j
  proof (rule chain_cong)
    show "chain N (T ! j) (ch j)" using Cons.prems(3) that by (simp add: chains_at_def)
    show "chain_next (N1 y) = chain_next (N y)" if "y \<in> set (ch j)" for y
      using that Cons.prems(4) [OF \<open>j < unat cap\<close>] by (auto simp: N1_def)
  qed
  have "chain N1 x (x # ch ?i)" using old [OF i] x(2) by (simp add: N1_def)
  then have c1: "chains_at cap N1 T1 ch1"
    using old len i by (simp add: chains_at_def T1_def ch1_def nth_list_update)
  have r1: "chain N1 (chain_next (N x)) xs"
    using Cons.prems(2) by (intro chain_cong [OF x(3)]) (auto simp: N1_def)
  have d1: "set (ch1 j) \<inter> set xs = {}" if "j < unat cap" for j
    using Cons.prems(2) Cons.prems(4) [OF that] by (auto simp: ch1_def)
  have "distinct xs" using Cons.prems(2) by simp
  from Cons.IH [OF r1 this c1 d1] obtain N' T' where
    r: "rehash_chain cap (chain_next (N x)) (N1, T1) = Some (N', T')"
      "chains_at cap N' T' (move_nodes (\<lambda>x. bucket cap (blk (N1 x))) xs ch1)"
      "\<forall>y. blk (N' y) = blk (N1 y) \<and> size_tag (N' y) = size_tag (N1 y) \<and> (y \<notin> set xs \<longrightarrow> N' y = N1 y)" by blast
  have "rehash_chain cap a (N, T) = Some (N', T')"
    using x r(1) i len
    by (simp add: rehash_chain.simps [of cap x] mask_bucket [OF cap] N1_def T1_def)
  moreover have "move_nodes (\<lambda>x. bucket cap (blk (N1 x))) xs ch1 = move_nodes (\<lambda>x. bucket cap (blk (N x))) (x # xs) ch"
    by (simp add: N1(1) ch1_def)
  ultimately show ?case using r(2,3) N1 by auto
qed

lemma rehash_all_ok:
  assumes cap: "cap = 2 ^ k" "k < 64"
  shows "list_all2 (chain N) olds chs \<Longrightarrow> distinct (concat chs) \<Longrightarrow> chains_at cap N T ch \<Longrightarrow>
    (\<And>j. j < unat cap \<Longrightarrow> set (ch j) \<inter> set (concat chs) = {}) \<Longrightarrow>
    \<exists>N' T'. rehash_all cap olds (N, T) = Some (N', T') \<and>
      chains_at cap N' T' (move_nodes (\<lambda>x. bucket cap (blk (N x))) (concat chs) ch) \<and>
      (\<forall>x. blk (N' x) = blk (N x) \<and> size_tag (N' x) = size_tag (N x) \<and> (x \<notin> set (concat chs) \<longrightarrow> N' x = N x))"
proof (induction olds arbitrary: N T ch chs)
  case Nil
  then show ?case by auto
next
  case (Cons a olds)
  then obtain xs cs where cs: "chs = xs # cs" "chain N a xs" "list_all2 (chain N) olds cs"
    by (auto simp: list_all2_Cons1)
  let ?h = "\<lambda>x. bucket cap (blk (N x))"
  have d: "distinct xs" "distinct (concat cs)" "set xs \<inter> set (concat cs) = {}" using Cons.prems(2) cs(1) by auto
  have "set (ch j) \<inter> set xs = {}" if "j < unat cap" for j using Cons.prems(4) [OF that] cs(1) by auto
  from rehash_chain_ok [OF cap cs(2) d(1) Cons.prems(3) this] obtain N1 T1 where
    r1: "rehash_chain cap a (N, T) = Some (N1, T1)" "chains_at cap N1 T1 (move_nodes ?h xs ch)"
      "\<forall>x. blk (N1 x) = blk (N x) \<and> size_tag (N1 x) = size_tag (N x) \<and> (x \<notin> set xs \<longrightarrow> N1 x = N x)" by blast
  have "chain N1 b ys" if c: "chain N b ys" "set ys \<subseteq> set (concat cs)" for b ys
  proof (rule chain_cong [OF c(1)])
    show "chain_next (N1 x) = chain_next (N x)" if "x \<in> set ys" for x
      using that c(2) d(3) r1(3) by (metis disjoint_iff subsetD)
  qed
  then have l: "list_all2 (chain N1) olds cs"
    using cs(3) by (fastforce simp: list_all2_conv_all_nth)
  have dj: "set (move_nodes ?h xs ch j) \<inter> set (concat cs) = {}" if "j < unat cap" for j
    using Cons.prems(4) [OF that] cs(1) d(3) by (auto simp: move_nodes_eq)
  from Cons.IH [OF l d(2) r1(2) dj] obtain N' T' where
    r: "rehash_all cap olds (N1, T1) = Some (N', T')"
      "chains_at cap N' T' (move_nodes (\<lambda>x. bucket cap (blk (N1 x))) (concat cs) (move_nodes ?h xs ch))"
      "\<forall>x. blk (N' x) = blk (N1 x) \<and> size_tag (N' x) = size_tag (N1 x) \<and> (x \<notin> set (concat cs) \<longrightarrow> N' x = N1 x)"
    by blast
  have "move_nodes (\<lambda>x. bucket cap (blk (N1 x))) (concat cs) (move_nodes ?h xs ch) = move_nodes ?h (concat chs) ch"
    using r1(3) by (simp add: cs(1) move_nodes_append)
  with r r1 show ?case by (auto simp: cs(1))
qed

text \<open>The whole table. Its size is a power of two, as \<open>DEFAULT_CAPACITY\<close> is.\<close>

lemma table_chains:
  assumes t: "tbl_ok G ch"
  defines "chs \<equiv> map ch [0..<unat (capacity G)]"
  shows "list_all2 (chain (alloc_at G)) (allocs G) chs" "distinct (concat chs)" "set (concat chs) = nodes G ch"
proof -
  show "list_all2 (chain (alloc_at G)) (allocs G) chs"
    using tbl_okD(3,4) [OF t] by (auto simp: chs_def list_all2_conv_all_nth)
  show "set (concat chs) = nodes G ch" by (auto simp: chs_def nodes_def)
  have "distinct (concat (map ch js))" if "distinct js" "set js \<subseteq> {..<unat (capacity G)}" for js
    using that
  proof (induction js)
    case (Cons j js)
    then have "set (ch j) \<inter> set (concat (map ch js)) = {}"
      using bucket_disjoint [OF t, of j] by fastforce
    with Cons tbl_okD(5) [OF t] show ?case by auto
  qed simp
  from this [of "[0..<unat (capacity G)]"] show "distinct (concat chs)" by (simp add: chs_def atLeast0LessThan)
qed

lemma resize_ok:
  assumes t: "tbl_ok G ch" and cap: "capacity G = 2 ^ k" "k < 63"
    and l: "lib_calloc A (lib G) (capacity G * 2) sizeof_ptr = Inr (p, s1)" "p \<noteq> NULL"
      "lib_free A s1 (allocs_addr G) = Inr s2"
  shows "\<exists>G' ch'. gc_hash_resize A G = Inr G' \<and> tbl_ok G' ch' \<and> nodes G' ch' = nodes G ch \<and> capacity G' = capacity G * 2 \<and>
    (\<forall>x. blk (alloc_at G' x) = blk (alloc_at G x) \<and> size_tag (alloc_at G' x) = size_tag (alloc_at G x)) \<and>
    lib G' = s2 \<and> allocs_addr G' = p \<and> gc_size G' = gc_size G \<and> gc_cnt G' = gc_cnt G \<and> bos G' = bos G \<and>
    sweep_limit G' = capacity G"
proof -
  let ?cap = "capacity G * 2" and ?chs = "map ch [0..<unat (capacity G)]"
  have c: "?cap = 2 ^ Suc k" "Suc k < 64" using cap by simp_all
  have u1: "unat (capacity G) = 2 ^ k" unfolding cap(1) by (rule word_power_nat(2) [OF cap(2)])
  have u2: "unat ?cap = 2 ^ Suc k" unfolding c(1) by (rule word_power_nat(1) [OF c(2)])
  have c0: "?cap \<noteq> 0" using u2 by (metis power_not_zero unat_eq_0 zero_neq_numeral)
  have half: "?cap div 2 = capacity G"
    unfolding word_unat_eq_iff unat_div u2 u1 by simp
  note ts = table_chains [OF t]
  have "chains_at ?cap (alloc_at G) (replicate (unat ?cap) NULL) (\<lambda>_. [])" by (simp add: chains_at_def)
  from rehash_all_ok [OF c ts(1,2) this] obtain N T where
    r: "rehash_all ?cap (allocs G) (alloc_at G, replicate (unat ?cap) NULL) = Some (N, T)"
      "chains_at ?cap N T (move_nodes (\<lambda>x. bucket ?cap (blk (alloc_at G x))) (concat ?chs) (\<lambda>_. []))"
      "\<forall>x. blk (N x) = blk (alloc_at G x) \<and> size_tag (N x) = size_tag (alloc_at G x)" by auto
  let ?ch = "move_nodes (\<lambda>x. bucket ?cap (blk (alloc_at G x))) (concat ?chs) (\<lambda>_. [])"
  let ?G = "G\<lparr>lib := s2, alloc_at := N, allocs_addr := p, allocs := T, capacity := ?cap, sweep_limit := ?cap div 2\<rparr>"
  have e: "gc_hash_resize A G = Inr ?G"
    using l r(1) by (simp add: gc_hash_resize_def Let_def)
  have "x \<in> (\<Union>i<unat ?cap. set (?ch i))" if "x \<in> nodes G ch" for x
    using that ts(3) bucket_less [OF c0] by (auto simp: move_nodes_eq)
  then have n: "nodes ?G ?ch = nodes G ch"
    using ts(3) by (auto simp: nodes_def [of ?G] move_nodes_eq)
  have "inj_on (\<lambda>x. blk (N x)) (nodes G ch)" using tbl_okD(8) [OF t] r(3) by (simp add: inj_on_def)
  then have "tbl_ok ?G ?ch"
    using r(2,3) ts(2) tbl_okD(7) [OF t] c0 n unfolding tbl_ok_def
    by (simp add: chains_at_def move_nodes_eq)
  with e n r(3) half show ?thesis by (intro exI [of _ ?G] exI [of _ ?ch]) simp
qed

end
