(* ===== verification/Gc_Correct.thy ===== *)
theory Gc_Correct
  imports Gc_Collect Gc_Resize Alloc_Correct
begin

text \<open>
  The collector on top of the allocator of \<open>src/wlmalloc.c\<close>: what tracked allocation, collection, explicit
  freeing and the doubling of the table guarantee to a program.
\<close>

definition wl_lib :: "os_env \<Rightarrow> addr \<Rightarrow> wl libc" where
  "wl_lib E tc = \<lparr>lib_malloc = malloc E tc, lib_calloc = calloc E tc, lib_realloc = realloc E tc,
     lib_free = free E tc, lib_bytes = mem\<rparr>"

lemma wl_lib_simps [simp]:
  "lib_malloc (wl_lib E tc) = malloc E tc" "lib_calloc (wl_lib E tc) = calloc E tc"
  "lib_realloc (wl_lib E tc) = realloc E tc" "lib_free (wl_lib E tc) = free E tc" "lib_bytes (wl_lib E tc) = mem"
  by (simp_all add: wl_lib_def)

interpretation gcs: gc_store "\<lambda>s H. env_ok E tc \<and> client_inv E tc s H" "can_ask E tc" "wl_lib E tc"
  "\<lambda>m s. s\<lparr>mem := m\<rparr>" for E tc
  unfolding gc_store_def wl_lib_simps by (rule bs.block_store_axioms)

text \<open>The collector and the allocator below it, in a state where the program holds \<open>H\<close>.\<close>

definition gc_ok :: "os_env \<Rightarrow> addr \<Rightarrow> wl gc_t \<Rightarrow> (nat \<Rightarrow> addr list) \<Rightarrow> holdings \<Rightarrow> bool" where
  "gc_ok E tc G ch H \<longleftrightarrow> env_ok E tc \<and> client_inv E tc (lib G) H \<and> gc_holds G ch H \<and> clean G ch"

subsection \<open>A concrete collector\<close>

text \<open>Right after \<open>gc_init\<close>, with the table at some address outside the pool; the stack is empty.\<close>

definition demo_gc :: "wl gc_t" where
  "demo_gc = \<lparr>lib = start_state, alloc_at = (\<lambda>_. \<lparr>blk = 0, size_tag = 0, chain_next = 0\<rparr>), bos = 0, allocs_addr = 72,
     allocs = replicate 4096 NULL, capacity = 4096, gc_size = 0, sweep_limit = 2048, gc_cnt = 0\<rparr>"

lemma demo_gc_ok: "gc_ok demo_env 8192 demo_gc (\<lambda>_. []) Map.empty"
  by (simp add: gc_ok_def demo_env_ok start_inv gc_holds_def tbl_ok_def nodes_def blocks_of_def clean_def demo_gc_def)

text \<open>
  A tracked allocation that triggers no collection either stops the process for lack of memory or
  returns a block of the rounded size that is new and apart from all others; the collector then knows
  the block, keeps its own books apart from it, and everything it knew before it knows still.
\<close>

theorem gc_malloc_tracks:
  assumes "gc_ok E tc G ch H" "nbytes \<noteq> 0" "\<not> gc_need_collect G" "unat (gc_size G) + 1 < 2 ^ 64"
    and "can_ask E tc (lib G) (round8 nbytes)"
    and "\<forall>p s. malloc E tc (lib G) (round8 nbytes) = Inr (p, s) \<longrightarrow> can_ask E tc s sizeof_alloc"
  shows "case gc_malloc (wl_lib E tc) d tos G nbytes of
      Inl e \<Rightarrow> e = Exit
    | Inr (p, G') \<Rightarrow> \<exists>a ch'. gc_ok E tc G' ch' (H(p \<mapsto> unat (round8 nbytes), a \<mapsto> 24)) \<and> H p = None \<and> H a = None \<and>
        p \<noteq> a \<and> mem (lib G') = mem (lib G) \<and> tracked G G' ch ch' a p (round8 nbytes)"
proof -
  have ok: "env_ok E tc \<and> client_inv E tc (lib G) H" "gc_holds G ch H" "clean G ch" using assms(1) by (simp_all add: gc_ok_def)
  have red: "gc_malloc (wl_lib E tc) d tos G nbytes =
      bindE (malloc E tc (lib G) (round8 nbytes)) (\<lambda>(ret, s).
        bindE (register_alloc (wl_lib E tc) (G\<lparr>lib := s\<rparr>) ret (round8 nbytes)) (\<lambda>G2. Inr (ret, G2)))"
    using assms(2,3) by (simp add: gc_malloc_def collect_if_needed_def)
  show ?thesis
  proof (cases "malloc E tc (lib G) (round8 nbytes)")
    case (Inl e)
    then show ?thesis using bs.alloc_error [OF ok(1) assms(5)] red by simp
  next
    case (Inr ps)
    obtain p s where ps: "ps = (p, s)" by fastforce
    note m = Inr [unfolded ps]
    have pn: "p \<noteq> NULL" using malloc_not_null ok(1) assms(5) m by blast
    note a1 = bs.alloc [OF ok(1) assms(5) m pn]
    have ask: "can_ask E tc s sizeof_alloc" using assms(6) m by blast
    show ?thesis
    proof (cases "malloc E tc s sizeof_alloc")
      case (Inl e)
      then have "e = Exit" using bs.alloc_error [OF _ ask] a1 by blast
      then show ?thesis using red m Inl pn by (simp add: register_alloc_def)
    next
      case (Inr as)
      obtain a s2 where a: "malloc E tc s sizeof_alloc = Inr (a, s2)" using Inr by (cases as) auto
      moreover have "a \<noteq> NULL" using malloc_not_null a1 ask a by blast
      ultimately show ?thesis
        using gcs.malloc_ok [OF ok(2,1,3) assms(4,3,2,5) _ pn ask, of a s2 d tos] m
        by (fastforce simp: gc_ok_def sizeof_alloc_def)
    qed
  qed
qed

lemma round8_100: "round8 100 = 104"
  by (simp add: round8_def)

lemma demo_gc_asks:
  obtains p s a t where "malloc demo_env 8192 start_state 104 = Inr (p, s)" "can_ask demo_env 8192 s sizeof_alloc"
    "malloc demo_env 8192 s sizeof_alloc = Inr (a, t)" "can_ask demo_env 8192 start_state 104" "demo_run t 100"
  using demo_two [of 104 24] demo_can_ask [of 104] by (auto simp: sizeof_alloc_def)

lemma demo_gc_fields:
  "lib demo_gc = start_state" "\<not> gc_need_collect demo_gc" "unat (gc_size demo_gc) + 1 < 2 ^ 64" "nodes demo_gc (\<lambda>_. []) = {}"
  by (simp_all add: demo_gc_def gc_need_collect_def nodes_def)

text \<open>One tracked block of 100 bytes (its node \<open>a\<close>), from the initial collector.\<close>

lemma demo_gc_malloc:
  "\<exists>p a G ch. gc_malloc (wl_lib demo_env 8192) 1 tos demo_gc 100 = Inr (p, G) \<and>
     gc_ok demo_env 8192 G ch [p \<mapsto> 104, a \<mapsto> 24] \<and> tracked demo_gc G (\<lambda>_. []) ch a p 104 \<and>
     p \<noteq> a \<and> demo_run (lib G) 100"
proof -
  obtain p s a t where d: "malloc demo_env 8192 start_state 104 = Inr (p, s)" "can_ask demo_env 8192 s sizeof_alloc"
    "malloc demo_env 8192 s sizeof_alloc = Inr (a, t)" "can_ask demo_env 8192 start_state 104" "demo_run t 100"
    by (rule demo_gc_asks)
  have ok: "gc_holds demo_gc (\<lambda>_. []) Map.empty" "env_ok demo_env 8192 \<and> client_inv demo_env 8192 (lib demo_gc) Map.empty"
    "clean demo_gc (\<lambda>_. [])" using demo_gc_ok by (simp_all add: gc_ok_def)
  have pn: "p \<noteq> NULL" using malloc_not_null [OF demo_env_ok start_inv d(4,1)] .
  have "client_inv demo_env 8192 s [p \<mapsto> unat (104 :: size_t)]" using malloc_step [OF demo_env_ok start_inv d(4,1)] by blast
  from malloc_not_null [OF demo_env_ok this d(2,3)] have an: "a \<noteq> NULL" .
  from gcs.malloc_ok [OF ok demo_gc_fields(3,2), of 100 p s a t 1 tos] d pn an show ?thesis
    by (fastforce simp: gc_ok_def round8_100 demo_gc_fields(1) sizeof_alloc_def)
qed

lemma gc_malloc_tracks_witness:
  "case gc_malloc (wl_lib demo_env 8192) 1 0 demo_gc 100 of
     Inl e \<Rightarrow> e = Exit
   | Inr (p, G') \<Rightarrow> mem (lib G') = mem start_state \<and> (\<exists>a. search G' p = Some a \<and> size_tag (alloc_at G' a) = 104)"
proof -
  obtain p s a t where d: "malloc demo_env 8192 start_state 104 = Inr (p, s)" "can_ask demo_env 8192 s sizeof_alloc"
    "malloc demo_env 8192 s sizeof_alloc = Inr (a, t)" "can_ask demo_env 8192 start_state 104" "demo_run t 100"
    by (rule demo_gc_asks)
  have n: "(100 :: size_t) \<noteq> 0" by simp
  have "can_ask demo_env 8192 (lib demo_gc) (round8 100)"
    "\<forall>p s. malloc demo_env 8192 (lib demo_gc) (round8 100) = Inr (p, s) \<longrightarrow> can_ask demo_env 8192 s sizeof_alloc"
    using d by (auto simp: round8_100 demo_gc_fields(1))
  from gc_malloc_tracks [OF demo_gc_ok n demo_gc_fields(2,3) this, of 1 0] show ?thesis
    by (auto simp: tracked_def round8_100 demo_gc_fields(1) split: sum.splits)
qed

subsection \<open>Collection\<close>

text \<open>
  C13: The marking phase ends within a recursion depth of one more than the number of blocks, however the
  blocks point at each other, and marks exactly the blocks that the words between the stack pointer and
  the bottom of the stack lead to, directly or through words of other blocks.
\<close>

theorem gc_mark_exact:
  assumes "tbl_ok G ch" "clean G ch" "card (nodes G ch) < d"
  shows "\<exists>G'. gc_mark A d tos G = Some G' \<and>
    (\<forall>x \<in> nodes G ch. marked (alloc_at G' x) \<longleftrightarrow> reachable A G ch [tos ..< bos G + 1] x)"
proof -
  have "gc_mark A d tos G = Some (mark_all (live_nodes A tos G ch) G)"
    using gc_mark_spec [OF assms(1) _ assms(3)] assms(2) by (simp add: clean_def)
  moreover have "marked (alloc_at (mark_all (live_nodes A tos G ch) G) x) \<longleftrightarrow> reachable A G ch [tos ..< bos G + 1] x"
    if "x \<in> nodes G ch" for x
    using that assms(2) by (auto simp: alloc_at_mark_all live_nodes_def clean_def marks_def)
  ultimately show ?thesis by blast
qed

text \<open>
  C12: A collection on a well-formed table that need not be doubled afterwards (\<open>table_fits\<close>; C11 covers the doubling)
  gives back exactly the blocks that are not reachable, each with its node and exactly once; it neither fails nor
  blocks, keeps every byte of memory, and afterwards the collector knows exactly the reachable blocks, at their
  sizes and unmarked, and has counted the others.
\<close>

theorem gc_collect_exact:
  assumes "gc_ok E tc G ch H" "card (nodes G ch) < d"
    and "table_fits G (card (live_nodes (wl_lib E tc) tos G ch))"
  shows "\<exists>G' ch'. gc_collect (wl_lib E tc) d tos G = Inr G' \<and>
    nodes G' ch' = {x. reachable (wl_lib E tc) G ch [tos ..< bos G + 1] x} \<and>
    gc_ok E tc G' ch' (without G (nodes G ch - nodes G' ch') H) \<and> collected (wl_lib E tc) G G' ch (nodes G' ch')"
proof -
  have ok: "gc_holds G ch H" "env_ok E tc \<and> client_inv E tc (lib G) H" "clean G ch"
    using assms(1) by (simp_all add: gc_ok_def)
  from gcs.collect_ok [OF ok assms(2,3)] show ?thesis
    unfolding gc_ok_def live_nodes_def by metis
qed

lemma demo_unreachable: "reachable A G ch [] x \<longleftrightarrow> False"
proof
  show False if "reachable A G ch [] x" using that by induction simp_all
qed simp

lemma gc_mark_exact_witness:
  "\<exists>p a G G'. gc_malloc (wl_lib demo_env 8192) 1 9 demo_gc 100 = Inr (p, G) \<and> search G p = Some a \<and>
     gc_mark (wl_lib demo_env 8192) 2 9 G = Some G' \<and> \<not> marked (alloc_at G' a)"
proof -
  obtain p a G ch where r: "gc_malloc (wl_lib demo_env 8192) 1 9 demo_gc 100 = Inr (p, G)"
    "gc_ok demo_env 8192 G ch [p \<mapsto> 104, a \<mapsto> 24]" "tracked demo_gc G (\<lambda>_. []) ch a p 104"
    using demo_gc_malloc by blast
  have n: "nodes G ch = {a}" "search G p = Some a" "bos G = 0" using r(3) demo_gc_fields(4)
    by (simp_all add: tracked_def same_fields_def demo_gc_def)
  have "tbl_ok G ch" "clean G ch" "card (nodes G ch) < 2" using r(2) n(1) by (simp_all add: gc_ok_def gc_holds_def)
  from gc_mark_exact [OF this, of "wl_lib demo_env 8192" 9] obtain G' where
    "gc_mark (wl_lib demo_env 8192) 2 9 G = Some G'" "\<not> marked (alloc_at G' a)"
    by (auto simp: n(1,3) demo_unreachable)
  with r(1) n(2) show ?thesis by blast
qed

lemma gc_collect_exact_witness:
  "\<exists>p G G'. gc_malloc (wl_lib demo_env 8192) 1 9 demo_gc 100 = Inr (p, G) \<and>
     gc_collect (wl_lib demo_env 8192) 2 9 G = Inr G' \<and> gc_collected G' = 1 \<and> mem (lib G') = mem (lib G)"
proof -
  obtain p a G ch where r: "gc_malloc (wl_lib demo_env 8192) 1 9 demo_gc 100 = Inr (p, G)"
    "gc_ok demo_env 8192 G ch [p \<mapsto> 104, a \<mapsto> 24]" "tracked demo_gc G (\<lambda>_. []) ch a p 104"
    using demo_gc_malloc by blast
  have n: "nodes G ch = {a}" "bos G = 0" "gc_collected G = 0" using r(3) demo_gc_fields(4)
    by (simp_all add: tracked_def same_fields_def demo_gc_def gc_collected_def)
  have z: "{x. reachable A G ch [9 ..< bos G + 1] x} = {}" for A
    by (simp add: n(2) demo_unreachable)
  have d: "card (nodes G ch) < 2" using n(1) by simp
  have "table_fits G (card (live_nodes (wl_lib demo_env 8192) 9 G ch))"
    unfolding live_nodes_def z by (simp add: table_fits_def)
  from gc_collect_exact [OF r(2) d this] obtain G' ch' where
    G': "gc_collect (wl_lib demo_env 8192) 2 9 G = Inr G'" "nodes G' ch' = {}"
      "collected (wl_lib demo_env 8192) G G' ch (nodes G' ch')" unfolding z by blast
  have "gc_collected G' = 1 \<and> mem (lib G') = mem (lib G)" using G'(2,3) n by (simp add: collected_def)
  with r(1) G'(1) show ?thesis by blast
qed

subsection \<open>Explicit freeing and the table\<close>

text \<open>
  C15: \<open>gc_free\<close> of a tracked block gives back the block and its node and forgets it; the other blocks stay
  known, and the call never fails.
\<close>

theorem gc_free_exact:
  assumes "gc_ok E tc G ch H" "a \<in> nodes G ch"
  shows "\<exists>G' ch'. gc_free (wl_lib E tc) G (blk (alloc_at G a)) = Inr G' \<and> nodes G' ch' = nodes G ch - {a} \<and>
    gc_ok E tc G' ch' (without G {a} H) \<and> search G' (blk (alloc_at G a)) = Some NULL \<and> mem (lib G') = mem (lib G) \<and>
    gc_collected G' = gc_collected G + 1"
proof -
  have ok: "gc_holds G ch H" "env_ok E tc \<and> client_inv E tc (lib G) H" "clean G ch"
    using assms(1) by (simp_all add: gc_ok_def)
  have t: "tbl_ok G ch" using ok(1) by (simp add: gc_holds_def)
  from gcs.free_ok [OF ok(1,2) assms(2)] obtain G' ch' where
    G': "gc_free (wl_lib E tc) G (blk (alloc_at G a)) = Inr G'" "gc_holds G' ch' (without G {a} H)"
      "client_inv E tc (lib G') (without G {a} H)" "nodes G' ch' = nodes G ch - {a}"
      "swept (wl_lib E tc) G G' {a} {}" by blast
  have "blk (alloc_at G a) \<notin> (\<lambda>x. blk (alloc_at G' x)) ` nodes G' ch'"
    using inj_onD [OF tbl_okD(8) [OF t], of a] assms(2) G'(4,5) by (auto simp: swept_def)
  moreover have "tbl_ok G' ch'" using G'(2) by (simp add: gc_holds_def)
  ultimately have "search G' (blk (alloc_at G a)) = Some NULL" by (metis search_NULL)
  moreover have "clean G' ch'"
    using ok(3) G'(4) swept_marked [OF G'(5)] by (auto simp: clean_def marks_def)
  moreover have "mem (lib G') = mem (lib G)" "gc_collected G' = gc_collected G + 1"
    using G'(5) by (simp_all add: swept_def gc_collected_def)
  ultimately show ?thesis using G' ok(2) unfolding gc_ok_def by blast
qed

lemma gc_free_exact_witness:
  "\<exists>p G G'. gc_malloc (wl_lib demo_env 8192) 1 0 demo_gc 100 = Inr (p, G) \<and>
     gc_free (wl_lib demo_env 8192) G p = Inr G' \<and> search G' p = Some NULL"
proof -
  obtain p a G ch where r: "gc_malloc (wl_lib demo_env 8192) 1 0 demo_gc 100 = Inr (p, G)"
    "gc_ok demo_env 8192 G ch [p \<mapsto> 104, a \<mapsto> 24]" "tracked demo_gc G (\<lambda>_. []) ch a p 104"
    using demo_gc_malloc by blast
  have "a \<in> nodes G ch" "blk (alloc_at G a) = p" using r(3) by (simp_all add: tracked_def)
  from gc_free_exact [OF r(2) this(1)] this(2) r(1) show ?thesis by auto
qed

text \<open>
  Doubling a table whose size is a power of two keeps every block in it, each node in the bucket its
  block hashes to, and sets the sweep limit to half of the new size.
\<close>

theorem gc_resize_keeps:
  assumes "tbl_ok G ch" "capacity G = 2 ^ k" "k < 63"
    and "lib_calloc A (lib G) (capacity G * 2) sizeof_ptr = Inr (p, s1)" "p \<noteq> NULL"
    and "lib_free A s1 (allocs_addr G) = Inr s2"
  shows "\<exists>G' ch'. gc_hash_resize A G = Inr G' \<and> tbl_ok G' ch' \<and> nodes G' ch' = nodes G ch \<and>
    capacity G' = capacity G * 2 \<and> sweep_limit G' = capacity G \<and> gc_size G' = gc_size G \<and>
    (\<forall>q. search G' q = search G q)"
proof -
  obtain G' ch' where G': "gc_hash_resize A G = Inr G'" "tbl_ok G' ch'" "nodes G' ch' = nodes G ch"
    "capacity G' = capacity G * 2" "sweep_limit G' = capacity G" "gc_size G' = gc_size G"
    "\<forall>x. blk (alloc_at G' x) = blk (alloc_at G x)"
    using resize_ok [OF assms] by blast
  have "search G' q = search G q" for q
  proof (cases "\<exists>x \<in> nodes G ch. blk (alloc_at G x) = q")
    case True
    then show ?thesis using search_unique [OF assms(1)] search_unique [OF G'(2)] G'(3,7) by metis
  next
    case False
    then have "q \<notin> (\<lambda>x. blk (alloc_at G x)) ` nodes G ch" "q \<notin> (\<lambda>x. blk (alloc_at G' x)) ` nodes G' ch'"
      using G'(3,7) by auto
    then show ?thesis using search_NULL [OF assms(1)] search_NULL [OF G'(2)] by metis
  qed
  with G' show ?thesis by blast
qed

text \<open>A library whose \<open>calloc\<close> always answers 72.\<close>

definition toy_lib :: "nat libc" where
  "toy_lib = \<lparr>lib_malloc = (\<lambda>s sz. Inr (s, s + 32)), lib_calloc = (\<lambda>s n sz. Inr (72, s)),
     lib_realloc = (\<lambda>s p sz. Inr (p, s)), lib_free = (\<lambda>s p. Inr s), lib_bytes = (\<lambda>s x. 0)\<rparr>"

definition toy_gc :: "nat gc_t" where
  "toy_gc = \<lparr>lib = 100, alloc_at = (\<lambda>x. if x = 8 then \<lparr>blk = 48, size_tag = 16, chain_next = 0\<rparr>
      else \<lparr>blk = 16, size_tag = 8, chain_next = 8\<rparr>), bos = 0, allocs_addr = 40,
     allocs = [16], capacity = 1, gc_size = 2, sweep_limit = 1, gc_cnt = 0\<rparr>"

lemma gc_resize_keeps_witness:
  "\<exists>G'. gc_hash_resize toy_lib toy_gc = Inr G' \<and> capacity G' = 2 \<and> search G' 48 = search toy_gc 48"
proof -
  have "tbl_ok toy_gc (\<lambda>_. [16, 8])"
    by (simp add: tbl_ok_def toy_gc_def nodes_def bucket_def inj_on_def)
  from gc_resize_keeps [OF this, of 0 toy_lib 72 100 100] show ?thesis
    by (auto simp: toy_gc_def toy_lib_def)
qed

subsection \<open>The hash function\<close>

lemma xorshift_inj:
  fixes x y :: "64 word"
  assumes n: "0 < n" and e: "x XOR drop_bit n x = y XOR drop_bit n y"
  shows "x = y"
proof (rule bit_word_eqI)
  have "bit x i = bit y i" for i
  proof (induction "64 - i" arbitrary: i rule: less_induct)
    case less
    show ?case
    proof (cases "i < 64")
      case True
      then have "bit x (n + i) = bit y (n + i)"
        using less [of "n + i"] n by (cases "n + i < 64") (auto simp: bit_imp_le_length dest: bit_imp_le_length)
      moreover have "bit (x XOR drop_bit n x) i = bit (y XOR drop_bit n y) i" using e by simp
      ultimately show ?thesis by (auto simp: bit_simps)
    qed (auto dest: bit_imp_le_length)
  qed
  then show "bit x i = bit y i" if "i < LENGTH(64)" for i by simp
qed

lemma unit_mult_inj: "(c :: 64 word) * d = 1 \<Longrightarrow> x * c = y * c \<Longrightarrow> x = y"
proof -
  assume d: "c * d = 1" and e: "x * c = y * c"
  have "x = x * (c * d)" unfolding d by simp
  also have "\<dots> = y * (c * d)" using e by (simp only: mult.assoc [symmetric])
  finally show "x = y" unfolding d by simp
qed

lemma hash_steps:
  fixes k :: "64 word"
  shows "(NOT k) + push_bit 21 k = k * 2097151 - 1" "(k + push_bit 3 k) + push_bit 8 k = k * 265"
    "(k + push_bit 2 k) + push_bit 4 k = k * 21" "k + push_bit 31 k = k * 2147483649"
  by (simp_all add: push_bit_eq_mult not_eq_complement algebra_simps)

text \<open>The hash function has no collisions: different addresses have different 64-bit hashes.\<close>

theorem hash_func_injective: "inj hash_func"
proof (rule injI)
  fix a b assume e: "hash_func a = hash_func b"
  define k1 :: "64 word \<Rightarrow> 64 word" where "k1 a = a * 2097151 - 1" for a
  define k2 where "k2 a = k1 a XOR drop_bit 24 (k1 a)" for a
  define k3 where "k3 a = k2 a * 265" for a
  define k4 where "k4 a = k3 a XOR drop_bit 14 (k3 a)" for a
  define k5 where "k5 a = k4 a * 21" for a
  define k6 where "k6 a = k5 a XOR drop_bit 28 (k5 a)" for a
  have h: "hash_func a = k6 a * 2147483649" for a
    unfolding hash_func_def Let_def hash_steps k6_def k5_def k4_def k3_def k2_def k1_def by (rule refl)
  have "k6 a = k6 b" by (rule unit_mult_inj [of _ 4611686016279904257]) (use e in \<open>simp_all add: h\<close>)
  then have "k5 a = k5 b" unfolding k6_def by (rule xorshift_inj [rotated]) simp
  then have "k4 a = k4 b" unfolding k5_def by (rule unit_mult_inj [rotated, of _ _ _ 14933078535860113213]) simp
  then have "k3 a = k3 b" unfolding k4_def by (rule xorshift_inj [rotated]) simp
  then have "k2 a = k2 b" unfolding k3_def by (rule unit_mult_inj [rotated, of _ _ _ 15244667743933553977]) simp
  then have "k1 a = k1 b" unfolding k2_def by (rule xorshift_inj [rotated]) simp
  then have "a * 2097151 = b * 2097151" unfolding k1_def by simp
  then show "a = b" by (rule unit_mult_inj [rotated, of _ _ _ 9223367638806167551]) simp
qed

end
