(* ===== verification/Gc_Bugs.thy ===== *)
theory Gc_Bugs
  imports Gc_Correct Alloc_Bugs
begin

text \<open>
  Two errors of the collector: \<open>gc_realloc\<close> enters the block it returns into the table without taking out the old entry,
  and on the allocator of this repository \<open>gc_init\<close> clears bytes that do not belong to its table.
\<close>

lemma realloc_in_place:
  assumes "client_inv E tc s H" "H p = Some n" "sz \<noteq> 0" "unat sz \<le> n"
  shows "realloc E tc s p sz = Inr (p, s)"
proof -
  obtain V R m where w: "alloc_wf E tc s V R" "heap_of s V p = Some m" "n \<le> m"
    using client_inv_live [OF assms(1,2)] by metis
  have c: "core E tc s V R" using w(1) by (simp add: alloc_wf_def)
  from heap_of_inside [OF c w(2)] heap_of_blk_size [OF w(2)] w(3) assms(3,4) show ?thesis
    by (simp add: realloc_def Let_def)
qed

lemma search_front:
  assumes "bucket (capacity G) p = i" "array_get (allocs G) i = Some a" "a \<noteq> NULL" "blk (alloc_at G a) = p"
  shows "search G p = Some a"
  using assms by (simp add: search_def search_chain.simps)

text \<open>
  C29: When the new size still fits into the block, \<open>gc_realloc\<close> returns the same block and enters it a
  second time. Freeing it once gives the block back to the allocator, yet the collector still knows the
  old entry: the next collection (or a second \<open>gc_free\<close>) frees the block again.
\<close>

theorem gc_realloc_enters_twice:
  assumes "gc_ok E tc G ch H" "x \<in> nodes G ch" "blk (alloc_at G x) = p" "H p = Some n"
    and "nbytes \<noteq> 0" "round8 nbytes \<noteq> 0" "unat (round8 nbytes) \<le> n" "\<not> gc_need_collect G"
    and "can_ask E tc (lib G) sizeof_alloc" "malloc E tc (lib G) sizeof_alloc = Inr (a, s)"
  shows "\<exists>G1 G2. gc_realloc (wl_lib E tc) d tos G p nbytes = Inr (p, G1) \<and>
    gc_free (wl_lib E tc) G1 p = Inr G2 \<and> client_inv E tc (lib G2) (H(p := None)) \<and>
    search G2 p = Some x"
proof -
  have ok: "gc_holds G ch H" "env_ok E tc \<and> client_inv E tc (lib G) H" using assms(1) by (simp_all add: gc_ok_def)
  have t: "tbl_ok G ch" and hH: "nodes G ch \<subseteq> dom H" "nodes G ch \<inter> blocks_of G (nodes G ch) = {}"
    "blocks_of G (nodes G ch) \<subseteq> dom H" using ok(1) by (simp_all add: gc_holds_def)
  have "a \<noteq> NULL" using malloc_not_null ok(2) assms(9,10) by blast
  note b = bs.alloc [OF ok(2) assms(9,10) this]
  let ?i = "bucket (capacity G) p" and ?H = "H(a \<mapsto> unat sizeof_alloc)"
  have an: "a \<noteq> NULL" "a \<notin> nodes G ch" "a \<noteq> p" "p \<noteq> NULL"
    using bs.not_null [of E tc s ?H a] bs.not_null [OF ok(2) assms(4)] b hH assms(4) by auto
  have i: "?i < unat (capacity G)" by (rule tbl_bucket [OF t])
  have h: "array_get (allocs G) ?i = Some (allocs G ! ?i)" using i tbl_okD(3) [OF t] by simp
  let ?N = "(alloc_at G)(a := \<lparr>blk = p, size_tag = round8 nbytes, chain_next = allocs G ! ?i\<rparr>)"
  let ?G1 = "G\<lparr>lib := s, alloc_at := ?N, allocs := (allocs G)[?i := a], gc_size := gc_size G + 1\<rparr>"
  have "realloc E tc (lib G) p (round8 nbytes) = Inr (p, lib G)"
    using realloc_in_place ok(2) assms(4,6,7) by blast
  then have r: "gc_realloc (wl_lib E tc) d tos G p nbytes = Inr (p, ?G1)"
    using assms(5,8,10) an h by (simp add: gc_realloc_def collect_if_needed_def register_alloc_def Let_def)
  have s1: "search ?G1 p = Some a"
    using i tbl_okD(3) [OF t] an by (intro search_front [where i = ?i]) simp_all
  obtain s1 where f1: "free E tc s p = Inr s1" "client_inv E tc s1 (?H(p := None))"
    using bs.release [of E tc s ?H p n] b assms(4) an by auto
  obtain s2 where f2: "free E tc s1 a = Inr s2" "client_inv E tc s2 (?H(p := None, a := None))"
    using bs.release [of E tc s1 "?H(p := None)" a "unat sizeof_alloc"] f1(2) ok(2) an by auto
  let ?G2 = "?G1\<lparr>allocs := (allocs G)[?i := allocs G ! ?i], lib := s2, gc_size := gc_size G + 1 - 1, gc_cnt := gc_cnt G + 1\<rparr>"
  have g2: "gc_free (wl_lib E tc) ?G1 p = Inr ?G2"
    using s1 an f1(1) f2(1) i tbl_okD(3) [OF t] by (simp add: gc_free_def gc_free_alloc_def unlink_alloc_def Let_def)
  have "?H(p := None, a := None) = H(p := None)" using b by auto
  then have ci: "client_inv E tc (lib ?G2) (H(p := None))" using f2(2) by simp
  have t2: "tbl_ok ?G2 ch" by (rule tbl_ok_same(1) [OF t]) (use an in auto)
  have "x \<in> nodes ?G2 ch" "blk (alloc_at ?G2 x) = p" using assms(2,3) an by (auto simp: nodes_def)
  then have "search ?G2 p = Some x" using search_unique [OF t2] by metis
  with r g2 ci show ?thesis by blast
qed

lemma gc_realloc_enters_twice_witness:
  "\<exists>p G G1 G2 x. gc_malloc (wl_lib demo_env 8192) 1 0 demo_gc 100 = Inr (p, G) \<and>
     gc_realloc (wl_lib demo_env 8192) 1 0 G p 50 = Inr (p, G1) \<and>
     gc_free (wl_lib demo_env 8192) G1 p = Inr G2 \<and> client_inv demo_env 8192 (lib G2) [x \<mapsto> 24] \<and> search G2 p = Some x"
proof -
  obtain p a G ch where r: "gc_malloc (wl_lib demo_env 8192) 1 0 demo_gc 100 = Inr (p, G)"
    "gc_ok demo_env 8192 G ch [p \<mapsto> 104, a \<mapsto> 24]" "tracked demo_gc G (\<lambda>_. []) ch a p 104" "p \<noteq> a"
    "demo_run (lib G) (Suc 99)" using demo_gc_malloc [of 0] by auto
  have tr: "nodes G ch = {a}" "blk (alloc_at G a) = p" using r(3) demo_gc_fields(4) by (simp_all add: tracked_def)
  have "unat (gc_size G) = 1" "sweep_limit G = 2048"
    using r(2,3) tr(1) by (simp_all add: gc_ok_def gc_holds_def tracked_def same_fields_def demo_gc_def)
  then have nc: "\<not> gc_need_collect G" by (simp add: gc_need_collect_def word_less_nat_alt)
  obtain b s where d: "can_ask demo_env 8192 (lib G) sizeof_alloc" "malloc demo_env 8192 (lib G) sizeof_alloc = Inr (b, s)"
    using demo_run_step [OF r(5), of sizeof_alloc] by (auto simp: sizeof_alloc_def)
  have "round8 50 = 56" by (simp add: round8_def)
  then have "a \<in> nodes G ch" "[p \<mapsto> 104, a \<mapsto> 24] p = Some (104 :: nat)" "(50 :: size_t) \<noteq> 0" "round8 50 \<noteq> 0"
    "unat (round8 50) \<le> 104" using tr r(4) by simp_all
  note tw = gc_realloc_enters_twice [OF r(2) this(1) tr(2) this(2-5) nc d, of 1 0]
  have "[p \<mapsto> 104, a \<mapsto> 24](p := None) = [a \<mapsto> (24 :: nat)]" using r(4) by auto
  with tw r(1) show ?thesis by metis
qed

subsection \<open>\<open>gc_init\<close> on the allocator\<close>

lemma check_init_mem:
  assumes "check_init E tc s = Inr t"
  shows "mem t = mem s"
  using assms
  by (auto simp: check_init_def global_init_def syscall_alloc_def upd_lnk_def thread_cache_init_fields Let_def bindE_Inr_iff
      split: if_splits)

lemma calloc_table:
  assumes "calloc E tc s DEFAULT_CAPACITY sizeof_ptr = Inr (b, s')"
  obtains t s1 where "check_init E tc s = Inr t" "large_alloc E t 32768 = Inr (b, s1)"
    "s' = s1\<lparr>mem := memset (mem s) b 0 32768\<rparr>"
proof -
  have "(4096 :: size_t) * 8 = 32768" "(32768 :: size_t) div 4096 = 8" by simp_all
  then obtain s1 where m: "malloc E tc s 32768 = Inr (b, s1)"
      "(if b = NULL then Inr (NULL, s1) else Inr (b, s1\<lparr>mem := memset (mem s1) b 0 32768\<rparr>)) =
        (Inr (b, s') :: (addr \<times> wl) outcome)"
    using assms by (fastforce simp: calloc_def DEFAULT_CAPACITY_def sizeof_ptr_def bindE_Inr_iff split: if_splits)
  have c: "size2cls 32768 = Some LARGE_CLASS" by (rule size2cls_large) simp
  obtain t where t: "check_init E tc s = Inr t" "large_alloc E t 32768 = Inr (b, s1)"
    using m(1) by (auto simp: malloc_def wl_malloc_def bindE_Inr_iff c LARGE_CLASS_def DEFAULT_CLASS_NUM_def)
  have "mem s1 = mem s" "b \<noteq> NULL"
    using t(2) check_init_mem [OF t(1)]
    by (auto simp: large_alloc_def syscall_alloc_def upd_span_def sizeof_span_def Let_def split: if_splits)
  with m(2) t that show thesis by auto
qed

text \<open>
  C27: On the allocator of this repository the table of \<open>gc_init\<close> is a large block of 32768 bytes. Its
  mapping has no room for the span header in front of it, so \<open>calloc\<close> clears the 72 bytes behind the end of the mapping,
  and the last nine buckets of the table lie there.
\<close>

theorem gc_init_overruns:
  assumes "gc_init (wl_lib E tc) frame G = Inr G'"
  shows "\<exists>cs raw. os_calls (lib G') = cs @ [Mmap 32768 raw] \<and> mapping_end raw 32768 = raw + 32768 \<and>
    allocs_addr G' = raw + 72 \<and> mem (lib G') = memset (mem (lib G)) (raw + 72) 0 32768 \<and>
    load_bytes (mem (lib G')) (mapping_end raw 32768) 72 = replicate 72 0"
proof -
  obtain b s where b: "calloc E tc (lib G) DEFAULT_CAPACITY sizeof_ptr = Inr (b, s)" "lib G' = s" "allocs_addr G' = b"
    using assms by (auto simp: gc_init_def bindE_Inr_iff)
  obtain t s1 where t: "large_alloc E t 32768 = Inr (b, s1)" "s = s1\<lparr>mem := memset (mem (lib G)) b 0 32768\<rparr>"
    using calloc_table [OF b(1)] by metis
  obtain raw where raw: "os_calls s1 = os_calls t @ [Mmap 32768 raw]" "b = raw + sizeof_span"
    using large_block_overruns_mapping [OF t(1)] by (auto simp: PAGE_def)
  have e: "mapping_end raw 32768 = raw + 32768" by (simp add: mapping_end_def PAGE_def)
  have "load_bytes (memset (mem (lib G)) (raw + 72) 0 32768) (raw + 32768) 72 = replicate 72 0"
    by (rule nth_equalityI) (auto simp: memset_def store_bytes_def)
  then show ?thesis
    using b(2,3) t(2) raw e by (auto simp: sizeof_span_def)
qed

text \<open>A process whose mappings lie one below the other, as Linux places them: the bytes belong to the first area.\<close>

definition below_env :: os_env where
  "below_env = demo_env\<lparr>mmap := (\<lambda>k sz. if k = 0 then 409600 else 376832)\<rparr>"

lemma gc_init_overruns_witness:
  "\<exists>G'. gc_init (wl_lib below_env 8192) 0 demo_gc = Inr G' \<and> allocs_addr G' = 376904 \<and>
     load_bytes (mem (lib G')) 409600 72 = replicate 72 0"
proof -
  obtain g where g: "global_init below_env (start_state\<lparr>init_once := True\<rparr>) = Inr g"
      "os_calls g = [Mmap (of_nat ALLOC_UNIT) 409600]"
    by (simp add: global_init_def syscall_alloc_def upd_lnk_def below_env_def start_state_def Let_def MAP_FAILED_def)
  let ?t = "thread_cache_init 8192 g"
  have t: "check_init below_env 8192 start_state = Inr ?t"
    using g(1) by (simp add: check_init_def start_state_def)
  have "os_calls ?t = os_calls g" by (simp add: thread_cache_init_fields)
  then have l: "\<exists>s1. large_alloc below_env ?t 32768 = Inr (376904, s1)"
    using g(2) by (simp add: large_alloc_def syscall_alloc_def below_env_def Let_def MAP_FAILED_def sizeof_span_def)
  have c: "size2cls 32768 = Some LARGE_CLASS" by (rule size2cls_large) simp
  obtain s where s: "calloc below_env 8192 start_state DEFAULT_CAPACITY sizeof_ptr = Inr (376904, s)"
    using l by (auto simp: calloc_def malloc_def wl_malloc_def t c LARGE_CLASS_def DEFAULT_CLASS_NUM_def
      DEFAULT_CAPACITY_def sizeof_ptr_def Let_def)
  obtain G' where G': "gc_init (wl_lib below_env 8192) 0 demo_gc = Inr G'" "allocs_addr G' = 376904"
    using s by (simp add: gc_init_def demo_gc_fields(1))
  from gc_init_overruns [OF G'(1)] G' show ?thesis by auto
qed

end
