(* ===== verification/Gc_Inv.thy ===== *)
theory Gc_Inv
  imports Gc_Correct
begin

text \<open>
  What holds of the collector and the library between any two calls of the interface (\<open>gc_inv\<close>): the table is a
  block of its own, its size is a power of two with the sweep limit at half of it, and every tracked block is as big
  as recorded. Also what an operation keeps (\<open>keeps_all\<close>) and adds (\<open>entered\<close>).
\<close>

text \<open>The table is a block of its own; the sweep limit is half of its size; every tracked block is as big as recorded.\<close>

definition table_inv :: "'s gc_t \<Rightarrow> bool" where
  "table_inv G \<longleftrightarrow> (\<exists>k. 12 \<le> k \<and> k \<le> 48 \<and> capacity G = 2 ^ k) \<and> sweep_limit G = capacity G div 2 \<and>
     unat (gc_size G) \<le> unat (sweep_limit G) + 1"

definition sized :: "holdings \<Rightarrow> alloc_t \<Rightarrow> bool" where
  "sized H a \<longleftrightarrow> H (blk a) = Some (unat (size_tag a)) \<and> 8 \<le> unat (size_tag a) \<and> \<not> marked a"

definition gc_inv :: "('s \<Rightarrow> holdings \<Rightarrow> bool) \<Rightarrow> 's gc_t \<Rightarrow> (nat \<Rightarrow> addr list) \<Rightarrow> holdings \<Rightarrow> bool" where
  "gc_inv ok G ch H \<longleftrightarrow> gc_holds G ch H \<and> ok (lib G) H \<and> table_inv G \<and>
     H (allocs_addr G) = Some (unat (capacity G) * 8) \<and> allocs_addr G \<notin> nodes G ch \<union> blocks_of G (nodes G ch) \<and>
     (\<forall>x \<in> nodes G ch. sized H (alloc_at G x))"

lemma gc_invD:
  assumes "gc_inv ok G ch H"
  shows "gc_holds G ch H" "ok (lib G) H" "table_inv G" "tbl_ok G ch" "clean G ch"
    "unat (gc_size G) = card (nodes G ch)"
    "H (allocs_addr G) = Some (unat (capacity G) * 8)" "allocs_addr G \<notin> nodes G ch"
    "x \<in> nodes G ch \<Longrightarrow> allocs_addr G \<noteq> blk (alloc_at G x)"
    "x \<in> nodes G ch \<Longrightarrow> sized H (alloc_at G x)"
  using assms by (auto simp: gc_inv_def gc_holds_def clean_def marks_def sized_def blocks_of_def)

text \<open>The words that the marker reads in a tracked block lie inside it.\<close>

lemma sized_scan:
  assumes "sized H a" "q \<in> set (scan_range a)"
  shows "\<exists>n. H (blk a) = Some n \<and> blk a \<le> q \<and> q + 8 \<le> blk a + n"
proof -
  have "\<not> bit (size_tag a) 0" using assms(1) by (simp add: sized_def marked_def tag_bits)
  then have "size_tag a AND NOT 1 = size_tag a"
    by (intro bit_word_eqI) (auto simp: bit_simps simp del: not_one_eq intro!: gr0I)
  with assms show ?thesis by (auto simp: sized_def scan_range_def simp del: not_one_eq)
qed

text \<open>\<open>keeps_blocks A G G' H\<close>: what the blocks of \<open>H\<close> hold is the same before and after.\<close>

definition keeps_blocks :: "'s libc \<Rightarrow> 's gc_t \<Rightarrow> 's gc_t \<Rightarrow> holdings \<Rightarrow> bool" where
  "keeps_blocks A G G' H \<longleftrightarrow>
     (\<forall>b n. H b = Some n \<longrightarrow> load_bytes (lib_bytes A (lib G')) b n = load_bytes (lib_bytes A (lib G)) b n)"

lemma keeps_blocks_same: "lib_bytes A (lib G') = lib_bytes A (lib G) \<Longrightarrow> keeps_blocks A G G' H"
  by (simp add: keeps_blocks_def)

lemma keeps_blocks_trans:
  "keeps_blocks A G G1 H \<Longrightarrow> keeps_blocks A G1 G2 K \<Longrightarrow> K \<subseteq>\<^sub>m H \<Longrightarrow> keeps_blocks A G G2 K"
  unfolding keeps_blocks_def map_le_def by (metis domI)

lemma without_le: "without G D H \<subseteq>\<^sub>m H"
  by (auto simp: without_def map_le_def restrict_map_def)

text \<open>The same entries: the nodes \<open>X\<close> with their blocks and sizes.\<close>

definition same_entries :: "'s gc_t \<Rightarrow> 's gc_t \<Rightarrow> addr set \<Rightarrow> bool" where
  "same_entries G G' X \<longleftrightarrow>
     (\<forall>x\<in>X. blk (alloc_at G' x) = blk (alloc_at G x) \<and> size_tag (alloc_at G' x) = size_tag (alloc_at G x))"

lemma same_entries_sized: "same_entries G G' X \<Longrightarrow> x \<in> X \<Longrightarrow> sized H (alloc_at G' x) = sized H (alloc_at G x)"
  by (simp add: same_entries_def sized_def marked_def)

lemma same_entries_trans: "same_entries G G1 X \<Longrightarrow> same_entries G1 G2 X \<Longrightarrow> same_entries G G2 X"
  by (simp add: same_entries_def)

lemma same_entries_mono: "same_entries G G' X \<Longrightarrow> Y \<subseteq> X \<Longrightarrow> same_entries G G' Y"
  by (auto simp: same_entries_def)

lemma same_entries_blocks: "same_entries G G' X \<Longrightarrow> blocks_of G' X = blocks_of G X"
  by (simp add: same_entries_def blocks_of_def)

text \<open>\<open>same_blocks\<close>: and what the blocks hold is the same, too.\<close>

definition contents :: "'s libc \<Rightarrow> 's gc_t \<Rightarrow> addr \<Rightarrow> byte list" where
  "contents A G x = load_bytes (lib_bytes A (lib G)) (blk (alloc_at G x)) (unat (size_tag (alloc_at G x)))"

definition same_blocks :: "'s libc \<Rightarrow> 's gc_t \<Rightarrow> 's gc_t \<Rightarrow> addr set \<Rightarrow> bool" where
  "same_blocks A G G' X \<longleftrightarrow> same_entries G G' X \<and> (\<forall>x\<in>X. contents A G' x = contents A G x)"

lemma same_blocks_trans: "same_blocks A G G1 X \<Longrightarrow> same_blocks A G1 G2 X \<Longrightarrow> same_blocks A G G2 X"
  by (auto simp: same_blocks_def intro: same_entries_trans)

lemma same_blocksI:
  assumes "same_entries G G' X" "keeps_blocks A G G' H" "\<forall>x\<in>X. sized H (alloc_at G x)"
  shows "same_blocks A G G' X"
  using assms unfolding same_blocks_def same_entries_def contents_def keeps_blocks_def sized_def by metis

text \<open>What the collector holds itself, and the blocks that the program has from the library directly.\<close>

definition own :: "'s gc_t \<Rightarrow> (nat \<Rightarrow> addr list) \<Rightarrow> addr set" where
  "own G ch = nodes G ch \<union> blocks_of G (nodes G ch) \<union> {allocs_addr G}"

definition others :: "'s gc_t \<Rightarrow> (nat \<Rightarrow> addr list) \<Rightarrow> holdings \<Rightarrow> holdings" where
  "others G ch H = H |` (- own G ch)"

lemma others_le: "others G ch H \<subseteq>\<^sub>m H"
  by (auto simp: others_def map_le_def restrict_map_def)

lemma own_held: "gc_inv ok G ch H \<Longrightarrow> own G ch \<subseteq> dom H"
  by (auto simp: gc_inv_def gc_holds_def own_def)

lemma othersD: "others G ch H b = Some n \<Longrightarrow> H b = Some n \<and> b \<notin> own G ch"
  by (auto simp: others_def restrict_map_def split: if_splits)

text \<open>\<open>keeps_all\<close>: of the blocks known before, those of \<open>X\<close> and the program's own are as they were.\<close>

definition keeps_all :: "'s libc \<Rightarrow> 's gc_t \<Rightarrow> 's gc_t \<Rightarrow> addr set \<Rightarrow> holdings \<Rightarrow> bool" where
  "keeps_all A G G' X P \<longleftrightarrow> same_blocks A G G' X \<and> keeps_blocks A G G' P \<and> bos G' = bos G"

lemma keeps_all_refl [simp]: "keeps_all A G G X P"
  by (simp add: keeps_all_def same_blocks_def same_entries_def keeps_blocks_def)

lemma keeps_all_trans: "keeps_all A G G1 X P \<Longrightarrow> keeps_all A G1 G2 X P \<Longrightarrow> keeps_all A G G2 X P"
  by (auto simp: keeps_all_def keeps_blocks_def intro: same_blocks_trans)

lemma keeps_allI:
  assumes "gc_inv ok G ch H" "same_entries G G' X" "X \<subseteq> nodes G ch" "keeps_blocks A G G' H" "bos G' = bos G"
  shows "keeps_all A G G' X (others G ch H)"
proof -
  have "\<forall>x\<in>X. sized H (alloc_at G x)" using gc_invD(10) [OF assms(1)] assms(3) by blast
  from same_blocksI [OF assms(2,4) this] show ?thesis
    using assms(4,5) others_le [of G ch H] unfolding keeps_all_def keeps_blocks_def map_le_def by (metis domI)
qed

text \<open>The same when one of the program's own blocks, \<open>p\<close>, is given to the collector or to \<open>realloc\<close>.\<close>

lemma keeps_allI_but:
  assumes "gc_inv ok G ch H" "same_entries G G' X" "X \<subseteq> nodes G ch" "p \<notin> own G ch"
    and "keeps_blocks A G G' (H(p := None))" "bos G' = bos G"
  shows "keeps_all A G G' X ((others G ch H)(p := None))"
proof -
  have "contents A G' x = contents A G x" if x: "x \<in> X" for x
  proof -
    have n: "x \<in> nodes G ch" using x assms(3) by blast
    then have "blk (alloc_at G x) \<noteq> p" using assms(4) by (auto simp: own_def blocks_of_def)
    moreover have "H (blk (alloc_at G x)) = Some (unat (size_tag (alloc_at G x)))"
      using gc_invD(10) [OF assms(1) n] by (simp add: sized_def)
    ultimately have "load_bytes (lib_bytes A (lib G')) (blk (alloc_at G x)) (unat (size_tag (alloc_at G x))) =
        load_bytes (lib_bytes A (lib G)) (blk (alloc_at G x)) (unat (size_tag (alloc_at G x)))"
      using assms(5) unfolding keeps_blocks_def by simp
    then show ?thesis using assms(2) x by (simp add: contents_def same_entries_def)
  qed
  moreover have "keeps_blocks A G G' ((others G ch H)(p := None))"
    unfolding keeps_blocks_def
  proof (intro allI impI)
    fix b n assume "((others G ch H)(p := None)) b = Some n"
    then have "b \<noteq> p" "others G ch H b = Some n" by (simp_all split: if_splits)
    then have "(H(p := None)) b = Some n" using othersD [of G ch H b n] by simp
    then show "load_bytes (lib_bytes A (lib G')) b n = load_bytes (lib_bytes A (lib G)) b n"
      using assms(5) unfolding keeps_blocks_def by blast
  qed
  ultimately show ?thesis using assms(2,6) by (simp add: keeps_all_def same_blocks_def)
qed

text \<open>What an allocation keeps: everything, or what a collection finds reachable when one is due.\<close>

definition kept_nodes :: "'s libc \<Rightarrow> addr \<Rightarrow> 's gc_t \<Rightarrow> (nat \<Rightarrow> addr list) \<Rightarrow> addr set" where
  "kept_nodes A tos G ch =
     (if gc_need_collect G then live_nodes A tos G ch else nodes G ch)"

lemma kept_nodes_sub: "kept_nodes A tos G ch \<subseteq> nodes G ch"
  using live_nodes_sub [of A tos G ch] by (simp add: kept_nodes_def)

text \<open>\<open>entered\<close>: beside the nodes \<open>L\<close> there is the new node \<open>a\<close> for the new block \<open>p\<close> of \<open>sz\<close> bytes.\<close>

definition entered :: "'s gc_t \<Rightarrow> (nat \<Rightarrow> addr list) \<Rightarrow> addr set \<Rightarrow> addr \<Rightarrow> addr \<Rightarrow> size_t \<Rightarrow> bool" where
  "entered G' ch' L a p sz \<longleftrightarrow> nodes G' ch' = insert a L \<and> a \<notin> L \<and> (\<forall>x\<in>L. blk (alloc_at G' x) \<noteq> p) \<and>
     search G' p = Some a \<and> blk (alloc_at G' a) = p \<and> size_tag (alloc_at G' a) = sz"

lemma entered_tracked:
  assumes "tracked G G' ch ch' a p sz" "tbl_ok G' ch'"
  shows "entered G' ch' (nodes G ch) a p sz"
proof -
  have "blk (alloc_at G' x) \<noteq> p" if "x \<in> nodes G ch" for x
    using inj_onD [OF tbl_okD(8) [OF assms(2)], of x a] assms(1) that by (auto simp: tracked_def)
  then show ?thesis using assms(1) by (simp add: entered_def tracked_def)
qed

subsection \<open>A library without memory\<close>

text \<open>
  The requests that the collector makes for itself and whose answer it does not test: the table of twice the size
  at the end of a collection, and the node for a new block. The predicates say that the answer is \<open>NULL\<close>.
\<close>

definition table_refused :: "'s libc \<Rightarrow> 's gc_t \<Rightarrow> bool" where
  "table_refused A G \<longleftrightarrow>
     (case lib_calloc A (lib G) (capacity G * 2) sizeof_ptr of Inl _ \<Rightarrow> False | Inr (t, _) \<Rightarrow> t = NULL)"

definition node_refused :: "'s libc \<Rightarrow> 's \<Rightarrow> bool" where
  "node_refused A s \<longleftrightarrow> (case lib_malloc A s sizeof_alloc of Inl _ \<Rightarrow> False | Inr (a, _) \<Rightarrow> a = NULL)"

definition collect_refused :: "'s libc \<Rightarrow> nat \<Rightarrow> addr \<Rightarrow> 's gc_t \<Rightarrow> bool" where
  "collect_refused A d tos G \<longleftrightarrow>
     (case gc_mark A d tos G of None \<Rightarrow> False
      | Some Gm \<Rightarrow> (case sweep_buckets A [0..<unat (capacity Gm)] Gm of Inl _ \<Rightarrow> False
         | Inr G1 \<Rightarrow> gc_need_collect G1 \<and> table_refused A G1))"

definition request_refused ::
  "'s libc \<Rightarrow> nat \<Rightarrow> addr \<Rightarrow> 's gc_t \<Rightarrow> ('s \<Rightarrow> (addr \<times> 's) outcome) \<Rightarrow> bool" where
  "request_refused A d tos G req \<longleftrightarrow>
     gc_need_collect G \<and> collect_refused A d tos G \<or>
     (case collect_if_needed A d tos G of Inl _ \<Rightarrow> False
      | Inr G1 \<Rightarrow> (case req (lib G1) of Inl _ \<Rightarrow> False | Inr (b, s) \<Rightarrow> b \<noteq> NULL \<and> node_refused A s))"

text \<open>Then the code follows a null pointer; it stops in an orderly way only when the library does.\<close>

definition stops :: "bool \<Rightarrow> stop \<Rightarrow> bool" where
  "stops refused e \<longleftrightarrow> e = Exit \<or> e = Undefined \<and> refused"

lemma stopsI [simp]: "stops R Exit" "R \<Longrightarrow> stops R Undefined"
  by (simp_all add: stops_def)

lemma stops_mono: "stops R e \<Longrightarrow> (R \<Longrightarrow> R') \<Longrightarrow> stops R' e"
  by (auto simp: stops_def)

lemma node_refused_stops:
  assumes "lib_malloc A (lib G) sizeof_alloc = Inr (NULL, s)" "p \<noteq> NULL"
  shows "register_alloc A G p sz = Inl Undefined" "node_refused A (lib G)"
  using assms by (simp_all add: register_alloc_def node_refused_def)

lemma table_refused_stops:
  assumes "lib_calloc A (lib G) (capacity G * 2) sizeof_ptr = Inr (NULL, s)"
  shows "gc_hash_resize A G = Inl Undefined" "table_refused A G"
  using assms by (simp_all add: gc_hash_resize_def table_refused_def Let_def)

subsection \<open>Rounding\<close>

lemma round8_facts:
  assumes "n \<noteq> 0" "unat n + 7 < 2 ^ 64"
  shows "unat (round8 n) = (unat n + 7) div 8 * 8" "unat n \<le> unat (round8 n)" "8 \<le> unat (round8 n)"
proof -
  have e: "n + 8 - 1 = n + 7" by simp
  have s: "unat (n + 7) = unat n + 7" using assms(2) by (simp add: unat_word_ariths)
  have d: "unat ((n + 7) div 8) = (unat n + 7) div 8" by (simp add: unat_div s)
  have l: "(unat n + 7) div 8 * 8 \<le> unat n + 7" by simp
  show r: "unat (round8 n) = (unat n + 7) div 8 * 8"
    unfolding round8_def e using unat_mult_small [of "(n + 7) div 8" 8] l assms(2) by (simp add: d)
  show "unat n \<le> unat (round8 n)" unfolding r by simp
  moreover have "0 < unat n" using assms(1) by (simp add: unat_gt_0)
  ultimately show "8 \<le> unat (round8 n)" unfolding r by presburger
qed

lemma round8_wraps:
  assumes "2 ^ 64 < unat n + 8"
  shows "round8 n = 0"
proof -
  have e: "n + 8 - 1 = n + 7" by simp
  have "unat n < 2 ^ 64" using unsigned_less [of n, where 'a = nat] by simp
  then obtain r where r: "unat n + 7 = r + 2 ^ 64" "r < 7"
    using assms le_Suc_ex [of "2 ^ 64" "unat n + 7"] by (auto simp: add.commute)
  have "unat (n + 7) = (r + 2 ^ 64) mod 2 ^ 64" unfolding r(1) [symmetric] by (simp add: unat_word_ariths)
  also have "\<dots> \<le> r" unfolding mod_add_self2 by (rule mod_less_eq_dividend)
  finally have "unat (n + 7) < 8" using r(2) by simp
  then have "unat ((n + 7) div 8) = 0" by (simp add: unat_div)
  then show ?thesis by (simp add: round8_def e unat_eq_0)
qed

lemma round8_even: "(round8 n * m) AND 1 = 0"
proof -
  have "round8 n * m = push_bit 3 ((n + 8 - 1) div 8 * m)"
    by (simp add: round8_def push_bit_eq_mult algebra_simps)
  then have "\<not> bit (round8 n * m) 0" by (simp add: bit_simps)
  then show ?thesis using tag_bits(1) by blast
qed

subsection \<open>Bounds on the table\<close>

lemma table_inv_bounds:
  assumes "table_inv G"
  obtains k where "12 \<le> k" "k \<le> 48" "capacity G = 2 ^ k" "unat (capacity G) = 2 ^ k" "unat (sweep_limit G) = 2 ^ (k - 1)"
proof -
  obtain k where k: "12 \<le> k" "k \<le> 48" "capacity G = 2 ^ k" "sweep_limit G = capacity G div 2"
    using assms by (auto simp: table_inv_def)
  have u: "unat (capacity G) = 2 ^ k" unfolding k(3) using k(2) by (intro word_power_nat) simp
  have "unat (sweep_limit G) = 2 ^ k div 2" unfolding k(4) by (simp add: unat_div u)
  also have "\<dots> = 2 ^ (k - 1)" using k(1) by (cases k) simp_all
  finally show thesis using that k u by blast
qed

lemma table_ask_nonzero: "table_inv G \<Longrightarrow> capacity G * 2 * sizeof_ptr \<noteq> 0"
proof -
  assume "table_inv G"
  then obtain k where k: "k \<le> 48" "capacity G = 2 ^ k" using table_inv_bounds by metis
  have "unat (2 ^ (k + 4) :: size_t) = 2 ^ (k + 4)" using k(1) by (intro word_power_nat) simp
  then have "(2 :: size_t) ^ (k + 4) \<noteq> 0" by (metis power_not_zero unat_0 zero_neq_numeral)
  then show ?thesis by (simp add: k(2) sizeof_ptr_def power_add mult.commute)
qed

text \<open>The factor 0.7 is never what asks for a bigger table.\<close>

lemma table_inv_load:
  assumes "table_inv G"
  shows "unat (gc_size G) \<le> unat (capacity G) div 2 + 1" "\<not> gc_need_resize G"
proof -
  obtain k where k: "12 \<le> k" "unat (capacity G) = 2 ^ k" "unat (sweep_limit G) = 2 ^ (k - 1)"
    using table_inv_bounds [OF assms] by metis
  have e: "(2 :: nat) ^ k = 2 * 2 ^ (k - 1)" using k(1) by (cases k) simp_all
  have l: "unat (gc_size G) \<le> 2 ^ (k - 1) + 1" using assms k(3) by (simp add: table_inv_def)
  show "unat (gc_size G) \<le> unat (capacity G) div 2 + 1" using l unfolding k(2) e by simp
  have "(2 :: nat) ^ 11 \<le> 2 ^ (k - 1)" using k(1) by (intro power_increasing) auto
  then show "\<not> gc_need_resize G" using l unfolding gc_need_resize_def k(2) e by simp
qed

end
