(* ===== verification/Gc_Heap.thy ===== *)
theory Gc_Heap
  imports Gc_Inv
begin

text \<open>
  The collector with the memory of its own hash table. \<open>gc_heap\<close> is the store of blocks with \<open>calloc\<close> and \<open>realloc\<close>
  and with addresses below \<open>2 ^ 47\<close>; any request may be answered with \<open>NULL\<close>. Inside it every operation keeps
  \<open>gc_inv\<close>, a collection also when it doubles the table.
\<close>

locale gc_heap = gc_store ok ask A set_bytes
  for ok :: "'s \<Rightarrow> holdings \<Rightarrow> bool" and ask :: "'s \<Rightarrow> size_t \<Rightarrow> bool" and A :: "'s libc"
    and set_bytes :: "bytes \<Rightarrow> 's \<Rightarrow> 's" +
  assumes bounded: "ok s H \<Longrightarrow> H b = Some n \<Longrightarrow> b + n \<le> 2 ^ 47"
    and calloc: "ok s H \<Longrightarrow> ask s (num * sz) \<Longrightarrow> unat num * unat sz < 2 ^ 64 \<Longrightarrow>
      lib_calloc A s num sz = Inr (b, s') \<Longrightarrow> b \<noteq> NULL \<Longrightarrow> H b = None \<and> ok s' (H(b \<mapsto> unat (num * sz))) \<and>
      lib_bytes A s' = memset (lib_bytes A s) b 0 (unat (num * sz))"
    and calloc_null: "ok s H \<Longrightarrow> ask s (num * sz) \<Longrightarrow> unat num * unat sz < 2 ^ 64 \<Longrightarrow>
      lib_calloc A s num sz = Inr (NULL, s') \<Longrightarrow> ok s' H \<and> lib_bytes A s' = lib_bytes A s"
    and calloc_error: "ok s H \<Longrightarrow> ask s (num * sz) \<Longrightarrow> unat num * unat sz < 2 ^ 64 \<Longrightarrow>
      lib_calloc A s num sz = Inl e \<Longrightarrow> e = Exit"
    and realloc: "ok s H \<Longrightarrow> ask s sz \<Longrightarrow> p = NULL \<or> H p \<noteq> None \<Longrightarrow> lib_realloc A s p sz = Inr (b, s') \<Longrightarrow> b \<noteq> NULL \<Longrightarrow>
      (b = p \<or> H b = None) \<and> ok s' (H(p := None, b \<mapsto> unat sz)) \<and> keeps (lib_bytes A s) (lib_bytes A s') H p"
    and realloc_null: "ok s H \<Longrightarrow> ask s sz \<Longrightarrow> p = NULL \<or> H p \<noteq> None \<Longrightarrow> lib_realloc A s p sz = Inr (NULL, s') \<Longrightarrow>
      ok s' H \<and> lib_bytes A s' = lib_bytes A s"
    and realloc_fails: "ok s H \<Longrightarrow> ask s sz \<Longrightarrow> p = NULL \<or> H p \<noteq> None \<Longrightarrow> lib_realloc A s p sz = Inl e \<Longrightarrow> e = Exit"

context gc_heap
begin

lemma card_nodes:
  assumes "gc_inv ok G ch H"
  shows "card (nodes G ch) \<le> 2 ^ 47"
proof -
  note i = gc_invD [OF assms]
  have "nodes G ch \<subseteq> {1..2 ^ 47}"
  proof
    fix x assume x: "x \<in> nodes G ch"
    then obtain n where "H x = Some n" using i(1) by (auto simp: gc_holds_def)
    with bounded [OF i(2) this] not_null [OF i(2) this] show "x \<in> {1..2 ^ 47}" by simp
  qed
  from card_mono [OF _ this] show ?thesis by simp
qed

lemma calloc_keeps:
  assumes "ok s H" "ask s (num * sz)" "unat num * unat sz < 2 ^ 64" "lib_calloc A s num sz = Inr (b, s')" "b \<noteq> NULL"
    and c: "H c = Some k"
  shows "load_bytes (lib_bytes A s') c k = load_bytes (lib_bytes A s) c k"
proof -
  note a = calloc [OF assms(1-5)]
  have cb: "c \<noteq> b" using a c by auto
  have "(H(b \<mapsto> unat (num * sz))) b = Some (unat (num * sz))" "(H(b \<mapsto> unat (num * sz))) c = Some k"
    using c cb by simp_all
  from live_apart [of s', OF _ this] a cb have "apart b (unat (num * sz)) c k" by blast
  then show ?thesis
    using a unfolding memset_def by (simp add: apart_def) (rule load_store_other, auto)
qed

subsection \<open>Doubling the table\<close>

lemma resize_inv:
  assumes i: "gc_inv ok G ch H" and need: "gc_need_collect G"
    and q: "ask (lib G) (capacity G * 2 * sizeof_ptr)"
  shows "case gc_hash_resize A G of Inl e \<Rightarrow> stops (table_refused A G) e
    | Inr G' \<Rightarrow> \<exists>ch' H'. gc_inv ok G' ch' H' \<and> others G' ch' H' = others G ch H \<and>
        nodes G' ch' = nodes G ch \<and> \<not> gc_need_collect G' \<and> same_entries G G' (nodes G ch) \<and> keeps_blocks A G G' H \<and>
        gc_cnt G' = gc_cnt G \<and> bos G' = bos G"
proof -
  note I = gc_invD [OF i]
  obtain k where k: "12 \<le> k" "k \<le> 48" "capacity G = 2 ^ k" "unat (capacity G) = 2 ^ k"
      "unat (sweep_limit G) = 2 ^ (k - 1)"
    using table_inv_bounds [OF I(3)] by metis
  have "(2 :: nat) ^ (k - 1) < 2 ^ 47"
    using need card_nodes [OF i] k(5) I(6) by (simp add: gc_need_collect_def word_less_nat_alt)
  then have k47: "k \<le> 47" using power_less_imp_less_exp [of "2 :: nat" "k - 1" 47] by simp
  let ?cap = "capacity G * 2"
  have c: "?cap = 2 ^ Suc k" using k(3) by simp
  have u: "unat ?cap = 2 ^ Suc k" unfolding c by (rule word_power_nat) (use k47 in simp)
  have m: "(2 :: nat) ^ Suc k * 8 < 2 ^ 64"
    using power_increasing [of "Suc k" 48 "2 :: nat"] k47 by simp
  have u8: "unat ?cap * unat sizeof_ptr < 2 ^ 64" unfolding u using m by (simp add: sizeof_ptr_def)
  have n8: "unat (?cap * sizeof_ptr) = unat ?cap * 8"
    using unat_mult_small [OF u8] by (simp add: sizeof_ptr_def)
  show ?thesis
  proof (cases "lib_calloc A (lib G) ?cap sizeof_ptr")
    case (Inl e)
    then show ?thesis using calloc_error [OF I(2) q u8 Inl] by (simp add: gc_hash_resize_def Let_def)
  next
    case (Inr bs)
    obtain b s1 where b: "lib_calloc A (lib G) ?cap sizeof_ptr = Inr (b, s1)" using Inr by (cases bs) auto
    show ?thesis
    proof (cases "b = NULL")
      case True
      with table_refused_stops [of A G s1] b show ?thesis by simp
    next
      case bn: False
      note a = calloc [OF I(2) q u8 b bn]
      let ?H = "H(b \<mapsto> unat ?cap * 8)"
      have k1: "ok s1 ?H" using a n8 by simp
      have bt: "b \<noteq> allocs_addr G" using a I(7) by auto
      obtain s2 where s2: "lib_free A s1 (allocs_addr G) = Inr s2" "ok s2 (?H(allocs_addr G := None))"
          "lib_bytes A s2 = lib_bytes A s1"
        using release [OF k1, of "allocs_addr G"] I(7) bt by auto
      obtain G' ch' where G': "gc_hash_resize A G = Inr G'" "tbl_ok G' ch'" "nodes G' ch' = nodes G ch"
        "capacity G' = ?cap" "same_entries G G' (nodes G ch)"
        "lib G' = s2" "allocs_addr G' = b" "gc_size G' = gc_size G" "gc_cnt G' = gc_cnt G" "bos G' = bos G"
        "sweep_limit G' = capacity G"
        using resize_ok [OF I(4) k(3) _ b bn s2(1)] k47 by (auto simp: same_entries_def)
      let ?K = "?H(allocs_addr G := None)"
      have half: "capacity G' div 2 = capacity G"
        unfolding word_unat_eq_iff unat_div G'(4) u k(4) by simp
      have e: "(2 :: nat) ^ k = 2 * 2 ^ (k - 1)" using k(1) by (cases k) simp_all
      have l: "unat (gc_size G) \<le> 2 ^ (k - 1) + 1" using I(3) k(5) by (simp add: table_inv_def)
      have l2: "unat (gc_size G) \<le> 2 ^ k" using l unfolding e by (rule order_trans) simp
      have "table_inv G'"
        unfolding table_inv_def half G'(8,11) k(4)
        using l2 k(1) k47 c G'(4) by (intro conjI exI [of _ "Suc k"]) simp_all
      moreover have bl: "blocks_of G' (nodes G ch) = blocks_of G (nodes G ch)"
        by (rule same_entries_blocks [OF G'(5)])
      have "b \<notin> nodes G ch \<union> blocks_of G (nodes G ch)" using I(1) a by (auto simp: gc_holds_def)
      moreover have "allocs_addr G \<notin> nodes G ch \<union> blocks_of G (nodes G ch)" using i by (simp add: gc_inv_def)
      moreover have "sized ?K (alloc_at G' x)" if x: "x \<in> nodes G ch" for x
      proof -
        have "sized H (alloc_at G x)" "blk (alloc_at G x) \<noteq> allocs_addr G" "blk (alloc_at G x) \<noteq> b"
          using I(10,9) [OF x] a by (auto simp: sized_def)
        then show ?thesis unfolding same_entries_sized [OF G'(5) x] by (simp add: sized_def)
      qed
      ultimately have "gc_inv ok G' ch' ?K"
        using I(1) G'(2) s2(2) bt unfolding gc_inv_def gc_holds_def G'(3,4,6,7,8) bl by auto
      moreover have "\<not> gc_need_collect G'"
        using l2 k(4) unfolding gc_need_collect_def G'(8,11) by (simp add: word_less_nat_alt)
      moreover have "keeps_blocks A G G' H"
        using calloc_keeps [OF I(2) q u8 b bn] unfolding keeps_blocks_def G'(6) s2(3) by blast
      moreover have "others G' ch' ?K = others G ch H"
        using a unfolding others_def own_def G'(3,7) bl by (auto simp: restrict_map_def fun_eq_iff)
      ultimately show ?thesis
        unfolding G'(1) sum.case using G'(3,5,9,10) by (intro exI [of _ ch'] exI [of _ ?K]) simp
    qed
  qed
qed

subsection \<open>A collection\<close>

text \<open>What freeing the nodes \<open>D\<close> leaves.\<close>

lemma without_inv:
  assumes i: "gc_inv ok G ch H" and D: "D \<subseteq> nodes G ch" and h: "gc_holds G' ch' (without G D H)"
    and k: "ok (lib G') (without G D H)" and nl: "nodes G' ch' = nodes G ch - D" and sf: "same_fields G G'"
    and se: "same_entries G G' (nodes G ch - D)"
  shows "gc_inv ok G' ch' (without G D H)" "others G' ch' (without G D H) = others G ch H"
proof -
  note I = gc_invD [OF i]
  let ?L = "nodes G ch - D" and ?H = "without G D H"
  have f: "capacity G' = capacity G" "allocs_addr G' = allocs_addr G" "sweep_limit G' = sweep_limit G"
    using sf by (simp_all add: same_fields_def)
  have bl: "blocks_of G' ?L = blocks_of G ?L" by (rule same_entries_blocks [OF se])
  have "unat (gc_size G') \<le> unat (gc_size G)"
    using h I(6) card_mono [of "nodes G ch" ?L] by (simp add: gc_holds_def nl)
  then have t: "table_inv G'" using I(3) f by (auto simp: table_inv_def)
  have keep: "?H x = H x" if "x \<notin> D" "x \<notin> blocks_of G D" for x using that by (simp add: without_def)
  have bD: "blk (alloc_at G x) \<notin> blocks_of G D" "blk (alloc_at G x) \<notin> D" if "x \<in> ?L" for x
  proof -
    have x: "x \<in> nodes G ch" "x \<notin> D" using that by simp_all
    show "blk (alloc_at G x) \<notin> blocks_of G D"
    proof
      assume "blk (alloc_at G x) \<in> blocks_of G D"
      then obtain y where "y \<in> D" "blk (alloc_at G x) = blk (alloc_at G y)" by (auto simp: blocks_of_def)
      with inj_onD [OF tbl_okD(8) [OF I(4)] this(2) x(1)] D x(2) show False by blast
    qed
    have "nodes G ch \<inter> blocks_of G (nodes G ch) = {}" using I(1) by (simp add: gc_holds_def)
    then show "blk (alloc_at G x) \<notin> D" using D x(1) by (auto simp: blocks_of_def)
  qed
  have tD: "allocs_addr G \<notin> D" "allocs_addr G \<notin> blocks_of G D" "allocs_addr G \<notin> ?L \<union> blocks_of G ?L"
    using i D by (auto simp: gc_inv_def blocks_of_def)
  have "sized ?H (alloc_at G' x)" if "x \<in> ?L" for x
    using I(10) [of x] that keep bD [OF that] unfolding same_entries_sized [OF se that] by (auto simp: sized_def)
  then show "gc_inv ok G' ch' ?H"
    using h k t I(7) tD keep [OF tD(1,2)] unfolding gc_inv_def nl bl f by simp
  have "own G ch = D \<union> blocks_of G D \<union> own G' ch'"
    using D unfolding own_def nl bl f by (auto simp: blocks_of_def)
  then show "others G' ch' ?H = others G ch H"
    by (auto simp: others_def without_def restrict_map_def fun_eq_iff)
qed

lemma sweep_inv:
  assumes i: "gc_inv ok G ch H" and L: "L \<subseteq> nodes G ch"
  defines "D \<equiv> nodes G ch - L"
  shows "\<exists>G' ch'. sweep_buckets A [0..<unat (capacity G)] (mark_all L G) = Inr G' \<and>
    gc_inv ok G' ch' (without G D H) \<and> others G' ch' (without G D H) = others G ch H \<and> nodes G' ch' = L \<and>
    same_entries G G' L \<and> lib_bytes A (lib G') = lib_bytes A (lib G) \<and> gc_cnt G' = gc_cnt G + of_nat (card D) \<and>
    bos G' = bos G \<and> capacity G' = capacity G"
proof -
  note I = gc_invD [OF i]
  let ?G = "mark_all L G"
  have n: "nodes ?G ch = nodes G ch" using I(4) by simp
  have e: "nodes G ch \<inter> (marks G \<union> L) = L" "nodes G ch - (marks G \<union> L) = D" "nodes G ch - D = L" "D \<subseteq> nodes G ch"
    using I(5) L by (auto simp: clean_def D_def)
  have ok: "ok (lib ?G) H" using I(2) by simp
  have s: "set [0..<unat (capacity ?G)] = {..<unat (capacity G)}" "distinct [0..<unat (capacity ?G)]" by auto
  from sweep_buckets_ok [OF gc_holds_mark_all(1) [OF I(1)] ok s(2)] obtain G' ch' where
    G': "sweep_buckets A [0..<unat (capacity G)] ?G = Inr G'" "gc_holds G' ch' (without G D H)"
      "ok (lib G') (without G D H)" "nodes G' ch' = nodes G ch - D" "swept A ?G G' D L"
    unfolding s(1) using all_buckets [of ?G ch] n e by (auto simp: gc_holds_mark_all(2) [OF I(1)])
  have f: "same_fields G G'" using G'(5) by (simp add: swept_def same_fields_def)
  have se: "same_entries G G' L"
    using G'(5) clean_tag [OF I(5)] L
    by (auto simp: same_entries_def swept_def alloc_at_mark_all set_mark_def tag_bits simp del: not_one_eq)
  note w = without_inv [OF i e(4) G'(2,3,4) f, unfolded e(3), OF se]
  with G'(1,5) e(3) f G'(4) se show ?thesis
    by (intro exI [of _ G'] exI [of _ ch']) (auto simp: swept_def same_fields_def)
qed

lemma collect_inv:
  fixes tos :: addr
  assumes i: "gc_inv ok G ch H" and d: "card (nodes G ch) < d" and q: "\<forall>s. ask s (capacity G * 2 * sizeof_ptr)"
  defines "L \<equiv> live_nodes A tos G ch"
  shows "case gc_collect A d tos G of Inl e \<Rightarrow> stops (collect_refused A d tos G) e
    | Inr G' \<Rightarrow> \<exists>ch' H'. gc_inv ok G' ch' H' \<and> others G' ch' H' = others G ch H \<and> nodes G' ch' = L \<and> \<not> gc_need_collect G' \<and>
        keeps_all A G G' L (others G ch H) \<and> gc_cnt G' = gc_cnt G + of_nat (card (nodes G ch - L))"
proof -
  note I = gc_invD [OF i]
  have m: "gc_mark A d tos G = Some (mark_all L G)"
    unfolding L_def using gc_mark_spec [OF I(4) _ d] I(5) by (simp add: clean_def)
  have L: "L \<subseteq> nodes G ch" unfolding L_def by (rule live_nodes_sub)
  show ?thesis
  proof (cases "gc_size G = 0")
    case True
    then have n: "nodes G ch = {}" using I(6) by simp
    then have "L = {}" using L by blast
    then have "gc_collect A d tos G = Inr G" using m True by (simp add: gc_collect_def gc_sweep_def)
    moreover have "\<not> gc_need_collect G" using True by (simp add: gc_need_collect_def)
    ultimately show ?thesis using i n \<open>L = {}\<close> by auto
  next
    case False
    let ?K = "without G (nodes G ch - L) H"
    from sweep_inv [OF i L] obtain G1 ch1 where
      s: "sweep_buckets A [0..<unat (capacity G)] (mark_all L G) = Inr G1" "gc_inv ok G1 ch1 ?K"
        "others G1 ch1 ?K = others G ch H" "nodes G1 ch1 = L" "same_entries G G1 L"
        "lib_bytes A (lib G1) = lib_bytes A (lib G)" "gc_cnt G1 = gc_cnt G + of_nat (card (nodes G ch - L))"
        "bos G1 = bos G" "capacity G1 = capacity G" by blast
    have k: "keeps_all A G G1 L (others G ch H)"
      by (rule keeps_allI [OF i s(5) L keeps_blocks_same [OF s(6)] s(8)])
    have r: "gc_collect A d tos G = (if gc_need_collect G1 \<or> gc_need_resize G1 then gc_hash_resize A G1 else Inr G1)"
      using m False s(1) by (simp add: gc_collect_def gc_sweep_def)
    have nr: "\<not> gc_need_resize G1" by (rule table_inv_load(2) [OF gc_invD(3) [OF s(2)]])
    show ?thesis
    proof (cases "gc_need_collect G1")
      case True
      then have rr: "gc_collect A d tos G = gc_hash_resize A G1" using r by simp
      have "ask (lib G1) (capacity G1 * 2 * sizeof_ptr)" using q s(9) by simp
      note h = resize_inv [OF s(2) True this]
      have cr: "collect_refused A d tos G = table_refused A G1" using m s(1) True by (simp add: collect_refused_def)
      show ?thesis
      proof (cases "gc_hash_resize A G1")
        case (Inr G')
        from h [unfolded Inr s(4) sum.case] obtain ch' H' where
          G': "gc_inv ok G' ch' H'" "others G' ch' H' = others G1 ch1 ?K" "nodes G' ch' = L"
            "\<not> gc_need_collect G'" "same_entries G1 G' L" "keeps_blocks A G1 G' ?K" "gc_cnt G' = gc_cnt G1" "bos G' = bos G1"
          by (elim exE conjE) (rule that)
        have "keeps_all A G1 G' L (others G1 ch1 ?K)"
          by (rule keeps_allI [OF s(2) G'(5) _ G'(6,8)]) (simp add: s(4))
        with k have "keeps_all A G G' L (others G ch H)" unfolding s(3) by (rule keeps_all_trans)
        then show ?thesis
          unfolding rr Inr sum.case using G' s(3,7) by (intro exI [of _ ch'] exI [of _ H']) simp
      qed (use h rr cr in simp)
    next
      case nc: False
      with r nr have "gc_collect A d tos G = Inr G1" by simp
      then show ?thesis using s k nc by (auto intro!: exI [of _ ch1] exI [of _ ?K])
    qed
  qed
qed

subsection \<open>Allocations\<close>

text \<open>A block \<open>p\<close> that the program has from the library is entered into the table.\<close>

lemma register_inv:
  assumes i: "gc_inv ok G ch H" and nc: "\<not> gc_need_collect G" and p: "others G ch H p = Some (unat sz)"
    and sz: "sz AND 1 = 0" "8 \<le> unat sz" and q: "ask (lib G) sizeof_alloc"
  shows "case register_alloc A G p sz of Inl e \<Rightarrow> stops (node_refused A (lib G)) e
    | Inr G' \<Rightarrow> \<exists>ch' H' a. gc_inv ok G' ch' H' \<and> others G' ch' H' = (others G ch H)(p := None) \<and>
        tracked G G' ch ch' a p sz \<and> lib_bytes A (lib G') = lib_bytes A (lib G)"
proof -
  note I = gc_invD [OF i]
  let ?i = "bucket (capacity G) p"
  have hp: "H p = Some (unat sz)" "p \<notin> own G ch" using othersD [OF p] by blast+
  have pn: "p \<noteq> NULL" by (rule not_null [OF I(2) hp(1)])
  show ?thesis
  proof (cases "lib_malloc A (lib G) sizeof_alloc")
    case (Inl e)
    then show ?thesis using alloc_error [OF I(2) q Inl] pn by (simp add: register_alloc_def)
  next
    case (Inr as)
    obtain a s2 where a: "lib_malloc A (lib G) sizeof_alloc = Inr (a, s2)" using Inr by (cases as) auto
    show ?thesis
    proof (cases "a = NULL")
      case True
      with node_refused_stops [of A G s2] a pn show ?thesis by simp
    next
      case an: False
      note b = alloc [OF I(2) q a an]
      let ?K = "H(a \<mapsto> 24)"
      have k2: "ok s2 ?K" using b by (simp add: sizeof_alloc_def)
      have ap: "a \<noteq> p" "H a = None" using b hp(1) by auto
      have new: "p \<notin> blocks_of G (nodes G ch)" "a \<notin> blocks_of G (nodes G ch)" "p \<notin> nodes G ch" "a \<notin> nodes G ch"
        "p \<noteq> allocs_addr G" "a \<noteq> allocs_addr G"
        using I(1,7) hp(2) ap(2) by (auto simp: gc_holds_def own_def)
      have pb: "p \<notin> (\<lambda>x. blk (alloc_at G x)) ` nodes G ch" using new(1) by (simp add: blocks_of_def)
      from register_ok [OF I(4) pn pb a an new(4), of sz] obtain G' where
        G': "register_alloc A G p sz = Inr G'" "tbl_ok G' (ch(?i := a # ch ?i))"
          "nodes G' (ch(?i := a # ch ?i)) = insert a (nodes G ch)" "lib G' = s2"
          "alloc_at G' = (alloc_at G)(a := \<lparr>blk = p, size_tag = sz, chain_next = allocs G ! ?i\<rparr>)"
          "gc_size G' = gc_size G + 1" "same_fields G G'" "gc_cnt G' = gc_cnt G"
        by (auto simp: same_fields_def)
      let ?ch = "ch(?i := a # ch ?i)"
      have f: "capacity G' = capacity G" "allocs_addr G' = allocs_addr G" "sweep_limit G' = sweep_limit G"
        using G'(7) by (simp_all add: same_fields_def)
      have at: "alloc_at G' x = alloc_at G x" if "x \<in> nodes G ch" for x using that new(4) by (auto simp: G'(5))
      have se: "same_entries G G' (nodes G ch)" using at by (simp add: same_entries_def)
      have bl: "blocks_of G' (insert a (nodes G ch)) = insert p (blocks_of G (nodes G ch))"
        using same_entries_blocks [OF se] by (simp add: blocks_of_def G'(5))
      have u: "unat (gc_size G') = unat (gc_size G) + 1"
        unfolding G'(6) using card_nodes [OF i] I(6) by (intro unat_Suc_small) simp
      then have sizes: "unat (gc_size G') = card (insert a (nodes G ch))" using I(6) new(4) by simp
      have t: "table_inv G'"
        using I(3) nc u f by (auto simp: table_inv_def gc_need_collect_def word_le_nat_alt not_less)
      have "sized ?K (alloc_at G' x)" if x: "x \<in> insert a (nodes G ch)" for x
      proof (cases "x = a")
        case True
        then show ?thesis using ap(1) hp(1) sz by (simp add: sized_def G'(5) marked_def)
      next
        case False
        then have "sized H (alloc_at G' x)" using x I(10) [of x] at [of x] by auto
        then show ?thesis using ap(2) by (auto simp: sized_def)
      qed
      then have inv: "gc_inv ok G' ?ch ?K"
        using I(1,7) G'(2) k2 t sizes new ap hp(1) i unfolding gc_inv_def gc_holds_def G'(3,4) bl f by auto
      have "search G' p = Some a"
        using search_unique [OF G'(2), of a] unfolding G'(3,5) by simp
      then have tr: "tracked G G' ch ?ch a p sz"
        using G'(3,5,7,8) new(4) at unfolding tracked_def gc_collected_def by simp
      have ot: "others G' ?ch ?K = (others G ch H)(p := None)"
        using ap unfolding others_def own_def G'(3) bl f by (auto simp: restrict_map_def fun_eq_iff)
      have bt: "lib_bytes A (lib G') = lib_bytes A (lib G)" using b G'(4) by simp
      with inv tr ot show ?thesis
        unfolding G'(1) sum.case by (intro exI [of _ ?ch] exI [of _ ?K] exI [of _ a]) simp
    qed
  qed
qed

lemma collect_if_needed_inv:
  fixes tos :: addr
  assumes i: "gc_inv ok G ch H" and d: "card (nodes G ch) < d" and q: "\<forall>s. ask s (capacity G * 2 * sizeof_ptr)"
  shows "case collect_if_needed A d tos G of Inl e \<Rightarrow> stops (gc_need_collect G \<and> collect_refused A d tos G) e
    | Inr G' \<Rightarrow> \<exists>ch' H'. gc_inv ok G' ch' H' \<and> others G' ch' H' = others G ch H \<and> \<not> gc_need_collect G' \<and>
        nodes G' ch' = kept_nodes A tos G ch \<and> keeps_all A G G' (kept_nodes A tos G ch) (others G ch H)"
proof (cases "gc_need_collect G")
  case True
  then have e: "collect_if_needed A d tos G = gc_collect A d tos G" "kept_nodes A tos G ch = live_nodes A tos G ch"
    by (simp_all add: collect_if_needed_def kept_nodes_def)
  note c = collect_inv [OF i d q, of tos]
  show ?thesis
  proof (cases "gc_collect A d tos G")
    case (Inr G')
    from c [unfolded Inr sum.case] obtain ch' H' where
      "gc_inv ok G' ch' H'" "others G' ch' H' = others G ch H" "nodes G' ch' = live_nodes A tos G ch" "\<not> gc_need_collect G'"
      "keeps_all A G G' (live_nodes A tos G ch) (others G ch H)" by (elim exE conjE) (rule that)
    then show ?thesis unfolding e Inr sum.case by (intro exI [of _ ch'] exI [of _ H']) simp
  qed (use c e True in simp)
next
  case False
  then show ?thesis using i by (auto simp: collect_if_needed_def kept_nodes_def)
qed

text \<open>The library's state changes, but not the blocks of the collector.\<close>

lemma lib_inv:
  assumes i: "gc_inv ok G ch H" and k: "ok s H'" and same: "\<forall>x \<in> own G ch. H' x = H x"
  shows "gc_inv ok (G\<lparr>lib := s\<rparr>) ch H'" "others (G\<lparr>lib := s\<rparr>) ch H' = H' |` (- own G ch)"
proof -
  note I = gc_invD [OF i]
  let ?G = "G\<lparr>lib := s\<rparr>"
  have t: "tbl_ok ?G ch" "nodes ?G ch = nodes G ch" by (rule tbl_ok_same [OF I(4)]; simp)+
  have bl: "blocks_of ?G X = blocks_of G X" for X by (simp add: blocks_of_def)
  have ow: "own ?G ch = own G ch" by (simp add: own_def t bl)
  have "own G ch \<subseteq> dom H'" using own_held [OF i] same by (auto simp: dom_def)
  then have "nodes G ch \<union> blocks_of G (nodes G ch) \<subseteq> dom H'" by (simp add: own_def)
  then have h: "gc_holds ?G ch H'"
    using I(1) t(1) unfolding gc_holds_def t(2) bl by simp
  have "sized H' (alloc_at ?G x)" if "x \<in> nodes G ch" for x
    using I(10) [OF that] same that by (auto simp: sized_def own_def blocks_of_def)
  moreover have "table_inv ?G" using I(3) by (auto simp: table_inv_def)
  ultimately show "gc_inv ok ?G ch H'"
    using i h k same unfolding gc_inv_def t(2) bl by (simp add: own_def)
  show "others ?G ch H' = H' |` (- own G ch)" by (simp add: others_def ow)
qed

text \<open>
  The part that \<open>gc_malloc\<close>, \<open>gc_calloc\<close> and \<open>gc_realloc\<close> share. \<open>req\<close> is the request to the library; \<open>p\<close> is
  \<open>NULL\<close>, or the program's own block that a \<open>realloc\<close> gives up.
\<close>

definition asked :: "addr \<Rightarrow> ('s \<Rightarrow> (addr \<times> 's) outcome) \<Rightarrow> size_t \<Rightarrow> (bytes \<Rightarrow> addr \<Rightarrow> bool) \<Rightarrow> bool" where
  "asked p req sz Z \<longleftrightarrow> (\<forall>s H. ok s H \<longrightarrow> p = NULL \<or> H p \<noteq> None \<longrightarrow> (case req s of Inl e \<Rightarrow> e = Exit
     | Inr (b, s') \<Rightarrow>
         if b = NULL then ok s' H \<and> lib_bytes A s' = lib_bytes A s
         else (b = p \<or> H b = None) \<and> ok s' (H(p := None, b \<mapsto> unat sz)) \<and> Z (lib_bytes A s') b \<and>
           keeps (lib_bytes A s) (lib_bytes A s') H p))"

lemma asked_NULL:
  assumes "ok s H"
  shows "H(NULL := None) = H" "keeps m m' H NULL \<longleftrightarrow> (\<forall>c k. H c = Some k \<longrightarrow> load_bytes m' c k = load_bytes m c k)"
proof -
  have "H NULL = None" using not_null [OF assms, of NULL] by (cases "H NULL") auto
  then show "H(NULL := None) = H" by auto
  show "keeps m m' H NULL \<longleftrightarrow> (\<forall>c k. H c = Some k \<longrightarrow> load_bytes m' c k = load_bytes m c k)"
    using not_null [OF assms] unfolding keeps_def by blast
qed

lemma own_not_null:
  assumes "gc_inv ok G ch H"
  shows "NULL \<notin> own G ch"
proof
  assume "NULL \<in> own G ch"
  then obtain n where "H NULL = Some n" using own_held [OF assms] by blast
  from not_null [OF gc_invD(2) [OF assms] this] show False by simp
qed

lemma asked_fresh:
  assumes "\<And>s H b s'. ok s H \<Longrightarrow> req s = Inr (b, s') \<Longrightarrow> b \<noteq> NULL \<Longrightarrow> H b = None \<and> ok s' (H(b \<mapsto> unat sz)) \<and>
      Z (lib_bytes A s') b \<and> (\<forall>c k. H c = Some k \<longrightarrow> load_bytes (lib_bytes A s') c k = load_bytes (lib_bytes A s) c k)"
    and "\<And>s H s'. ok s H \<Longrightarrow> req s = Inr (NULL, s') \<Longrightarrow> ok s' H \<and> lib_bytes A s' = lib_bytes A s"
    and "\<And>s H e. ok s H \<Longrightarrow> req s = Inl e \<Longrightarrow> e = Exit"
  shows "asked NULL req sz Z"
  unfolding asked_def
proof (intro allI impI)
  fix s H assume h: "ok s H"
  show "case req s of Inl e \<Rightarrow> e = Exit
     | Inr (b, s') \<Rightarrow>
         if b = NULL then ok s' H \<and> lib_bytes A s' = lib_bytes A s
         else (b = NULL \<or> H b = None) \<and> ok s' (H(NULL := None, b \<mapsto> unat sz)) \<and> Z (lib_bytes A s') b \<and>
           keeps (lib_bytes A s) (lib_bytes A s') H NULL"
  proof (cases "req s")
    case (Inl e)
    with assms(3) [OF h] show ?thesis by simp
  next
    case (Inr r)
    obtain b s' where r: "req s = Inr (b, s')" using Inr by (cases r) auto
    show ?thesis
    proof (cases "b = NULL")
      case True
      with assms(2) [OF h, of s'] r show ?thesis by simp
    next
      case False
      from assms(1) [OF h r False] False show ?thesis
        unfolding r sum.case prod.case asked_NULL [OF h] by simp
    qed
  qed
qed

text \<open>The answer to the request, before it is entered: a block of the program's own.\<close>

lemma answer_inv:
  assumes i: "gc_inv ok G ch H" and p: "p = NULL \<or> others G ch H p \<noteq> None"
    and k: "b = p \<or> H b = None" "ok s (H(p := None, b \<mapsto> n))"
  shows "gc_inv ok (G\<lparr>lib := s\<rparr>) ch (H(p := None, b \<mapsto> n))"
    "others (G\<lparr>lib := s\<rparr>) ch (H(p := None, b \<mapsto> n)) = (others G ch H)(p := None, b \<mapsto> n)" "p \<notin> own G ch"
proof -
  show po: "p \<notin> own G ch" using p own_not_null [OF i] by (auto simp: others_def restrict_map_def split: if_splits)
  have bo: "b \<notin> own G ch" using k(1) po own_held [OF i] by auto
  then have "\<forall>x \<in> own G ch. (H(p := None, b \<mapsto> n)) x = H x" using po by auto
  note l = lib_inv [OF i k(2) this]
  show "gc_inv ok (G\<lparr>lib := s\<rparr>) ch (H(p := None, b \<mapsto> n))" by (rule l(1))
  show "others (G\<lparr>lib := s\<rparr>) ch (H(p := None, b \<mapsto> n)) = (others G ch H)(p := None, b \<mapsto> n)"
    unfolding l(2) using bo po by (auto simp: others_def restrict_map_def fun_eq_iff)
qed

text \<open>What a request leads to: nothing is entered when the library refuses it, and one block otherwise.\<close>

definition answered ::
  "addr \<Rightarrow> 's gc_t \<Rightarrow> (nat \<Rightarrow> addr list) \<Rightarrow> holdings \<Rightarrow> addr \<Rightarrow> size_t \<Rightarrow> (bytes \<Rightarrow> addr \<Rightarrow> bool) \<Rightarrow> addr \<times> 's gc_t \<Rightarrow> bool" where
  "answered tos G ch P p sz Z r \<longleftrightarrow> (case r of (b, G') \<Rightarrow> \<exists>ch' H'. gc_inv ok G' ch' H' \<and>
     (if b = NULL then others G' ch' H' = P \<and> nodes G' ch' = kept_nodes A tos G ch \<and>
        keeps_all A G G' (kept_nodes A tos G ch) P
      else others G' ch' H' = P(p := None) \<and> keeps_all A G G' (kept_nodes A tos G ch) (P(p := None)) \<and>
        Z (lib_bytes A (lib G')) b \<and> (\<exists>a. entered G' ch' (kept_nodes A tos G ch) a b sz)))"

lemma keeps_all_but: "keeps_all A G G' X P \<Longrightarrow> keeps_all A G G' X (P(p := None))"
  by (simp add: keeps_all_def keeps_blocks_def)

lemma granted_inv:
  assumes i: "gc_inv ok G ch H" and nc: "\<not> gc_need_collect G" and p: "p = NULL \<or> others G ch H p \<noteq> None"
    and q: "\<forall>s sz. sz \<noteq> 0 \<longrightarrow> ask s sz" and sz: "sz AND 1 = 0" "8 \<le> unat sz"
    and k: "b = p \<or> H b = None" "ok s (H(p := None, b \<mapsto> unat sz))" "keeps (lib_bytes A (lib G)) (lib_bytes A s) H p"
  shows "case register_alloc A (G\<lparr>lib := s\<rparr>) b sz of Inl e \<Rightarrow> stops (node_refused A s) e
    | Inr G' \<Rightarrow> \<exists>ch' H' a. gc_inv ok G' ch' H' \<and> others G' ch' H' = (others G ch H)(p := None) \<and>
        keeps_all A G G' (nodes G ch) ((others G ch H)(p := None)) \<and> entered G' ch' (nodes G ch) a b sz \<and>
        lib_bytes A (lib G') = lib_bytes A s"
proof -
  let ?G = "G\<lparr>lib := s\<rparr>" and ?H = "H(p := None, b \<mapsto> unat sz)" and ?P = "others G ch H"
  note w = answer_inv [OF i p k(1,2)]
  have t: "tbl_ok ?G ch" "nodes ?G ch = nodes G ch" by (rule tbl_ok_same [OF gc_invD(4) [OF i]]; simp)+
  have bn: "b \<notin> own G ch" using k(1) w(3) own_held [OF i] by auto
  have nc': "\<not> gc_need_collect ?G" using nc by (simp add: gc_need_collect_def)
  have ob: "others ?G ch ?H b = Some (unat sz)" unfolding w(2) by simp
  have sa: "ask (lib ?G) sizeof_alloc" using q by (simp add: sizeof_alloc_def)
  note g = register_inv [OF w(1) nc' ob sz sa]
  show ?thesis
  proof (cases "register_alloc A ?G b sz")
    case (Inl e)
    then show ?thesis using g by simp
  next
    case (Inr G')
    from g [unfolded Inr sum.case] obtain ch' H' a where
      G': "gc_inv ok G' ch' H'" "others G' ch' H' = (others ?G ch ?H)(b := None)" "tracked ?G G' ch ch' a b sz"
        "lib_bytes A (lib G') = lib_bytes A (lib ?G)" by (elim exE conjE) (rule that)
    have "b = p \<or> ?P b = None"
      using k(1) by (auto simp: others_def restrict_map_def)
    then have o: "others G' ch' H' = ?P(p := None)" unfolding G'(2) w(2) by (auto simp: fun_eq_iff)
    have "\<forall>x \<in> nodes G ch. alloc_at G' x = alloc_at G x" using G'(3) unfolding tracked_def t(2) by simp
    then have se: "same_entries G G' (nodes G ch)" unfolding same_entries_def by simp
    have bo: "bos G' = bos G" using G'(3) by (simp add: tracked_def same_fields_def)
    have "lib_bytes A (lib G') = lib_bytes A s" using G'(4) by simp
    then have kb: "keeps_blocks A G G' (H(p := None))"
      using k(3) unfolding keeps_blocks_def keeps_def by simp
    have "keeps_all A G G' (nodes G ch) (?P(p := None))"
      by (rule keeps_allI_but [OF i se subset_refl w(3) kb bo])
    moreover have "entered G' ch' (nodes G ch) a b sz"
      using entered_tracked [OF G'(3) gc_invD(4) [OF G'(1)]] unfolding t(2) .
    ultimately show ?thesis unfolding Inr sum.case using G'(1,4) o
      by (intro exI [of _ ch'] exI [of _ H'] exI [of _ a]) simp
  qed
qed

lemma request_inv:
  fixes tos :: addr
  assumes i: "gc_inv ok G ch H" and d: "card (nodes G ch) < d" and q: "\<forall>s sz. sz \<noteq> 0 \<longrightarrow> ask s sz"
    and p: "p = NULL \<or> others G ch H p \<noteq> None"
    and sz: "sz AND 1 = 0" "8 \<le> unat sz" and r: "asked p req sz Z"
  shows "case bindE (collect_if_needed A d tos G) (\<lambda>G1. bindE (req (lib G1)) (\<lambda>(ret, s).
        bindE (register_alloc A (G1\<lparr>lib := s\<rparr>) ret sz) (\<lambda>G2. Inr (ret, G2)))) of
      Inl e \<Rightarrow> stops (request_refused A d tos G req) e
    | Inr r \<Rightarrow> answered tos G ch (others G ch H) p sz Z r"
proof -
  let ?P = "others G ch H" and ?K = "kept_nodes A tos G ch"
  have qc: "\<forall>s. ask s (capacity G * 2 * sizeof_ptr)" using q table_ask_nonzero [OF gc_invD(3) [OF i]] by blast
  note c = collect_if_needed_inv [OF i d qc, of tos]
  show ?thesis
  proof (cases "collect_if_needed A d tos G")
    case (Inl e)
    with c have "stops (gc_need_collect G \<and> collect_refused A d tos G) e" by simp
    then have "stops (request_refused A d tos G req) e" by (rule stops_mono) (simp add: request_refused_def)
    with Inl show ?thesis by simp
  next
    case (Inr G1)
    from c [unfolded Inr sum.case] obtain ch1 H1 where
      G1: "gc_inv ok G1 ch1 H1" "others G1 ch1 H1 = ?P" "\<not> gc_need_collect G1"
        "nodes G1 ch1 = ?K" "keeps_all A G G1 ?K ?P"
      by (elim exE conjE) (rule that)
    have p1: "p = NULL \<or> others G1 ch1 H1 p \<noteq> None" using p unfolding G1(2) .
    then have "p = NULL \<or> H1 p \<noteq> None" by (auto simp: others_def restrict_map_def split: if_splits)
    note r1 = r [unfolded asked_def, rule_format, OF gc_invD(2) [OF G1(1)] this]
    show ?thesis
    proof (cases "req (lib G1)")
      case (Inl e)
      with r1 Inr show ?thesis by simp
    next
      case m: (Inr bs)
      obtain b s1 where b: "req (lib G1) = Inr (b, s1)" using m by (cases bs) auto
      note a1 = r1 [unfolded b sum.case prod.case]
      show ?thesis
      proof (cases "b = NULL")
        case True
        let ?G = "G1\<lparr>lib := s1\<rparr>"
        have a2: "ok s1 H1" "lib_bytes A s1 = lib_bytes A (lib G1)" using a1 True by simp_all
        note l = lib_inv [OF G1(1) a2(1) ballI [OF refl]]
        have t: "nodes ?G ch1 = nodes G1 ch1" by (rule tbl_ok_same [OF gc_invD(4) [OF G1(1)]]; simp)
        have "keeps_all A G1 ?G ?K ?P"
          using a2(2) by (simp add: keeps_all_def same_blocks_def same_entries_def contents_def keeps_blocks_def)
        then have "keeps_all A G ?G ?K ?P" by (rule keeps_all_trans [OF G1(5)])
        moreover have "others ?G ch1 H1 = ?P" unfolding l(2) G1(2) [symmetric] by (simp add: others_def)
        ultimately have "answered tos G ch ?P p sz Z (NULL, ?G)"
          unfolding answered_def prod.case using l(1) t G1(4) by (intro exI [of _ ch1] exI [of _ H1]) simp
        then show ?thesis using Inr b True by (simp add: register_alloc_def)
      next
        case False
        have a2: "b = p \<or> H1 b = None" "ok s1 (H1(p := None, b \<mapsto> unat sz))" "Z (lib_bytes A s1) b"
          "keeps (lib_bytes A (lib G1)) (lib_bytes A s1) H1 p" using a1 False by simp_all
        note g = granted_inv [OF G1(1,3) p1 q sz a2(1,2,4)]
        show ?thesis
        proof (cases "register_alloc A (G1\<lparr>lib := s1\<rparr>) b sz")
          case (Inl e)
          with g have "stops (node_refused A s1) e" by simp
          then have "stops (request_refused A d tos G req) e"
            by (rule stops_mono) (use False in \<open>simp add: request_refused_def Inr b\<close>)
          with Inl Inr b show ?thesis by simp
        next
          case x: (Inr G')
          from g [unfolded x sum.case] obtain ch' H' a where
            G': "gc_inv ok G' ch' H'" "others G' ch' H' = (others G1 ch1 H1)(p := None)"
              "keeps_all A G1 G' (nodes G1 ch1) ((others G1 ch1 H1)(p := None))" "entered G' ch' (nodes G1 ch1) a b sz"
              "lib_bytes A (lib G') = lib_bytes A s1" by (elim exE conjE) (rule that)
          have "keeps_all A G G' ?K (?P(p := None))"
            using keeps_all_but [OF G1(5)] G'(3) unfolding G1(2,4) by (rule keeps_all_trans)
          then have "answered tos G ch ?P p sz Z (b, G')"
            unfolding answered_def prod.case using G' a2(3) False G1(2,4)
            by (intro exI [of _ ch'] exI [of _ H']) auto
          then show ?thesis using Inr b x by simp
        qed
      qed
    qed
  qed
qed

lemma malloc_asked:
  assumes "\<forall>s sz. sz \<noteq> 0 \<longrightarrow> ask s sz" "sz \<noteq> 0"
  shows "asked NULL (\<lambda>s. lib_malloc A s sz) sz (\<lambda>_ _. True)"
proof -
  have q: "ask s sz" for s using assms by blast
  show ?thesis
    by (rule asked_fresh) (use alloc [OF _ q] alloc_error [OF _ q] alloc_null [OF _ q] in auto)
qed

lemma calloc_asked:
  assumes "\<forall>s sz. sz \<noteq> 0 \<longrightarrow> ask s sz" "num * sz \<noteq> 0" "unat num * unat sz < 2 ^ 64"
  shows "asked NULL (\<lambda>s. lib_calloc A s num sz) (num * sz)
    (\<lambda>m p. load_bytes m p (unat (num * sz)) = replicate (unat (num * sz)) 0)"
proof -
  have q: "ask s (num * sz)" for s using assms by blast
  show ?thesis
  proof (rule asked_fresh)
    show "H b = None \<and> ok s' (H(b \<mapsto> unat (num * sz))) \<and>
        load_bytes (lib_bytes A s') b (unat (num * sz)) = replicate (unat (num * sz)) 0 \<and>
        (\<forall>c k. H c = Some k \<longrightarrow> load_bytes (lib_bytes A s') c k = load_bytes (lib_bytes A s) c k)"
      if h: "ok s H" "lib_calloc A s num sz = Inr (b, s')" "b \<noteq> NULL" for s H b s'
      using calloc [OF h(1) q assms(3) h(2,3)] calloc_keeps [OF h(1) q assms(3) h(2,3)] by simp
  qed (use calloc_error [OF _ q assms(3)] calloc_null [OF _ q assms(3)] in auto)
qed

lemma realloc_asked:
  assumes "\<forall>s sz. sz \<noteq> 0 \<longrightarrow> ask s sz" "sz \<noteq> 0"
  shows "asked p (\<lambda>s. lib_realloc A s p sz) sz (\<lambda>_ _. True)"
proof -
  have q: "ask s sz" for s using assms by blast
  show ?thesis
    unfolding asked_def
  proof (intro allI impI)
    fix s H assume h: "ok s H" and p: "p = NULL \<or> H p \<noteq> None"
    show "case lib_realloc A s p sz of Inl e \<Rightarrow> e = Exit
       | Inr (b, s') \<Rightarrow>
           if b = NULL then ok s' H \<and> lib_bytes A s' = lib_bytes A s
           else (b = p \<or> H b = None) \<and> ok s' (H(p := None, b \<mapsto> unat sz)) \<and> True \<and>
             keeps (lib_bytes A s) (lib_bytes A s') H p"
    proof (cases "lib_realloc A s p sz")
      case (Inl e)
      with realloc_fails [OF h q p] show ?thesis by simp
    next
      case (Inr r)
      obtain b s' where r: "lib_realloc A s p sz = Inr (b, s')" using Inr by (cases r) auto
      show ?thesis
      proof (cases "b = NULL")
        case True
        with realloc_null [OF h q p, of s'] r show ?thesis by simp
      next
        case False
        from realloc [OF h q p r False] False show ?thesis unfolding r by simp
      qed
    qed
  qed
qed

lemma round8_ask:
  assumes "n \<noteq> 0" "unat n + 7 < 2 ^ 64"
  shows "round8 n \<noteq> 0" "round8 n AND 1 = 0" "8 \<le> unat (round8 n)"
  using round8_facts(3) [OF assms] round8_even [of n 1] by auto

lemma malloc_inv:
  fixes tos :: addr
  assumes i: "gc_inv ok G ch H" and d: "card (nodes G ch) < d" and q: "\<forall>s sz. sz \<noteq> 0 \<longrightarrow> ask s sz"
    and n: "n \<noteq> 0" "unat n + 7 < 2 ^ 64"
  shows "case gc_malloc A d tos G n of Inl e \<Rightarrow> stops (request_refused A d tos G (\<lambda>s. lib_malloc A s (round8 n))) e
    | Inr r \<Rightarrow> answered tos G ch (others G ch H) NULL (round8 n) (\<lambda>_ _. True) r"
  using request_inv [OF i d q disjI1 [OF refl] round8_ask(2,3) [OF n] malloc_asked [OF q round8_ask(1) [OF n]], of tos] n(1)
  by (simp add: gc_malloc_def)

lemma realloc_inv:
  fixes tos :: addr
  assumes i: "gc_inv ok G ch H" and d: "card (nodes G ch) < d" and q: "\<forall>s sz. sz \<noteq> 0 \<longrightarrow> ask s sz"
    and p: "p = NULL \<or> others G ch H p \<noteq> None" and n: "n \<noteq> 0" "unat n + 7 < 2 ^ 64"
  shows "case gc_realloc A d tos G p n of Inl e \<Rightarrow> stops (request_refused A d tos G (\<lambda>s. lib_realloc A s p (round8 n))) e
    | Inr r \<Rightarrow> answered tos G ch (others G ch H) p (round8 n) (\<lambda>_ _. True) r"
  using request_inv [OF i d q p round8_ask(2,3) [OF n] realloc_asked [OF q round8_ask(1) [OF n]], of tos] n(1)
  by (simp add: gc_realloc_def)

lemma calloc_inv:
  fixes tos :: addr
  assumes i: "gc_inv ok G ch H" and d: "card (nodes G ch) < d" and q: "\<forall>s sz. sz \<noteq> 0 \<longrightarrow> ask s sz"
    and n: "num \<noteq> 0" "n \<noteq> 0" "unat n + 7 < 2 ^ 64" "unat num * unat (round8 n) < 2 ^ 64"
  shows "case gc_calloc A d tos G num n of Inl e \<Rightarrow> stops (request_refused A d tos G (\<lambda>s. lib_calloc A s num (round8 n))) e
    | Inr r \<Rightarrow> answered tos G ch (others G ch H) NULL (num * round8 n)
        (\<lambda>m p. load_bytes m p (unat num * unat (round8 n)) = replicate (unat num * unat (round8 n)) 0) r"
proof -
  have u: "unat (num * round8 n) = unat num * unat (round8 n)" using unat_mult_small [OF n(4)] .
  have "1 \<le> unat num" using n(1) by (simp add: Suc_le_eq unat_gt_0)
  then have l: "8 \<le> unat (num * round8 n)"
    unfolding u using mult_le_mono [of 1 "unat num" 8 "unat (round8 n)"] round8_facts(3) [OF n(2,3)] by simp
  have e: "num * round8 n AND 1 = 0" "num * round8 n \<noteq> 0" "round8 n * num = num * round8 n"
    using round8_even [of n num] l by (auto simp: mult.commute)
  from request_inv [OF i d q disjI1 [OF refl] e(1) l calloc_asked [OF q e(2) n(4)], of tos] n(1,2)
  show ?thesis unfolding u by (simp add: gc_calloc_def e(3))
qed

subsection \<open>The other operations\<close>

lemma free_inv:
  assumes i: "gc_inv ok G ch H" and a: "a \<in> nodes G ch"
  shows "\<exists>G' ch' H'. gc_free A G (blk (alloc_at G a)) = Inr G' \<and> gc_inv ok G' ch' H' \<and> others G' ch' H' = others G ch H \<and>
    nodes G' ch' = nodes G ch - {a} \<and> keeps_all A G G' (nodes G ch - {a}) (others G ch H) \<and>
    gc_cnt G' = gc_cnt G + 1"
proof -
  note I = gc_invD [OF i]
  from free_ok [OF I(1,2) a] obtain G' ch' where
    G': "gc_free A G (blk (alloc_at G a)) = Inr G'" "gc_holds G' ch' (without G {a} H)" "ok (lib G') (without G {a} H)"
      "nodes G' ch' = nodes G ch - {a}" "swept A G G' {a} {}" by blast
  have f: "same_fields G G'" "bos G' = bos G" "lib_bytes A (lib G') = lib_bytes A (lib G)"
    and se: "same_entries G G' (nodes G ch - {a})"
    using G'(5) by (simp_all add: swept_def same_fields_def same_entries_def)
  have sub: "{a} \<subseteq> nodes G ch" using a by simp
  note w = without_inv [OF i sub G'(2-4) f(1) se]
  have "keeps_all A G G' (nodes G ch - {a}) (others G ch H)"
    by (rule keeps_allI [OF i se Diff_subset keeps_blocks_same [OF f(3)] f(2)])
  then show ?thesis
    using G'(1,4,5) w by (intro exI [of _ G'] exI [of _ ch'] exI [of _ "without G {a} H"]) (simp add: swept_def)
qed

lemma free_other_inv:
  assumes i: "gc_inv ok G ch H" and b: "others G ch H b = Some n"
  shows "\<exists>s. gc_free A G b = Inr (G\<lparr>lib := s\<rparr>) \<and> gc_inv ok (G\<lparr>lib := s\<rparr>) ch (H(b := None)) \<and>
    others (G\<lparr>lib := s\<rparr>) ch (H(b := None)) = (others G ch H)(b := None) \<and> lib_bytes A s = lib_bytes A (lib G)"
proof -
  note I = gc_invD [OF i] and b' = othersD [OF b]
  obtain s where s: "lib_free A (lib G) b = Inr s" "ok s (H(b := None))" "lib_bytes A s = lib_bytes A (lib G)"
    using release [OF I(2)] b' by blast
  have "b \<noteq> NULL" using not_null [OF I(2)] b' by blast
  moreover have "search G b = Some NULL"
    using b' by (intro search_NULL [OF I(4)]) (auto simp: own_def blocks_of_def)
  ultimately have "gc_free A G b = Inr (G\<lparr>lib := s\<rparr>)" using s(1) by (simp add: gc_free_def)
  moreover have "\<forall>x \<in> own G ch. (H(b := None)) x = H x" using b' by auto
  note l = lib_inv [OF i s(2) this]
  moreover have "(H(b := None)) |` (- own G ch) = (others G ch H)(b := None)"
    using b' by (auto simp: others_def restrict_map_def fun_eq_iff)
  ultimately show ?thesis using s(3) by (intro exI [of _ s]) (simp only: simp_thms)
qed

lemma free_own_inv:
  assumes i: "gc_inv ok G ch H" and b: "others G ch H b = Some n" and f: "lib_free A (lib G) b = Inr s"
  shows "gc_inv ok (G\<lparr>lib := s\<rparr>) ch (H(b := None))" "others (G\<lparr>lib := s\<rparr>) ch (H(b := None)) = (others G ch H)(b := None)"
proof -
  have b': "H b = Some n" "b \<notin> own G ch" using othersD [OF b] by blast+
  have k: "ok s (H(b := None))" using release [OF gc_invD(2) [OF i] b'(1)] f by auto
  have "\<forall>x \<in> own G ch. (H(b := None)) x = H x" using b'(2) by auto
  note l = lib_inv [OF i k this]
  show "gc_inv ok (G\<lparr>lib := s\<rparr>) ch (H(b := None))" by (rule l(1))
  show "others (G\<lparr>lib := s\<rparr>) ch (H(b := None)) = (others G ch H)(b := None)"
    unfolding l(2) using b'(2) by (auto simp: others_def restrict_map_def fun_eq_iff)
qed

text \<open>A request of the program's own, past the collector.\<close>

lemma own_request_inv:
  assumes i: "gc_inv ok G ch H" and p: "p = NULL \<or> others G ch H p \<noteq> None" and r: "asked p req sz Z"
    and m: "req (lib G) = Inr (b, s)"
  shows "\<exists>H'. gc_inv ok (G\<lparr>lib := s\<rparr>) ch H' \<and>
    others (G\<lparr>lib := s\<rparr>) ch H' = (if b = NULL then others G ch H else (others G ch H)(p := None, b \<mapsto> unat sz))"
proof -
  have p1: "p = NULL \<or> H p \<noteq> None" using p by (auto simp: others_def restrict_map_def split: if_splits)
  note a = r [unfolded asked_def, rule_format, OF gc_invD(2) [OF i] p1, unfolded m sum.case prod.case]
  show ?thesis
  proof (cases "b = NULL")
    case True
    then have k: "ok s H" using a by simp
    from lib_inv [OF i k ballI [OF refl]] True show ?thesis by (intro exI [of _ H]) (simp add: others_def)
  next
    case False
    then have "b = p \<or> H b = None" "ok s (H(p := None, b \<mapsto> unat sz))" using a by simp_all
    note w = answer_inv [OF i p this]
    show ?thesis using False w(1,2) by (intro exI [of _ "H(p := None, b \<mapsto> unat sz)"]) simp
  qed
qed

lemma write_inv:
  assumes "gc_inv ok G ch H"
  shows "gc_inv ok (G\<lparr>lib := set_bytes m (lib G)\<rparr>) ch H" "others (G\<lparr>lib := set_bytes m (lib G)\<rparr>) ch H = others G ch H"
  using lib_inv [OF assms set_ok [OF gc_invD(2) [OF assms]]] by (simp_all add: others_def)

text \<open>\<open>gc_init\<close> does not test the answer to its request either; without a table there is no collector.\<close>

lemma init_inv:
  assumes k: "ok (lib G) H" and q: "ask (lib G) (DEFAULT_CAPACITY * sizeof_ptr)" and G': "gc_init A frame G = Inr G'"
    and t: "allocs_addr G' \<noteq> NULL"
  shows "\<exists>H'. gc_inv ok G' (\<lambda>_. []) H' \<and> others G' (\<lambda>_. []) H' = H \<and> bos G' = frame"
proof -
  obtain p s where p: "lib_calloc A (lib G) DEFAULT_CAPACITY sizeof_ptr = Inr (p, s)" and pn: "p \<noteq> NULL"
    and g: "G' = G\<lparr>lib := s, bos := frame, capacity := DEFAULT_CAPACITY, allocs_addr := p,
      allocs := replicate 4096 NULL, gc_size := 0, sweep_limit := DEFAULT_CAPACITY div 2, gc_cnt := 0\<rparr>"
    using G' t by (auto simp: gc_init_def bindE_Inr_iff DEFAULT_CAPACITY_def)
  have u: "unat DEFAULT_CAPACITY * unat sizeof_ptr < 2 ^ 64" "unat (DEFAULT_CAPACITY * sizeof_ptr) = 32768"
    "unat DEFAULT_CAPACITY = 4096"
    by (simp_all add: DEFAULT_CAPACITY_def sizeof_ptr_def)
  note a = calloc [OF k q u(1) p pn, unfolded u(2)]
  have k': "ok s (H(p \<mapsto> 32768))" using a by blast
  have n: "nodes G' ch' = (\<Union>i<4096. set (ch' i))" "blocks_of G' {} = {}" for ch'
    by (simp_all add: nodes_def g u(3) blocks_of_def)
  have "tbl_ok G' (\<lambda>_. [])"
    by (simp add: tbl_ok_def n) (simp add: g u(3) DEFAULT_CAPACITY_def)
  moreover have "table_inv G'"
    unfolding table_inv_def by (intro conjI exI [of _ 12]) (simp_all add: g DEFAULT_CAPACITY_def)
  ultimately have "gc_inv ok G' (\<lambda>_. []) (H(p \<mapsto> 32768))"
    unfolding gc_inv_def gc_holds_def n using k' by (simp add: n) (simp add: g u(3))
  moreover have "others G' (\<lambda>_. []) (H(p \<mapsto> 32768)) = H"
    using a by (auto simp: others_def own_def n restrict_map_def fun_eq_iff) (simp_all add: g)
  moreover have "bos G' = frame" by (simp add: g)
  ultimately show ?thesis by blast
qed

end

subsection \<open>The allocator of \<open>src/wlmalloc.c\<close> as such a store\<close>

lemma client_bounded:
  assumes "client_inv E tc s H" "H b = Some n"
  shows "b + n \<le> 2 ^ 47"
proof -
  obtain V R m where w: "alloc_wf E tc s V R" "heap_of s V b = Some m" "n \<le> m"
    using client_inv_live [OF assms] by metis
  have c: "core E tc s V R" and u: "pool_end (pool s) \<le> 2 ^ 47" using w(1) by (simp_all add: alloc_wf_def in_user_space_def)
  note h = heap_of_Some [OF c w(2)] and i = carved_inside [OF coreD(1) [OF c]]
  show ?thesis using h(5) i(4) [OF h(6)] u w(3) by linarith
qed

lemma calloc_exit:
  assumes env: "env_ok E tc" and i: "client_inv E tc s H" and g: "can_ask E tc s (num * nsize)"
    and o: "unat num * unat nsize < 2 ^ 64" and r: "calloc E tc s num nsize = Inl e"
  shows "e = Exit"
proof -
  have nz: "num \<noteq> 0" "nsize \<noteq> 0" using g by (auto simp: can_ask_def)
  then have "(num * nsize) div num = nsize" using calloc_check o by blast
  with nz r have "malloc E tc s (num * nsize) = Inl e"
    by (auto simp: calloc_def Let_def bindE_def split: sum.splits if_splits)
  then show ?thesis by (rule malloc_exit [OF env i g])
qed

lemma calloc_not_null:
  assumes "env_ok E tc" "client_inv E tc s H" "can_ask E tc s (num * sz)" "unat num * unat sz < 2 ^ 64"
    and "calloc E tc s num sz = Inr (b, s')"
  shows "b \<noteq> NULL"
  using client_live_ne [of E tc s' _ b] calloc_step [OF assms] by auto

text \<open>\<open>realloc\<close> answers \<open>NULL\<close> when it is given \<open>NULL\<close>, and only then.\<close>

lemma realloc_NULL: "realloc E tc s NULL sz = Inr (NULL, s)"
  by (simp add: realloc_def)

lemma realloc_not_null:
  assumes "env_ok E tc" "client_inv E tc s H" "H p = Some n" "can_ask E tc s sz" "realloc E tc s p sz = Inr (b, s')"
  shows "b \<noteq> NULL"
  using client_live_ne [of E tc s' _ b] realloc_step [OF assms] by auto

interpretation gch: gc_heap "\<lambda>s H. env_ok E tc \<and> client_inv E tc s H" "can_ask E tc" "wl_lib E tc"
  "\<lambda>m s. s\<lparr>mem := m\<rparr>" for E tc
proof unfold_locales
  fix s H p sz b s' assume ok: "env_ok E tc \<and> client_inv E tc s H" and q: "can_ask E tc s sz" and p: "p = NULL \<or> H p \<noteq> None"
  show "(b = p \<or> H b = None) \<and> (env_ok E tc \<and> client_inv E tc s' (H(p := None, b \<mapsto> unat sz))) \<and>
      keeps (lib_bytes (wl_lib E tc) s) (lib_bytes (wl_lib E tc) s') H p"
    if r: "lib_realloc (wl_lib E tc) s p sz = Inr (b, s')" and b: "b \<noteq> NULL"
  proof -
    have "p \<noteq> NULL" using r b realloc_NULL [of E tc s sz] by (cases "p = NULL") simp_all
    then obtain n where n: "H p = Some n" using p by blast
    have "env_ok E tc" "client_inv E tc s H" "realloc E tc s p sz = Inr (b, s')" using ok r by simp_all
    from realloc_step [OF this(1,2) n q this(3)] this(1) show ?thesis by simp
  qed
  show "(env_ok E tc \<and> client_inv E tc s' H) \<and> lib_bytes (wl_lib E tc) s' = lib_bytes (wl_lib E tc) s"
    if r: "lib_realloc (wl_lib E tc) s p sz = Inr (NULL, s')"
  proof (cases "p = NULL")
    case True
    then show ?thesis using r ok realloc_NULL by simp
  next
    case False
    then obtain n where n: "H p = Some n" using p by blast
    have "env_ok E tc" "client_inv E tc s H" "realloc E tc s p sz = Inr (NULL, s')" using ok r by simp_all
    from realloc_not_null [OF this(1,2) n q this(3)] show ?thesis by simp
  qed
  show "e = Exit" if r: "lib_realloc (wl_lib E tc) s p sz = Inl e" for e
  proof -
    have "p \<noteq> NULL" using r realloc_NULL [of E tc s sz] by (cases "p = NULL") simp_all
    then obtain n where n: "H p = Some n" using p by blast
    have "env_ok E tc" "client_inv E tc s H" "realloc E tc s p sz = Inl e" using ok r by simp_all
    from Alloc_Correct.realloc_error [OF this(1,2) n q this(3)] show ?thesis .
  qed
next
  show "(env_ok E tc \<and> client_inv E tc s' H) \<and> lib_bytes (wl_lib E tc) s' = lib_bytes (wl_lib E tc) s"
    if "env_ok E tc \<and> client_inv E tc s H" "can_ask E tc s (num * sz)" "unat num * unat sz < 2 ^ 64"
      "lib_calloc (wl_lib E tc) s num sz = Inr (NULL, s')" for s H num sz s'
    using calloc_not_null [of E tc s H num sz NULL s'] that by simp
qed (use client_bounded calloc_exit calloc_step in \<open>auto simp: wl_lib_simps\<close>)

end
