(* ===== verification/Gc_Lib.thy ===== *)
theory Gc_Lib
  imports Gc_Heap
begin

text \<open>
  A C library as the locale \<open>gc_heap\<close> wants it: it hands out ever higher addresses, below \<open>2 ^ 47\<close>, and answers
  \<open>NULL\<close> when there are no more. Its state is the next address and the contents of memory. The runs of \<open>Gc_Run\<close>
  are shown to exist on it.
\<close>

definition high_alloc :: "nat \<times> bytes \<Rightarrow> nat \<Rightarrow> addr \<times> nat \<times> bytes" where
  "high_alloc s n = (if fst s + n \<le> 2 ^ 47 then (fst s, fst s + n, snd s) else (NULL, s))"

definition high_lib :: "(nat \<times> bytes) libc" where
  "high_lib = \<lparr>lib_malloc = (\<lambda>s sz. Inr (high_alloc s (unat sz))),
     lib_calloc = (\<lambda>s num sz. case high_alloc s (unat num * unat sz) of (b, t) \<Rightarrow>
       Inr (b, if b = NULL then t else (fst t, memset (snd t) b 0 (unat num * unat sz)))),
     lib_realloc = (\<lambda>s p sz. case high_alloc s (unat sz) of (b, t) \<Rightarrow>
       Inr (b, if b = NULL \<or> p = NULL then t else (fst t, memcpy (snd t) b p (unat sz)))),
     lib_free = (\<lambda>s p. Inr s), lib_bytes = snd\<rparr>"

definition high_ok :: "nat \<times> bytes \<Rightarrow> holdings \<Rightarrow> bool" where
  "high_ok s H \<longleftrightarrow> 0 < fst s \<and> fst s \<le> 2 ^ 47 \<and> (\<forall>b n. H b = Some n \<longrightarrow> 0 < b \<and> 0 < n \<and> b + n \<le> fst s) \<and>
     (\<forall>b n c k. H b = Some n \<longrightarrow> H c = Some k \<longrightarrow> b \<noteq> c \<longrightarrow> apart b n c k)"

lemma high_simps:
  "lib_bytes high_lib s = snd s" "lib_free high_lib s p = Inr s" "lib_malloc high_lib s sz = Inr (high_alloc s (unat sz))"
  "lib_calloc high_lib s num sz = (case high_alloc s (unat num * unat sz) of (b, t) \<Rightarrow>
     Inr (b, if b = NULL then t else (fst t, memset (snd t) b 0 (unat num * unat sz))))"
  "lib_realloc high_lib s p sz = (case high_alloc s (unat sz) of (b, t) \<Rightarrow>
     Inr (b, if b = NULL \<or> p = NULL then t else (fst t, memcpy (snd t) b p (unat sz))))"
  by (simp_all add: high_lib_def)

lemma high_alloc_NULL: "high_alloc s n = (NULL, t) \<Longrightarrow> high_ok s H \<Longrightarrow> t = s"
  by (auto simp: high_alloc_def high_ok_def split: if_splits)

lemma high_alloc_ok:
  assumes h: "high_ok s H" "0 < n" "high_alloc s n = (b, s')" "b \<noteq> NULL"
  shows "H b = None \<and> high_ok (fst s', m) (H(b \<mapsto> n)) \<and> snd s' = snd s"
proof -
  have b: "b = fst s" "fst s' = fst s + n" "snd s' = snd s" "fst s + n \<le> 2 ^ 47"
    using h(3,4) by (auto simp: high_alloc_def split: if_splits)
  have l: "c + k \<le> b" "0 < k" if "H c = Some k" for c k using h(1) that by (auto simp: high_ok_def b(1))
  have n: "H b = None" using l [of b] by (cases "H b") auto
  have "high_ok (fst s', m) (H(b \<mapsto> n))"
    using h(1,2) b(2,4) l unfolding high_ok_def b(1) apart_def by (auto intro: trans_le_add1)
  with n b(3) show ?thesis by simp
qed

lemma high_ok_drop: "high_ok s H \<Longrightarrow> high_ok s (H(p := None))"
  by (simp add: high_ok_def)

lemma high_ok_mem: "high_ok (fst s, m) H = high_ok s H"
  by (simp add: high_ok_def)

text \<open>The copy that \<open>realloc\<close> makes lies in the new block only.\<close>

lemma high_realloc:
  assumes h: "high_ok s H" "sz \<noteq> 0" "lib_realloc high_lib s p sz = Inr (b, s')" "b \<noteq> NULL"
  shows "(b = p \<or> H b = None) \<and> high_ok s' (H(p := None, b \<mapsto> unat sz)) \<and> keeps (lib_bytes high_lib s) (lib_bytes high_lib s') H p"
proof -
  have z: "0 < unat sz" using h(2) by (simp add: unat_gt_0)
  obtain t where t: "high_alloc s (unat sz) = (b, t)"
    "s' = (if p = NULL then t else (fst t, memcpy (snd t) b p (unat sz)))"
    using h(3,4) by (auto simp: high_simps split: prod.splits)
  have f: "fst s' = fst t" by (simp add: t(2))
  have b: "b = fst s" using t(1) h(4) by (auto simp: high_alloc_def split: if_splits)
  note a = high_alloc_ok [OF h(1) z t(1) h(4)] high_alloc_ok [OF high_ok_drop [OF h(1), of p] z t(1) h(4), of "snd s'"]
  have k: "high_ok s' (H(p := None, b \<mapsto> unat sz))" using a(2) high_ok_mem [of s' "snd s'"] unfolding f by simp
  have "keeps (snd s) (snd s') H p"
    unfolding keeps_def
  proof (intro allI impI)
    fix c k assume "H c = Some k"
    then have "c + k \<le> b" using h(1) b by (simp add: high_ok_def)
    then show "load_bytes (snd s') c k = load_bytes (snd s) c k"
      using a(1) by (simp add: t(2) load_memcpy_other)
  qed
  with k a(1) show ?thesis by (simp add: high_simps)
qed

lemma high_heap: "gc_heap high_ok (\<lambda>_ sz. sz \<noteq> 0) high_lib (\<lambda>m s. (fst s, m))"
proof unfold_locales
  have p: "sz \<noteq> 0 \<Longrightarrow> 0 < unat sz" for sz :: size_t by (simp add: unat_gt_0)
  show "H b = None \<and> high_ok s' (H(b \<mapsto> unat sz)) \<and> lib_bytes high_lib s' = lib_bytes high_lib s"
    if h: "high_ok s H" "sz \<noteq> 0" "lib_malloc high_lib s sz = Inr (b, s')" "b \<noteq> NULL" for s H sz b s'
    using high_alloc_ok [OF h(1) p [OF h(2)] _ h(4), of s' "snd s'"] h(3) by (simp add: high_simps)
  show "high_ok s' H \<and> lib_bytes high_lib s' = lib_bytes high_lib s"
    if "high_ok s H" "sz \<noteq> 0" "lib_malloc high_lib s sz = Inr (NULL, s')" for s H sz s'
    using high_alloc_NULL [of s "unat sz" s' H] that by (simp add: high_simps)
  show "\<exists>s'. lib_free high_lib s b = Inr s' \<and> high_ok s' (H(b := None)) \<and> lib_bytes high_lib s' = lib_bytes high_lib s"
    if "high_ok s H" "H b = Some n" for s H b n using that by (auto simp: high_simps high_ok_drop)
  show "H b = None \<and> high_ok s' (H(b \<mapsto> unat (num * sz))) \<and>
      lib_bytes high_lib s' = memset (lib_bytes high_lib s) b 0 (unat (num * sz))"
    if h: "high_ok s H" "num * sz \<noteq> 0" "unat num * unat sz < 2 ^ 64" "lib_calloc high_lib s num sz = Inr (b, s')" "b \<noteq> NULL"
    for s H num sz b s'
  proof -
    have u: "unat (num * sz) = unat num * unat sz" by (rule unat_mult_small [OF h(3)])
    obtain t where t: "high_alloc s (unat num * unat sz) = (b, t)"
      "s' = (fst t, memset (snd t) b 0 (unat num * unat sz))"
      using h(4,5) by (auto simp: high_simps split: prod.splits)
    show ?thesis
      using high_alloc_ok [OF h(1) _ t(1) h(5), of "memset (snd s) b 0 (unat num * unat sz)"] p [OF h(2)]
      unfolding u by (simp add: t(2) high_simps)
  qed
  show "high_ok s' H \<and> lib_bytes high_lib s' = lib_bytes high_lib s"
    if "high_ok s H" "num * sz \<noteq> 0" "unat num * unat sz < 2 ^ 64" "lib_calloc high_lib s num sz = Inr (NULL, s')" for s H num sz s'
    using high_alloc_NULL [of s "unat num * unat sz" s' H] that by (auto simp: high_simps split: prod.splits)
  show "high_ok s' H \<and> lib_bytes high_lib s' = lib_bytes high_lib s"
    if "high_ok s H" "sz \<noteq> 0" "p = NULL \<or> H p \<noteq> None" "lib_realloc high_lib s p sz = Inr (NULL, s')" for s H sz p s'
    using high_alloc_NULL [of s "unat sz" s' H] that by (auto simp: high_simps split: prod.splits)
  show "b + n \<le> 2 ^ 47" if "high_ok s H" "H b = Some n" for s H b n
  proof -
    have "b + n \<le> fst s" "fst s \<le> 2 ^ 47" using that by (simp_all add: high_ok_def)
    then show ?thesis by (rule order_trans)
  qed
  show "(b = p \<or> H b = None) \<and> high_ok s' (H(p := None, b \<mapsto> unat sz)) \<and> keeps (lib_bytes high_lib s) (lib_bytes high_lib s') H p"
    if "high_ok s H" "sz \<noteq> 0" "p = NULL \<or> H p \<noteq> None" "lib_realloc high_lib s p sz = Inr (b, s')" "b \<noteq> NULL" for s H sz p b s'
    using high_realloc [OF that(1,2,4,5)] .
qed (auto simp: high_ok_def high_simps split: prod.splits)

end
