(* ===== verification/Gc_Run.thy ===== *)
theory Gc_Run
  imports Gc_Lib
begin

text \<open>
  All runs of a program that uses the collector: \<open>gc_run ok A sb G P\<close> holds when such a run leads to the state \<open>G\<close>,
  and the program then has the blocks \<open>P\<close> from the library directly. After a \<open>gc_init\<close> that got its table the program
  may call the interface of the collector in any order, use the library itself, and change the bytes of memory; the
  collector's own records are not among these bytes. \<open>gc_realloc\<close> is called on \<open>NULL\<close> or on a block that the program
  has from the library; on a tracked block it breaks the table (see \<open>Gc_Bugs\<close>). The depth \<open>d\<close> that the recursion
  of the marker may take is more than the number of tracked blocks, and sizes do not wrap when they are rounded.
  The library may refuse any request.
\<close>

inductive gc_run :: "('s \<Rightarrow> holdings \<Rightarrow> bool) \<Rightarrow> 's libc \<Rightarrow> (bytes \<Rightarrow> 's \<Rightarrow> 's) \<Rightarrow> 's gc_t \<Rightarrow> holdings \<Rightarrow> bool"
  for ok A sb where
  run_init: "ok (lib G) P \<Longrightarrow> gc_init A frame G = Inr G' \<Longrightarrow> allocs_addr G' \<noteq> NULL \<Longrightarrow> gc_run ok A sb G' P"
| run_malloc: "gc_run ok A sb G P \<Longrightarrow> n \<noteq> 0 \<Longrightarrow> unat n + 7 < 2 ^ 64 \<Longrightarrow> unat (gc_size G) < d \<Longrightarrow>
    gc_malloc A d tos G n = Inr (p, G') \<Longrightarrow> gc_run ok A sb G' P"
| run_calloc: "gc_run ok A sb G P \<Longrightarrow> num \<noteq> 0 \<Longrightarrow> n \<noteq> 0 \<Longrightarrow> unat n + 7 < 2 ^ 64 \<Longrightarrow>
    unat num * unat (round8 n) < 2 ^ 64 \<Longrightarrow> unat (gc_size G) < d \<Longrightarrow>
    gc_calloc A d tos G num n = Inr (p, G') \<Longrightarrow> gc_run ok A sb G' P"
| run_realloc: "gc_run ok A sb G P \<Longrightarrow> ptr = NULL \<or> P ptr \<noteq> None \<Longrightarrow> n \<noteq> 0 \<Longrightarrow> unat n + 7 < 2 ^ 64 \<Longrightarrow>
    unat (gc_size G) < d \<Longrightarrow> gc_realloc A d tos G ptr n = Inr (p, G') \<Longrightarrow>
    gc_run ok A sb G' (if p = NULL then P else P(ptr := None))"
| run_free: "gc_run ok A sb G P \<Longrightarrow> search G p = Some a \<Longrightarrow> a \<noteq> NULL \<Longrightarrow> gc_free A G p = Inr G' \<Longrightarrow>
    gc_run ok A sb G' P"
| run_collect: "gc_run ok A sb G P \<Longrightarrow> unat (gc_size G) < d \<Longrightarrow> gc_collect A d tos G = Inr G' \<Longrightarrow> gc_run ok A sb G' P"
| run_own: "gc_run ok A sb G P \<Longrightarrow> sz \<noteq> 0 \<Longrightarrow> lib_malloc A (lib G) sz = Inr (b, s) \<Longrightarrow>
    gc_run ok A sb (G\<lparr>lib := s\<rparr>) (if b = NULL then P else P(b \<mapsto> unat sz))"
| run_own_calloc: "gc_run ok A sb G P \<Longrightarrow> num * sz \<noteq> 0 \<Longrightarrow> unat num * unat sz < 2 ^ 64 \<Longrightarrow>
    lib_calloc A (lib G) num sz = Inr (b, s) \<Longrightarrow>
    gc_run ok A sb (G\<lparr>lib := s\<rparr>) (if b = NULL then P else P(b \<mapsto> unat (num * sz)))"
| run_own_realloc: "gc_run ok A sb G P \<Longrightarrow> ptr = NULL \<or> P ptr \<noteq> None \<Longrightarrow> sz \<noteq> 0 \<Longrightarrow>
    lib_realloc A (lib G) ptr sz = Inr (b, s) \<Longrightarrow>
    gc_run ok A sb (G\<lparr>lib := s\<rparr>) (if b = NULL then P else P(ptr := None, b \<mapsto> unat sz))"
| run_own_free: "gc_run ok A sb G P \<Longrightarrow> P b = Some n \<Longrightarrow> gc_free A G b = Inr G' \<Longrightarrow> gc_run ok A sb G' (P(b := None))"
| run_lib_free: "gc_run ok A sb G P \<Longrightarrow> P b = Some n \<Longrightarrow> lib_free A (lib G) b = Inr s \<Longrightarrow>
    gc_run ok A sb (G\<lparr>lib := s\<rparr>) (P(b := None))"
| run_write: "gc_run ok A sb G P \<Longrightarrow> gc_run ok A sb (G\<lparr>lib := sb m (lib G)\<rparr>) P"

lemma tracked_node:
  assumes "tbl_ok G ch" "search G p = Some a" "a \<noteq> NULL"
  shows "a \<in> nodes G ch" "blk (alloc_at G a) = p"
  using search_spec [OF assms(1), of p] assms(2,3) by auto

text \<open>The block of \<open>x\<close> is found as before, with its size and what it holds.\<close>

definition still :: "'s libc \<Rightarrow> 's gc_t \<Rightarrow> 's gc_t \<Rightarrow> addr \<Rightarrow> bool" where
  "still A G G' x \<longleftrightarrow> search G' (blk (alloc_at G x)) = Some x \<and> blk (alloc_at G' x) = blk (alloc_at G x) \<and>
     size_tag (alloc_at G' x) = size_tag (alloc_at G x) \<and> contents A G' x = contents A G x"

text \<open>All blocks with nodes in \<open>K\<close>, and the program's own, are as before.\<close>

definition all_still :: "'s libc \<Rightarrow> 's gc_t \<Rightarrow> 's gc_t \<Rightarrow> holdings \<Rightarrow> addr set \<Rightarrow> bool" where
  "all_still A G G' P K \<longleftrightarrow> keeps_blocks A G G' P \<and> (\<forall>x\<in>K. still A G G' x)"

text \<open>
  A new block \<open>p\<close> of \<open>sz\<close> bytes: it is found, it lies apart from the blocks that are kept and from the program's own,
  and these are as before.
\<close>

definition fresh_block :: "'s libc \<Rightarrow> 's gc_t \<Rightarrow> 's gc_t \<Rightarrow> holdings \<Rightarrow> addr set \<Rightarrow> addr \<Rightarrow> size_t \<Rightarrow> bool" where
  "fresh_block A G G' P K p sz \<longleftrightarrow>
     (\<exists>a. search G' p = Some a \<and> a \<noteq> NULL \<and> size_tag (alloc_at G' a) = sz) \<and>
     (\<forall>b n. P b = Some n \<longrightarrow> apart p (unat sz) b n) \<and> keeps_blocks A G G' P \<and>
     (\<forall>x\<in>K. still A G G' x \<and> apart p (unat sz) (blk (alloc_at G x)) (unat (size_tag (alloc_at G x))))"

text \<open>
  The answer \<open>r\<close> to a request for a tracked block of \<open>sz\<close> bytes, when the nodes \<open>K\<close> of the table \<open>ch\<close> are kept: the
  blocks of the other nodes are no longer known, and there is a new block that satisfies \<open>Z\<close>, or the library had
  none.
\<close>

definition new_block :: "'s libc \<Rightarrow> 's gc_t \<Rightarrow> (nat \<Rightarrow> addr list) \<Rightarrow> holdings \<Rightarrow> addr set \<Rightarrow> size_t \<Rightarrow>
    (bytes \<Rightarrow> addr \<Rightarrow> bool) \<Rightarrow> addr \<times> 's gc_t \<Rightarrow> bool" where
  "new_block A G ch P K sz Z r \<longleftrightarrow> (case r of (p, G') \<Rightarrow>
     (\<forall>x \<in> nodes G ch - K. blk (alloc_at G x) = p \<or> search G' (blk (alloc_at G x)) = Some NULL) \<and>
     (if p = NULL then all_still A G G' P K else fresh_block A G G' P K p sz \<and> Z (lib_bytes A (lib G')) p))"

context gc_heap
begin

lemma answered_run:
  assumes "gc_inv ok G ch H" "answered tos G ch (others G ch H) p sz Z (b, G')"
  shows "\<exists>ch' H'. gc_inv ok G' ch' H' \<and> others G' ch' H' = (if b = NULL then others G ch H else (others G ch H)(p := None))"
  using assms(2) unfolding answered_def prod.case by (cases "b = NULL") auto

lemma no_null:
  assumes "gc_inv ok G ch H"
  shows "(others G ch H)(NULL := None) = others G ch H"
proof -
  have "H(NULL := None) = H" by (rule asked_NULL(1) [OF gc_invD(2) [OF assms]])
  then have "H NULL = None" by (metis fun_upd_same)
  then show ?thesis by (auto simp: others_def restrict_map_def fun_eq_iff)
qed

lemma run_inv:
  assumes q: "\<forall>s sz. sz \<noteq> 0 \<longrightarrow> ask s sz" and r: "gc_run ok A set_bytes G P"
  shows "\<exists>ch H. gc_inv ok G ch H \<and> others G ch H = P"
  using r
proof induction
  case (run_init G P frame G')
  have "DEFAULT_CAPACITY * sizeof_ptr \<noteq> 0" by (simp add: DEFAULT_CAPACITY_def sizeof_ptr_def)
  then have "ask (lib G) (DEFAULT_CAPACITY * sizeof_ptr)" using q by blast
  from init_inv [OF run_init(1) this run_init(2,3)] show ?case
    by (elim exE conjE) (intro exI conjI)
next
  case (run_malloc G P n d tos p G')
  then obtain ch H where i: "gc_inv ok G ch H" "others G ch H = P" by blast
  have d: "card (nodes G ch) < d" using run_malloc.hyps gc_invD(6) [OF i(1)] by simp
  from malloc_inv [OF i(1) d q run_malloc.hyps(2,3), of tos, unfolded run_malloc.hyps(5) sum.case]
  show ?case using answered_run [OF i(1)] no_null [OF i(1)] unfolding i(2) by (metis (no_types))
next
  case (run_calloc G P num n d tos p G')
  then obtain ch H where i: "gc_inv ok G ch H" "others G ch H = P" by blast
  have d: "card (nodes G ch) < d" using run_calloc.hyps gc_invD(6) [OF i(1)] by simp
  from calloc_inv [OF i(1) d q run_calloc.hyps(2-5), of tos, unfolded run_calloc.hyps(7) sum.case]
  show ?case using answered_run [OF i(1)] no_null [OF i(1)] unfolding i(2) by (metis (no_types))
next
  case (run_realloc G P ptr n d tos p G')
  then obtain ch H where i: "gc_inv ok G ch H" "others G ch H = P" by blast
  have d: "card (nodes G ch) < d" using run_realloc.hyps gc_invD(6) [OF i(1)] by simp
  have o: "ptr = NULL \<or> others G ch H ptr \<noteq> None" using run_realloc.hyps(2) i(2) by simp
  from realloc_inv [OF i(1) d q o run_realloc.hyps(3,4), of tos, unfolded run_realloc.hyps(6) sum.case]
  show ?case using answered_run [OF i(1)] unfolding i(2) by blast
next
  case (run_free G P p a G')
  then obtain ch H where i: "gc_inv ok G ch H" "others G ch H = P" by blast
  note t = tracked_node [OF gc_invD(4) [OF i(1)] run_free.hyps(2,3)]
  from free_inv [OF i(1) t(1), unfolded t(2) run_free.hyps(4)] show ?case unfolding i(2) sum.inject by blast
next
  case (run_collect G P d tos G')
  then obtain ch H where i: "gc_inv ok G ch H" "others G ch H = P" by blast
  have d: "card (nodes G ch) < d" using run_collect.hyps gc_invD(6) [OF i(1)] by simp
  have qc: "\<forall>s. ask s (capacity G * 2 * sizeof_ptr)" using q table_ask_nonzero [OF gc_invD(3) [OF i(1)]] by blast
  from collect_inv [OF i(1) d qc, of tos, unfolded run_collect.hyps(3) sum.case]
  show ?case unfolding i(2) by (elim exE conjE) (intro exI conjI)
next
  case (run_own G P sz b s)
  then obtain ch H where i: "gc_inv ok G ch H" "others G ch H = P" by blast
  from own_request_inv [OF i(1) disjI1 [OF refl] malloc_asked [OF q run_own.hyps(2)] run_own.hyps(3),
      unfolded i(2) no_null [OF i(1), unfolded i(2)]] show ?case by blast
next
  case (run_own_calloc G P num sz b s)
  then obtain ch H where i: "gc_inv ok G ch H" "others G ch H = P" by blast
  from own_request_inv [OF i(1) disjI1 [OF refl] calloc_asked [OF q run_own_calloc.hyps(2,3)] run_own_calloc.hyps(4),
      unfolded i(2) no_null [OF i(1), unfolded i(2)]] show ?case by blast
next
  case (run_own_realloc G P ptr sz b s)
  then obtain ch H where i: "gc_inv ok G ch H" "others G ch H = P" by blast
  have o: "ptr = NULL \<or> others G ch H ptr \<noteq> None" using run_own_realloc.hyps(2) i(2) by simp
  from own_request_inv [OF i(1) o realloc_asked [OF q run_own_realloc.hyps(3)] run_own_realloc.hyps(4), unfolded i(2)]
  show ?case by blast
next
  case (run_own_free G P b n G')
  then obtain ch H where i: "gc_inv ok G ch H" "others G ch H = P" by blast
  have "others G ch H b = Some n" using i(2) run_own_free.hyps(2) by simp
  from free_other_inv [OF i(1) this, unfolded run_own_free.hyps(3) sum.inject i(2)] show ?case
    by (elim exE conjE) (simp only:, intro exI conjI)
next
  case (run_lib_free G P b n s)
  then obtain ch H where i: "gc_inv ok G ch H" "others G ch H = P" by blast
  have "others G ch H b = Some n" using i(2) run_lib_free.hyps(2) by simp
  from free_own_inv [OF i(1) this run_lib_free.hyps(3), unfolded i(2)] show ?case by (intro exI conjI)
next
  case (run_write G P m)
  then obtain ch H where i: "gc_inv ok G ch H" "others G ch H = P" by blast
  from write_inv [OF i(1), of m, unfolded i(2)] show ?case by (intro exI conjI)
qed

lemma kept_still:
  assumes i: "gc_inv ok G' ch' H'" and k: "keeps_all A G G' K P" and K: "K \<subseteq> nodes G' ch'"
  shows "all_still A G G' P K"
proof -
  have "still A G G' x" if "x \<in> K" for x
    using search_unique [OF gc_invD(4) [OF i], of x] that k K
    by (auto simp: still_def keeps_all_def same_blocks_def same_entries_def)
  then show ?thesis using k by (simp add: all_still_def keeps_all_def)
qed

lemma entered_fresh:
  assumes i: "gc_inv ok G ch H" "gc_inv ok G' ch' H'" "others G' ch' H' = P"
    and k: "keeps_all A G G' K P" "K \<subseteq> nodes G ch" and e: "entered G' ch' K a p sz"
  shows "fresh_block A G G' P K p sz"
proof -
  note I = gc_invD [OF i(2)]
  have a: "a \<in> nodes G' ch'" "blk (alloc_at G' a) = p" "size_tag (alloc_at G' a) = sz"
    and Kn: "x \<in> K \<Longrightarrow> x \<in> nodes G' ch' \<and> blk (alloc_at G' x) \<noteq> p" for x
    using e by (auto simp: entered_def)
  have hp: "H' p = Some (unat sz)" using I(10) [OF a(1)] a(2,3) by (simp add: sized_def)
  have po: "p \<in> own G' ch'" using a(1,2) by (auto simp: own_def blocks_of_def)
  have "apart p (unat sz) b n" if "P b = Some n" for b n
  proof -
    have b: "H' b = Some n" "b \<notin> own G' ch'" using othersD that unfolding i(3) [symmetric] by blast+
    then have "p \<noteq> b" using po by blast
    then show ?thesis by (rule live_apart [OF I(2) hp b(1)])
  qed
  moreover have "still A G G' x \<and> apart p (unat sz) (blk (alloc_at G x)) (unat (size_tag (alloc_at G x)))" if x: "x \<in> K" for x
  proof -
    have s: "blk (alloc_at G' x) = blk (alloc_at G x)" "size_tag (alloc_at G' x) = size_tag (alloc_at G x)"
        "contents A G' x = contents A G x"
      using k(1) x by (simp_all add: keeps_all_def same_blocks_def same_entries_def)
    have hx: "H' (blk (alloc_at G x)) = Some (unat (size_tag (alloc_at G x)))"
      using I(10) [of x] Kn [OF x] by (simp add: sized_def s)
    have "p \<noteq> blk (alloc_at G x)" using Kn [OF x] s(1) by simp
    from live_apart [OF I(2) hp hx this] show ?thesis
      using search_unique [OF I(4), of x] Kn [OF x] s by (simp add: still_def)
  qed
  moreover have "a \<noteq> NULL" using nodes_not_null [OF I(4)] a(1) by metis
  ultimately show ?thesis using e k(1) by (simp add: fresh_block_def entered_def keeps_all_def)
qed

lemma forgotten:
  assumes i: "gc_inv ok G ch H" "gc_inv ok G' ch' H'" and se: "same_entries G G' K" and K: "K \<subseteq> nodes G ch"
    and n: "\<And>y. y \<in> nodes G' ch' \<Longrightarrow> y \<in> K \<or> blk (alloc_at G' y) = p"
    and x: "x \<in> nodes G ch - K" "blk (alloc_at G x) \<noteq> p"
  shows "search G' (blk (alloc_at G x)) = Some NULL"
proof (rule search_NULL [OF gc_invD(4) [OF i(2)]], rule)
  assume "blk (alloc_at G x) \<in> (\<lambda>y. blk (alloc_at G' y)) ` nodes G' ch'"
  then obtain y where y: "y \<in> nodes G' ch'" "blk (alloc_at G x) = blk (alloc_at G' y)" by blast
  with n x(2) have "y \<in> K" by auto
  moreover from this have "blk (alloc_at G x) = blk (alloc_at G y)" using y(2) se by (simp add: same_entries_def)
  ultimately show False
    using inj_onD [OF tbl_okD(8) [OF gc_invD(4) [OF i(1)]], of x y] x(1) K by blast
qed

lemma answered_new:
  assumes i: "gc_inv ok G ch H" and a: "answered tos G ch (others G ch H) NULL sz Z r"
  shows "new_block A G ch (others G ch H) (kept_nodes A tos G ch) sz Z r"
proof -
  let ?P = "others G ch H" and ?K = "kept_nodes A tos G ch"
  obtain p G' where r: "r = (p, G')" by fastforce
  have old: "blk (alloc_at G x) \<noteq> NULL" if "x \<in> nodes G ch - ?K" for x
    using tbl_okD(7) [OF gc_invD(4) [OF i], of x] that by blast
  show ?thesis
  proof (cases "p = NULL")
    case True
    with a [unfolded answered_def r prod.case] obtain ch' H' where
      G': "gc_inv ok G' ch' H'" "nodes G' ch' = ?K" "keeps_all A G G' ?K ?P" by auto
    have se: "same_entries G G' ?K" using G'(3) by (simp add: keeps_all_def same_blocks_def)
    have "search G' (blk (alloc_at G x)) = Some NULL" if x: "x \<in> nodes G ch - ?K" for x
      using forgotten [OF i G'(1) se kept_nodes_sub _ x old [OF x]] G'(2) by blast
    then show ?thesis
      using kept_still [OF G'(1,3)] G'(2) True by (simp add: new_block_def r)
  next
    case False
    with a [unfolded answered_def r prod.case no_null [OF i]] obtain ch' H' a where
      G': "gc_inv ok G' ch' H'" "others G' ch' H' = ?P" "keeps_all A G G' ?K ?P" "Z (lib_bytes A (lib G')) p"
        "entered G' ch' ?K a p sz" by auto
    have se: "same_entries G G' ?K" using G'(3) by (simp add: keeps_all_def same_blocks_def)
    have n: "y \<in> ?K \<or> blk (alloc_at G' y) = p" if "y \<in> nodes G' ch'" for y
      using that G'(5) by (auto simp: entered_def)
    have "blk (alloc_at G x) = p \<or> search G' (blk (alloc_at G x)) = Some NULL" if x: "x \<in> nodes G ch - ?K" for x
      using forgotten [OF i G'(1) se kept_nodes_sub n x] by blast
    then show ?thesis
      using entered_fresh [OF i G'(1,2,3) kept_nodes_sub G'(5)] G'(4) False by (simp add: new_block_def r)
  qed
qed

end

subsection \<open>What every run guarantees\<close>

text \<open>
  C11: After any run of a program that \<open>gc_run\<close> describes (\<open>gc_realloc\<close> is never called on a tracked block, which C29
  shows to be an error), over any C library that does what the standard says, may refuse any request with \<open>NULL\<close>, and
  hands out addresses below \<open>2 ^ 47\<close>: a collection keeps exactly the blocks that the words between the stack pointer
  and the bottom of the stack lead to. They are found as before and hold what they held, also when the table is doubled,
  and the others are given back. What the program has from the library directly is not touched. The collection
  returns, unless the table must be doubled and the library has no memory for the bigger one: then the library stops the
  process, or the code, which does not test the answer, follows a null pointer.
\<close>

theorem gc_run_collects:
  assumes "gc_heap ok (\<lambda>_ sz. sz \<noteq> 0) A sb" "gc_run ok A sb G P" "unat (gc_size G) < d"
  shows "\<exists>ch. tbl_ok G ch \<and> (case gc_collect A d tos G of Inl e \<Rightarrow> stops (collect_refused A d tos G) e
    | Inr G' \<Rightarrow> gc_run ok A sb G' P \<and> keeps_blocks A G G' P \<and> \<not> gc_need_collect G' \<and>
        (\<forall>x \<in> nodes G ch. if reachable A G ch [tos ..< bos G + 1] x then still A G G' x
           else search G' (blk (alloc_at G x)) = Some NULL) \<and>
        (\<exists>H' ch'. ok (lib G') H' \<and> dom H' = own G' ch' \<union> dom P \<and> tbl_ok G' ch' \<and>
           nodes G' ch' = {x \<in> nodes G ch. reachable A G ch [tos ..< bos G + 1] x}))"
proof -
  have q: "\<forall>(s :: 'a) sz. sz \<noteq> 0 \<longrightarrow> sz \<noteq> (0 :: size_t)" by simp
  obtain ch H where i: "gc_inv ok G ch H" "others G ch H = P" using gc_heap.run_inv [OF assms(1) q assms(2)] by blast
  note I = gc_invD [OF i(1)]
  let ?L = "live_nodes A tos G ch"
  have d: "card (nodes G ch) < d" using assms(3) I(6) by simp
  have qc: "\<forall>s :: 'a. capacity G * 2 * sizeof_ptr \<noteq> 0" using table_ask_nonzero [OF I(3)] by simp
  note c = gc_heap.collect_inv [OF assms(1) i(1) d qc, of tos]
  show ?thesis
  proof (cases "gc_collect A d tos G")
    case (Inl e)
    with c I(4) show ?thesis by auto
  next
    case (Inr G')
    from c [unfolded Inr sum.case i(2)] obtain ch' H' where
      G': "gc_inv ok G' ch' H'" "others G' ch' H' = P" "nodes G' ch' = ?L" "\<not> gc_need_collect G'" "keeps_all A G G' ?L P"
      by (elim exE conjE) (rule that)
    note I' = gc_invD [OF G'(1)]
    have L: "?L = {x \<in> nodes G ch. reachable A G ch [tos ..< bos G + 1] x}"
      using live_nodes_sub [of A tos G ch] by (auto simp: live_nodes_def)
    have st: "all_still A G G' P ?L" by (rule gc_heap.kept_still [OF assms(1) G'(1,5)]) (simp add: G'(3))
    have se: "same_entries G G' ?L" using G'(5) by (simp add: keeps_all_def same_blocks_def)
    have "search G' (blk (alloc_at G x)) = Some NULL" if x: "x \<in> nodes G ch - ?L" for x
      using gc_heap.forgotten [OF assms(1) i(1) G'(1) se live_nodes_sub _ x, of NULL] tbl_okD(7) [OF I(4), of x] x G'(3) by auto
    then have "\<forall>x \<in> nodes G ch. if reachable A G ch [tos ..< bos G + 1] x then still A G G' x
        else search G' (blk (alloc_at G x)) = Some NULL" using L st by (auto simp: all_still_def)
    moreover have "dom H' = own G' ch' \<union> dom P"
      using own_held [OF G'(1)] by (auto simp: G'(2) [symmetric] others_def)
    moreover have "gc_run ok A sb G' P" by (rule run_collect [OF assms(2,3) Inr])
    moreover have "keeps_blocks A G G' P" using G'(5) by (simp add: keeps_all_def)
    ultimately show ?thesis
      unfolding Inr sum.case using I(4) I'(2,4) G'(3,4) L
      by (intro exI [of _ ch] conjI exI [of _ H'] exI [of _ ch']) simp_all
  qed
qed

text \<open>
  C14: After any such run (as in C11) \<open>gc_malloc\<close> returns a block of at least the size asked for, apart from every
  other block in use, or \<open>NULL\<close> when the library has no block. In both cases, when a collection was due, exactly the blocks
  that it finds unreachable have been given up, and all others are found and hold what they held. The call does not
  return when the library stops the process, or when it refuses the bigger table or the node for the new block: the
  code tests neither answer. The size is not 0 and does not wrap when it is rounded up to a multiple of 8.
\<close>

theorem gc_run_malloc:
  assumes "gc_heap ok (\<lambda>_ sz. sz \<noteq> 0) A sb" "gc_run ok A sb G P" "unat (gc_size G) < d"
    and "n \<noteq> 0" "unat n + 7 < 2 ^ 64"
  shows "unat n \<le> unat (round8 n) \<and> (\<exists>ch. tbl_ok G ch \<and> (case gc_malloc A d tos G n of
      Inl e \<Rightarrow> stops (request_refused A d tos G (\<lambda>s. lib_malloc A s (round8 n))) e
    | Inr r \<Rightarrow> gc_run ok A sb (snd r) P \<and> new_block A G ch P (kept_nodes A tos G ch) (round8 n) (\<lambda>_ _. True) r))"
proof -
  have q: "\<forall>(s :: 'a) sz. sz \<noteq> 0 \<longrightarrow> sz \<noteq> (0 :: size_t)" by simp
  obtain ch H where i: "gc_inv ok G ch H" "others G ch H = P" using gc_heap.run_inv [OF assms(1) q assms(2)] by blast
  note I = gc_invD [OF i(1)]
  have d: "card (nodes G ch) < d" using assms(3) I(6) by simp
  note m = gc_heap.malloc_inv [OF assms(1) i(1) d q assms(4,5), of tos]
  have "case gc_malloc A d tos G n of Inl e \<Rightarrow> stops (request_refused A d tos G (\<lambda>s. lib_malloc A s (round8 n))) e
    | Inr r \<Rightarrow> gc_run ok A sb (snd r) P \<and> new_block A G ch P (kept_nodes A tos G ch) (round8 n) (\<lambda>_ _. True) r"
  proof (cases "gc_malloc A d tos G n")
    case (Inr r)
    have "gc_malloc A d tos G n = Inr (fst r, snd r)" using Inr by simp
    from run_malloc [OF assms(2,4,5,3) this] gc_heap.answered_new [OF assms(1) i(1)] m
    show ?thesis unfolding Inr sum.case i(2) by blast
  qed (use m in simp)
  with I(4) round8_facts(2) [OF assms(4,5)] show ?thesis by blast
qed

text \<open>
  C16: The same holds for \<open>gc_calloc\<close>, whose block is as big as the product of the count and the rounded size and
  holds nothing but zeroes; neither the rounding nor the product wraps.
\<close>

theorem gc_run_calloc:
  assumes "gc_heap ok (\<lambda>_ sz. sz \<noteq> 0) A sb" "gc_run ok A sb G P" "unat (gc_size G) < d"
    and "num \<noteq> 0" "n \<noteq> 0" "unat n + 7 < 2 ^ 64" "unat num * unat (round8 n) < 2 ^ 64"
  shows "\<exists>ch. tbl_ok G ch \<and> (case gc_calloc A d tos G num n of
      Inl e \<Rightarrow> stops (request_refused A d tos G (\<lambda>s. lib_calloc A s num (round8 n))) e
    | Inr r \<Rightarrow> gc_run ok A sb (snd r) P \<and> new_block A G ch P (kept_nodes A tos G ch) (num * round8 n)
        (\<lambda>m p. load_bytes m p (unat num * unat (round8 n)) = replicate (unat num * unat (round8 n)) 0) r)"
proof -
  have q: "\<forall>(s :: 'a) sz. sz \<noteq> 0 \<longrightarrow> sz \<noteq> (0 :: size_t)" by simp
  obtain ch H where i: "gc_inv ok G ch H" "others G ch H = P" using gc_heap.run_inv [OF assms(1) q assms(2)] by blast
  note I = gc_invD [OF i(1)]
  have d: "card (nodes G ch) < d" using assms(3) I(6) by simp
  note m = gc_heap.calloc_inv [OF assms(1) i(1) d q assms(4-7), of tos]
  show ?thesis
  proof (intro exI [of _ ch] conjI I(4), cases "gc_calloc A d tos G num n")
    case (Inr r)
    have "gc_calloc A d tos G num n = Inr (fst r, snd r)" using Inr by simp
    from run_calloc [OF assms(2,4-7,3) this] gc_heap.answered_new [OF assms(1) i(1)] m
    show "case gc_calloc A d tos G num n of
        Inl e \<Rightarrow> stops (request_refused A d tos G (\<lambda>s. lib_calloc A s num (round8 n))) e
      | Inr r \<Rightarrow> gc_run ok A sb (snd r) P \<and> new_block A G ch P (kept_nodes A tos G ch) (num * round8 n)
          (\<lambda>m p. load_bytes m p (unat num * unat (round8 n)) = replicate (unat num * unat (round8 n)) 0) r"
      unfolding Inr sum.case i(2) by blast
  qed (use m in simp)
qed

text \<open>
  C17: After any such run (as in C11) the table has a size that is a power of two, and at most one block more than
  half of its buckets; so the test against \<open>LOAD_FACTOR\<close> never asks for a bigger table, only the one against
  \<open>SWEEP_FACTOR\<close> does. The size recorded for a block is what the library handed out for it, and every word that
  the marker reads in a block lies inside it.
\<close>

theorem gc_run_table:
  assumes "gc_heap ok (\<lambda>_ sz. sz \<noteq> 0) A sb" "gc_run ok A sb G P"
  shows "(\<exists>k. 12 \<le> k \<and> k \<le> 48 \<and> capacity G = 2 ^ k) \<and> sweep_limit G = capacity G div 2 \<and>
    unat (gc_size G) \<le> unat (capacity G) div 2 + 1 \<and> \<not> gc_need_resize G \<and>
    (\<exists>ch H. tbl_ok G ch \<and> ok (lib G) H \<and> unat (gc_size G) = card (nodes G ch) \<and> clean G ch \<and>
      (\<forall>x \<in> nodes G ch. H (blk (alloc_at G x)) = Some (unat (size_tag (alloc_at G x))) \<and>
        (\<forall>q \<in> set (scan_range (alloc_at G x)). blk (alloc_at G x) \<le> q \<and>
           q + 8 \<le> blk (alloc_at G x) + unat (size_tag (alloc_at G x)))))"
proof -
  obtain ch H where i: "gc_inv ok G ch H" "others G ch H = P" using gc_heap.run_inv [OF assms(1) _ assms(2)] by blast
  note I = gc_invD [OF i(1)]
  have "H (blk (alloc_at G x)) = Some (unat (size_tag (alloc_at G x))) \<and>
      (\<forall>q \<in> set (scan_range (alloc_at G x)). blk (alloc_at G x) \<le> q \<and>
         q + 8 \<le> blk (alloc_at G x) + unat (size_tag (alloc_at G x)))" if "x \<in> nodes G ch" for x
    using I(10) [OF that] sized_scan [OF I(10) [OF that]] by (auto simp: sized_def)
  with I(2,4,5,6) have "\<exists>ch H. tbl_ok G ch \<and> ok (lib G) H \<and> unat (gc_size G) = card (nodes G ch) \<and> clean G ch \<and>
      (\<forall>x \<in> nodes G ch. H (blk (alloc_at G x)) = Some (unat (size_tag (alloc_at G x))) \<and>
        (\<forall>q \<in> set (scan_range (alloc_at G x)). blk (alloc_at G x) \<le> q \<and>
           q + 8 \<le> blk (alloc_at G x) + unat (size_tag (alloc_at G x))))" by blast
  moreover have "(\<exists>k. 12 \<le> k \<and> k \<le> 48 \<and> capacity G = 2 ^ k) \<and> sweep_limit G = capacity G div 2"
    using I(3) by (simp add: table_inv_def)
  ultimately show ?thesis using table_inv_load [OF I(3)] by simp
qed

subsection \<open>A run\<close>

text \<open>The start of a program on the library \<open>high_lib\<close>, and one tracked block of 100 bytes.\<close>

definition first_gc :: "(nat \<times> bytes) gc_t" where
  "first_gc = \<lparr>lib = (16, \<lambda>_. 0), alloc_at = (\<lambda>_. \<lparr>blk = 0, size_tag = 0, chain_next = 0\<rparr>), bos = 0, allocs_addr = 0,
     allocs = [], capacity = 0, gc_size = 0, sweep_limit = 0, gc_cnt = 0\<rparr>"

lemma first_init:
  "\<exists>G. gc_init high_lib 0 first_gc = Inr G \<and> gc_run high_ok high_lib (\<lambda>m s. (fst s, m)) G Map.empty \<and>
     gc_size G = 0 \<and> bos G = 0 \<and> sweep_limit G = 2048 \<and> fst (lib G) = 32784 \<and> length (allocs G) = 4096 \<and> capacity G = 4096"
proof -
  have "high_ok (lib first_gc) Map.empty" by (simp add: high_ok_def first_gc_def)
  note r = run_init [of high_ok, OF this, of high_lib 0]
  have "\<exists>G. gc_init high_lib 0 first_gc = Inr G \<and> allocs_addr G \<noteq> NULL \<and> gc_size G = 0 \<and> bos G = 0 \<and> sweep_limit G = 2048 \<and>
      fst (lib G) = 32784 \<and> length (allocs G) = 4096 \<and> capacity G = 4096"
    by (simp add: gc_init_def high_simps high_alloc_def first_gc_def DEFAULT_CAPACITY_def sizeof_ptr_def)
  with r show ?thesis by blast
qed

lemma first_malloc:
  assumes "gc_size G = 0" "sweep_limit G = 2048" "fst (lib G) = 32784" "length (allocs G) = 4096" "capacity G = 4096"
  shows "\<exists>G'. gc_malloc high_lib 1 1 G 100 = Inr (32784, G') \<and> gc_size G' = 1 \<and> bos G' = bos G \<and>
    search G' 32784 = Some 32888"
proof -
  have b: "bucket 4096 p < 4096" for p using bucket_less [of 4096 p] by simp
  have n: "\<not> gc_need_collect G" using assms(1,2) by (simp add: gc_need_collect_def)
  show ?thesis
    using assms b by (simp add: gc_malloc_def collect_if_needed_def n round8_100 high_simps high_alloc_def
      register_alloc_def sizeof_alloc_def Let_def search_def search_chain.simps)
qed

lemma first_calloc:
  assumes "gc_size G = 0" "sweep_limit G = 2048" "fst (lib G) = 32784" "length (allocs G) = 4096" "capacity G = 4096"
  shows "\<exists>G'. gc_calloc high_lib 1 1 G 3 100 = Inr (32784, G')"
proof -
  have b: "bucket 4096 p < 4096" for p using bucket_less [of 4096 p] by simp
  have n: "\<not> gc_need_collect G" using assms(1,2) by (simp add: gc_need_collect_def)
  show ?thesis
    using assms b by (simp add: gc_calloc_def collect_if_needed_def n round8_100 high_simps high_alloc_def
      register_alloc_def sizeof_alloc_def Let_def)
qed

lemma first_run:
  "\<exists>G G'. gc_init high_lib 0 first_gc = Inr G \<and> gc_malloc high_lib 1 1 G 100 = Inr (32784, G') \<and>
     gc_run high_ok high_lib (\<lambda>m s. (fst s, m)) G' Map.empty \<and> unat (gc_size G') < 2 \<and> bos G' = 0 \<and>
     search G' 32784 = Some 32888"
proof -
  obtain G where G: "gc_init high_lib 0 first_gc = Inr G" "gc_run high_ok high_lib (\<lambda>m s. (fst s, m)) G Map.empty"
    "gc_size G = 0" "bos G = 0" "sweep_limit G = 2048" "fst (lib G) = 32784" "length (allocs G) = 4096" "capacity G = 4096"
    using first_init by blast
  obtain G' where G': "gc_malloc high_lib 1 1 G 100 = Inr (32784, G')" "gc_size G' = 1" "bos G' = bos G"
    "search G' 32784 = Some 32888"
    using first_malloc [OF G(3,5-8)] by blast
  have "gc_run high_ok high_lib (\<lambda>m s. (fst s, m)) G' Map.empty"
    by (rule run_malloc [OF G(2) _ _ _ G'(1)]) (simp_all add: G(3))
  with G G' show ?thesis by (intro exI [of _ G] exI [of _ G']) simp
qed

lemma gc_run_collects_witness:
  "\<exists>G G1. gc_init high_lib 0 first_gc = Inr G \<and> gc_malloc high_lib 1 1 G 100 = Inr (32784, G1) \<and>
     search G1 32784 = Some 32888 \<and>
     (case gc_collect high_lib 2 1 G1 of Inl e \<Rightarrow> stops (collect_refused high_lib 2 1 G1) e | Inr G2 \<Rightarrow> search G2 32784 = Some NULL)"
proof -
  obtain G G1 where G: "gc_init high_lib 0 first_gc = Inr G" "gc_malloc high_lib 1 1 G 100 = Inr (32784, G1)"
    "gc_run high_ok high_lib (\<lambda>m s. (fst s, m)) G1 Map.empty" "unat (gc_size G1) < 2" "bos G1 = 0"
    "search G1 32784 = Some 32888" using first_run by blast
  have e: "[1 ..< bos G1 + 1] = []" by (simp add: G(5))
  note c = gc_run_collects [OF high_heap G(3,4), of 1, unfolded e demo_unreachable if_False]
  have "case gc_collect high_lib 2 1 G1 of Inl e \<Rightarrow> stops (collect_refused high_lib 2 1 G1) e | Inr G2 \<Rightarrow> search G2 32784 = Some NULL"
  proof (cases "gc_collect high_lib 2 1 G1")
    case (Inr G2)
    obtain ch where ch: "tbl_ok G1 ch" "\<forall>x \<in> nodes G1 ch. search G2 (blk (alloc_at G1 x)) = Some NULL"
      using c [unfolded Inr sum.case] by (elim exE conjE) (rule that)
    have n: "32888 \<in> nodes G1 ch" "blk (alloc_at G1 32888) = 32784" using tracked_node [OF ch(1) G(6)] by simp_all
    show ?thesis using bspec [OF ch(2) n(1)] unfolding Inr n(2) by simp
  qed (use c in auto)
  with G show ?thesis by blast
qed

lemma gc_run_malloc_witness:
  "\<exists>G G'. gc_init high_lib 0 first_gc = Inr G \<and> gc_malloc high_lib 1 1 G 100 = Inr (32784, G') \<and>
     (\<exists>a. search G' 32784 = Some a \<and> a \<noteq> NULL \<and> size_tag (alloc_at G' a) = 104)"
proof -
  obtain G where G: "gc_init high_lib 0 first_gc = Inr G" "gc_run high_ok high_lib (\<lambda>m s. (fst s, m)) G Map.empty"
    "gc_size G = 0" "sweep_limit G = 2048" "fst (lib G) = 32784" "length (allocs G) = 4096" "capacity G = 4096"
    using first_init by blast
  obtain G' where G': "gc_malloc high_lib 1 1 G 100 = Inr (32784, G')" using first_malloc [OF G(3-7)] by blast
  have "unat (gc_size G) < 1" "(100 :: size_t) \<noteq> 0" "unat (100 :: size_t) + 7 < 2 ^ 64" by (simp_all add: G(3))
  from gc_run_malloc [OF high_heap G(2) this, of 1] G(1) G' show ?thesis
    by (auto simp: new_block_def fresh_block_def round8_100)
qed

lemma gc_run_calloc_witness:
  "\<exists>G p G'. gc_init high_lib 0 first_gc = Inr G \<and> gc_calloc high_lib 1 1 G 3 100 = Inr (p, G') \<and> p \<noteq> NULL \<and>
     load_bytes (snd (lib G')) p 312 = replicate 312 0"
proof -
  obtain G where G: "gc_init high_lib 0 first_gc = Inr G" "gc_run high_ok high_lib (\<lambda>m s. (fst s, m)) G Map.empty"
    "gc_size G = 0" "sweep_limit G = 2048" "fst (lib G) = 32784" "length (allocs G) = 4096" "capacity G = 4096"
    using first_init by blast
  obtain G' where G': "gc_calloc high_lib 1 1 G 3 100 = Inr (32784, G')" using first_calloc [OF G(3-7)] by blast
  have "unat (gc_size G) < 1" "(3 :: size_t) \<noteq> 0" "(100 :: size_t) \<noteq> 0" "unat (100 :: size_t) + 7 < 2 ^ 64"
    "unat (3 :: size_t) * unat (round8 100) < 2 ^ 64" by (simp_all add: G(3) round8_100)
  from gc_run_calloc [OF high_heap G(2) this, of 1] G(1) G' show ?thesis
    by (auto simp: new_block_def round8_100 high_simps)
qed

lemma gc_run_table_witness:
  "\<exists>G G1. gc_init high_lib 0 first_gc = Inr G \<and> gc_malloc high_lib 1 1 G 100 = Inr (32784, G1) \<and>
     \<not> gc_need_resize G1 \<and> sweep_limit G1 = capacity G1 div 2"
proof -
  obtain G G1 where G: "gc_init high_lib 0 first_gc = Inr G" "gc_malloc high_lib 1 1 G 100 = Inr (32784, G1)"
    "gc_run high_ok high_lib (\<lambda>m s. (fst s, m)) G1 Map.empty" using first_run by blast
  from gc_run_table [OF high_heap G(3)] G(1,2) show ?thesis by blast
qed

end
