(* ===== verification/Gcbench.thy ===== *)
theory Gcbench
  imports Gc Text "HOL-Library.Tree" "HOL-Library.Signed_Division"
begin

text \<open>
  The benchmark program \<open>test_benchmark/gcbench.c\<close> in both configurations, with \<open>-DGC\<close> (which is how \<open>src/Makefile\<close>
  builds it) and without; \<open>HOLES\<close> and \<open>PROFIL\<close> are not defined. The allocations are those of a library \<open>A\<close>: with
  \<open>GC\<close> its \<open>lib_malloc\<close> and \<open>lib_calloc\<close> are \<open>gc_malloc\<close> and \<open>gc_calloc\<close>, nothing is given back, and \<open>gc_init\<close> and
  \<open>gc_collected\<close> are called; without \<open>GC\<close> they are \<open>malloc\<close> and \<open>calloc\<close>, and \<open>destroy_Node\<close> gives a tree back.

  A \<open>Node0\<close> is a record by its address. The array of doubles is a function from its indices to values, with
  no value where nothing has been stored; the division \<open>1.0/i\<close> is an argument, since only the
  equality of two such quotients matters. \<open>gettimeofday\<close> is an argument too: \<open>timeofday E k\<close> is what its
  \<open>k\<close>-th call gives, seconds and microseconds, or nothing when it fails.
\<close>

subsection \<open>State\<close>

record node0 =
  left_at :: addr
  right_at :: addr
  node_i :: int
  node_j :: int

record 'd bench_env =
  timeofday :: "nat \<Rightarrow> (int \<times> int) option"
  recip :: "int \<Rightarrow> 'd"

text \<open>What the build with \<open>-DGC\<close> calls of the collector besides the allocations.\<close>

record 's collector =
  collector_init :: "'s \<Rightarrow> 's outcome"
  collections :: "'s \<Rightarrow> size_t"

record 's bench =
  heap_lib :: 's
  node_at :: "addr \<Rightarrow> node0"
  time_calls :: nat
  printed :: string
  complaints :: string

definition sizeof_Node0 :: size_t where [layout]: "sizeof_Node0 = 24"
definition sizeof_double :: size_t where [layout]: "sizeof_double = 8"
definition kStretchTreeDepth :: int where "kStretchTreeDepth = 16"
definition kLongLivedTreeDepth :: int where "kLongLivedTreeDepth = 14"
definition kArraySize :: int where "kArraySize = 500000"
definition kMinTreeDepth :: int where "kMinTreeDepth = 4"
definition kMaxTreeDepth :: int where "kMaxTreeDepth = 14"

definition put :: "string \<Rightarrow> 's bench \<Rightarrow> 's bench" where
  "put t b = b\<lparr>printed := printed b @ t\<rparr>"

text \<open>The milliseconds are computed in \<open>long\<close> and returned as \<open>unsigned\<close>.\<close>

definition stats_rtclock :: "'d bench_env \<Rightarrow> 's bench \<Rightarrow> u32 \<times> 's bench" where
  "stats_rtclock E b =
     (let b1 = b\<lparr>time_calls := time_calls b + 1\<rparr>
      in case timeofday E (time_calls b) of
           None \<Rightarrow> (0, b1)
         | Some (tv_sec, tv_usec) \<Rightarrow> (of_int (tv_sec * 1000 + tv_usec sdiv 1000), b1))"

text \<open>\<open>%d\<close> reads the low 32 bits of the \<open>long\<close> difference.\<close>

definition elapsed :: "u32 \<Rightarrow> u32 \<Rightarrow> int" where
  "elapsed tStart tFinish = sint (tFinish - tStart)"

subsection \<open>Nodes and trees\<close>

definition calloc_node :: "'s libc \<Rightarrow> 's bench \<Rightarrow> (addr \<times> 's bench) outcome" where
  "calloc_node A b = bindE (lib_calloc A (heap_lib b) 1 sizeof_Node0) (\<lambda>(p, s).
     Inr (p, b\<lparr>heap_lib := s,
               node_at := (if p = NULL then node_at b
                           else (node_at b)(p := \<lparr>left_at = NULL, right_at = NULL, node_i = 0, node_j = 0\<rparr>))\<rparr>))"

definition init_Node :: "addr \<Rightarrow> addr \<Rightarrow> addr \<Rightarrow> 's bench \<Rightarrow> 's bench outcome" where
  "init_Node me l r b =
     (if me = NULL then Inl Undefined
      else Inr (b\<lparr>node_at := (node_at b)(me := (node_at b me)\<lparr>left_at := l, right_at := r\<rparr>)\<rparr>))"

partial_function (option) destroy_Node :: "'s libc \<Rightarrow> addr \<Rightarrow> 's bench \<Rightarrow> 's bench outcome option" where
  "destroy_Node A me b =
     (if me = NULL then Some (Inl Undefined)
      else Option.bind (if left_at (node_at b me) \<noteq> NULL then destroy_Node A (left_at (node_at b me)) b else Some (Inr b)) (\<lambda>r1.
           case r1 of Inl e \<Rightarrow> Some (Inl e) | Inr b1 \<Rightarrow>
           Option.bind (if right_at (node_at b1 me) \<noteq> NULL then destroy_Node A (right_at (node_at b1 me)) b1 else Some (Inr b1)) (\<lambda>r2.
           case r2 of Inl e \<Rightarrow> Some (Inl e) | Inr b2 \<Rightarrow>
           Some (bindE (lib_free A (heap_lib b2) me) (\<lambda>s. Inr (b2\<lparr>heap_lib := s\<rparr>))))))"

text \<open>Nodes used by a tree of a given depth, and the number of trees to build of it.\<close>

definition TreeSize :: "int \<Rightarrow> int" where
  "TreeSize i = push_bit (nat (i + 1)) 1 - 1"

definition NumIters :: "int \<Rightarrow> int" where
  "NumIters i = (2 * TreeSize kStretchTreeDepth) sdiv TreeSize i"

function Populate :: "'s libc \<Rightarrow> int \<Rightarrow> addr \<Rightarrow> 's bench \<Rightarrow> 's bench outcome" where
  "Populate A iDepth thisNode b =
     (if iDepth \<le> 0 then Inr b
      else bindE (calloc_node A b) (\<lambda>(l, b1).
           if thisNode = NULL then Inl Undefined
           else let b2 = b1\<lparr>node_at := (node_at b1)(thisNode := (node_at b1 thisNode)\<lparr>left_at := l\<rparr>)\<rparr>
           in bindE (calloc_node A b2) (\<lambda>(r, b3).
           let b4 = b3\<lparr>node_at := (node_at b3)(thisNode := (node_at b3 thisNode)\<lparr>right_at := r\<rparr>)\<rparr>;
               b5 = (if left_at (node_at b4 thisNode) = NULL \<or> right_at (node_at b4 thisNode) = NULL
                     then put [newline_char] b4 else b4)
           in bindE (Populate A (iDepth - 1) (left_at (node_at b5 thisNode)) b5) (\<lambda>b6.
              Populate A (iDepth - 1) (right_at (node_at b6 thisNode)) b6))))"
  by pat_completeness auto
termination by (relation "measure (\<lambda>(A, i, a, b). nat i)") auto

function MakeTree :: "'s libc \<Rightarrow> int \<Rightarrow> 's bench \<Rightarrow> (addr \<times> 's bench) outcome" where
  "MakeTree A iDepth b =
     (if iDepth \<le> 0 then calloc_node A b
      else bindE (MakeTree A (iDepth - 1) b) (\<lambda>(l, b1).
           bindE (MakeTree A (iDepth - 1) b1) (\<lambda>(r, b2).
           bindE (lib_malloc A (heap_lib b2) sizeof_Node0) (\<lambda>(result, s).
           bindE (init_Node result l r (b2\<lparr>heap_lib := s\<rparr>)) (\<lambda>b3. Inr (result, b3))))))"
  by pat_completeness auto
termination by (relation "measure (\<lambda>(A, i, b). nat i)") auto

declare Populate.simps [simp del] MakeTree.simps [simp del]

subsection \<open>The program\<close>

text \<open>The two loops of \<open>TimeConstruction\<close>, with the number of iterations that are left.\<close>

definition destroy :: "'s libc \<Rightarrow> addr \<Rightarrow> 's bench \<Rightarrow> 's bench outcome" where
  "destroy A me b = bindE (from_option (destroy_Node A me b)) (\<lambda>r. r)"

text \<open>\<open>#ifndef GC destroy_Node(tempTree)\<close>; the first argument says whether \<open>GC\<close> is defined.\<close>

definition give_back :: "bool \<Rightarrow> 's libc \<Rightarrow> addr \<Rightarrow> 's bench \<Rightarrow> 's bench outcome" where
  "give_back gc A me b = (if gc then Inr b else destroy A me b)"

definition top_down_step :: "bool \<Rightarrow> 's libc \<Rightarrow> int \<Rightarrow> 's bench \<Rightarrow> 's bench outcome" where
  "top_down_step gc A depth b = bindE (calloc_node A b) (\<lambda>(tempTree, b1).
     bindE (Populate A depth tempTree b1) (\<lambda>b2. give_back gc A tempTree b2))"

definition bottom_up_step :: "bool \<Rightarrow> 's libc \<Rightarrow> int \<Rightarrow> 's bench \<Rightarrow> 's bench outcome" where
  "bottom_up_step gc A depth b = bindE (MakeTree A depth b) (\<lambda>(tempTree, b1). give_back gc A tempTree b1)"

primrec repeatE :: "nat \<Rightarrow> ('a \<Rightarrow> 'a outcome) \<Rightarrow> 'a \<Rightarrow> 'a outcome" where
  "repeatE 0 f x = Inr x"
| "repeatE (Suc n) f x = bindE (f x) (repeatE n f)"

definition TimeConstruction :: "bool \<Rightarrow> 'd bench_env \<Rightarrow> 's libc \<Rightarrow> int \<Rightarrow> 's bench \<Rightarrow> 's bench outcome" where
  "TimeConstruction gc E A depth b =
     (let iNumIters = NumIters depth;
          b1 = put (''Creating '' @ show_int iNumIters @ '' trees of depth '' @ show_int depth @ [newline_char]) b;
          (tStart, b2) = stats_rtclock E b1
      in bindE (repeatE (nat iNumIters) (top_down_step gc A depth) b2) (\<lambda>b3.
         let (tFinish, b4) = stats_rtclock E b3;
             b5 = put (CHR 0x09 # ''Top down construction took '' @ show_int (elapsed tStart tFinish) @ '' msec'' @ [newline_char]) b4;
             (tStart, b6) = stats_rtclock E b5
         in bindE (repeatE (nat iNumIters) (bottom_up_step gc A depth) b6) (\<lambda>b7.
            let (tFinish, b8) = stats_rtclock E b7
            in Inr (put (CHR 0x09 # ''Bottom up construction took '' @ show_int (elapsed tStart tFinish) @ '' msec'' @ [newline_char]) b8))))"

text \<open>\<open>for (d = kMinTreeDepth; d <= kMaxTreeDepth; d += 2)\<close>, from \<open>d\<close> on.\<close>

function time_depths :: "bool \<Rightarrow> 'd bench_env \<Rightarrow> 's libc \<Rightarrow> int \<Rightarrow> 's bench \<Rightarrow> 's bench outcome" where
  "time_depths gc E A d b =
     (if d \<le> kMaxTreeDepth then bindE (TimeConstruction gc E A d b) (time_depths gc E A (d + 2)) else Inr b)"
  by pat_completeness auto
termination by (relation "measure (\<lambda>(gc, E, A, d, b). nat (kMaxTreeDepth + 1 - d))") auto

declare time_depths.simps [simp del]

text \<open>\<open>for (i = 0; i < kArraySize/2; ++i) array[i] = 1.0/i\<close>.\<close>

definition fill_half :: "(int \<Rightarrow> 'd) \<Rightarrow> (int \<Rightarrow> 'd option) \<Rightarrow> (int \<Rightarrow> 'd option)" where
  "fill_half one_over array = fold (\<lambda>i a. a(int i := Some (one_over (int i)))) [0 ..< nat (kArraySize sdiv 2)] array"

definition announced_peak :: int where
  "announced_peak = sint (ucast (2 * sizeof_Node0 * of_int (TreeSize kLongLivedTreeDepth) + sizeof_double * of_int kArraySize) :: u32)"

definition gcbench_start :: "'s collector option \<Rightarrow> 's bench \<Rightarrow> 's bench outcome" where
  "gcbench_start gc b = (case gc of None \<Rightarrow> Inr b
     | Some g \<Rightarrow> bindE (collector_init g (heap_lib b)) (\<lambda>s. Inr (b\<lparr>heap_lib := s\<rparr>)))"

definition gcbench_end :: "'s collector option \<Rightarrow> 's bench \<Rightarrow> 's bench" where
  "gcbench_end gc b = (case gc of None \<Rightarrow> b
     | Some g \<Rightarrow> put (''Completed '' @ show_int (sint (ucast (collections g (heap_lib b)) :: u32)) @ '' collections'' @ [newline_char]) b)"

text \<open>\<open>gc\<close> is \<open>None\<close> without \<open>-DGC\<close>, and with it the collector.\<close>

definition gcbench_main :: "'s collector option \<Rightarrow> 'd bench_env \<Rightarrow> 's libc \<Rightarrow> 's bench \<Rightarrow> (int \<times> 's bench) outcome" where
  "gcbench_main gc E A b =
     bindE (gcbench_start gc b) (\<lambda>b.
      let b0 = put (''Garbage Collector Test'' @ [newline_char]) b;
          b1 = put ('' Live storage will peak at '' @ show_int announced_peak @ '' bytes.'' @ [newline_char, newline_char]) b0;
          b2 = put ('' Stretching memory with a binary tree of depth '' @ show_int kStretchTreeDepth @ [newline_char]) b1;
          (tStart, b3) = stats_rtclock E b2
      in bindE (MakeTree A kStretchTreeDepth b3) (\<lambda>(tempTree, b4).
         bindE (give_back (gc \<noteq> None) A tempTree b4) (\<lambda>b5.
         let b6 = put ('' Creating a long-lived binary tree of depth '' @ show_int kLongLivedTreeDepth @ [newline_char]) b5
         in bindE (calloc_node A b6) (\<lambda>(longLivedTree, b7).
         bindE (Populate A kLongLivedTreeDepth longLivedTree b7) (\<lambda>b8.
         let b9 = put ('' Creating a long-lived array of '' @ show_int kArraySize @ '' doubles'' @ [newline_char]) b8
         in bindE (lib_malloc A (heap_lib b9) (of_int kArraySize * sizeof_double)) (\<lambda>(array_addr, s).
         if array_addr = NULL then Inl Undefined
         else let array = fill_half (recip E) (\<lambda>_. None)
         in bindE (time_depths (gc \<noteq> None) E A kMinTreeDepth (b9\<lparr>heap_lib := s\<rparr>)) (\<lambda>b10.
         let b11 = (if longLivedTree = NULL \<or> array 1000 \<noteq> Some (recip E 1000)
                    then b10\<lparr>complaints := complaints b10 @ ''Failed'' @ [newline_char]\<rparr> else b10);
             (tFinish, b12) = stats_rtclock E b11
         in Inr (0, gcbench_end gc
              (put (''Completed in '' @ show_int (elapsed tStart tFinish) @ '' msec'' @ [newline_char]) b12)))))))))"

end
