(* ===== verification/Gcbench_Trees.thy ===== *)
theory Gcbench_Trees
  imports Gcbench
begin

text \<open>
  The trees of the benchmark as the trees of the library theory \<open>Tree\<close>, and the contract that the benchmark
  needs of its allocator: \<open>ok s H P\<close> says that in the state \<open>s\<close> the blocks of \<open>H\<close> are in use and that at most
  \<open>P\<close> bytes have been in use at once. Inside the locale the building and the giving back of trees is
  proved once; \<open>Gcbench_Correct\<close> interprets it.
\<close>

fun tree_at :: "(addr \<Rightarrow> node0) \<Rightarrow> addr \<Rightarrow> addr tree \<Rightarrow> bool" where
  "tree_at N a Leaf \<longleftrightarrow> a = NULL"
| "tree_at N a (Node l x r) \<longleftrightarrow> a = x \<and> x \<noteq> NULL \<and> tree_at N (left_at (N x)) l \<and> tree_at N (right_at (N x)) r"

definition full_tree :: "(addr \<Rightarrow> node0) \<Rightarrow> addr \<Rightarrow> nat \<Rightarrow> addr tree \<Rightarrow> bool" where
  "full_tree N a h t \<longleftrightarrow> tree_at N a t \<and> complete t \<and> height t = h \<and> distinct (inorder t)"

definition used :: "(addr \<rightharpoonup> nat) \<Rightarrow> nat" where
  "used H = (\<Sum>x\<in>dom H. the (H x))"

text \<open>The nodes \<open>X\<close> taken on top of \<open>H\<close>.\<close>

definition hold :: "(addr \<rightharpoonup> nat) \<Rightarrow> addr set \<Rightarrow> (addr \<rightharpoonup> nat)" where
  "hold H X = (\<lambda>x. if x \<in> X then Some 24 else H x)"

definition grown :: "'s bench \<Rightarrow> 's bench \<Rightarrow> addr set \<Rightarrow> bool" where
  "grown b b' X \<longleftrightarrow> (\<forall>x. x \<notin> X \<longrightarrow> node_at b' x = node_at b x) \<and>
     time_calls b' = time_calls b \<and> printed b' = printed b \<and> complaints b' = complaints b"

lemma tree_at_cong: "(\<And>x. x \<in> set_tree t \<Longrightarrow> N x = N' x) \<Longrightarrow> tree_at N a t = tree_at N' a t"
  by (induction t arbitrary: a) auto

lemma full_tree_cong: "(\<And>x. x \<in> set_tree t \<Longrightarrow> N x = N' x) \<Longrightarrow> full_tree N a h t = full_tree N' a h t"
  by (simp add: full_tree_def tree_at_cong [of t N N'])

lemma full_tree_size: "full_tree N a h t \<Longrightarrow> size t = 2 ^ h - 1"
  by (simp add: full_tree_def size_if_complete)

lemma full_tree_card: "full_tree N a h t \<Longrightarrow> card (set_tree t) = size t"
  unfolding full_tree_def by (metis distinct_card length_inorder set_inorder)

lemma full_tree_root: "full_tree N a (Suc h) t \<Longrightarrow> a \<in> set_tree t \<and> a \<noteq> NULL"
  by (cases t) (auto simp: full_tree_def)

lemma full_tree_node:
  assumes "full_tree N l h t1" "full_tree N r h t2" "set_tree t1 \<inter> set_tree t2 = {}" "x \<notin> set_tree t1 \<union> set_tree t2"
    and "x \<noteq> NULL" "left_at (N x) = l" "right_at (N x) = r"
  shows "full_tree N x (Suc h) (Node t1 x t2)"
  using assms by (auto simp: full_tree_def)

lemma used_empty [simp]: "used Map.empty = 0"
  by (simp add: used_def)

lemma used_put: "finite (dom H) \<Longrightarrow> H p = None \<Longrightarrow> used (H(p \<mapsto> n)) = used H + n"
proof -
  assume f: "finite (dom H)" and p: "H p = None"
  then have "(\<Sum>x\<in>dom H. the ((H(p \<mapsto> n)) x)) = (\<Sum>x\<in>dom H. the (H x))" by (intro sum.cong) auto
  with f p show ?thesis by (simp add: used_def domIff)
qed

lemma used_drop: "finite (dom H) \<Longrightarrow> H p = Some n \<Longrightarrow> used (H(p := None)) + n = used H"
  using used_put [of "H(p := None)" p n] by (simp add: fun_upd_idem)

lemma hold_none [simp]: "hold H {} = H"
  by (simp add: hold_def)

lemma hold_hold: "hold (hold H X) Y = hold H (X \<union> Y)"
  by (auto simp: hold_def)

lemma hold_insert: "(hold H X)(p \<mapsto> 24) = hold H (insert p X)"
  by (auto simp: hold_def)

lemma dom_hold [simp]: "dom (hold H X) = dom H \<union> X"
  by (auto simp: hold_def)

lemma used_hold:
  assumes "finite (dom H)" "finite X" "X \<inter> dom H = {}"
  shows "used (hold H X) = used H + 24 * card X"
  using assms(2,3)
proof (induction X)
  case (insert p X)
  have "used (hold H (insert p X)) = used ((hold H X)(p \<mapsto> 24))" by (simp add: hold_insert)
  also have "\<dots> = used (hold H X) + 24"
  proof (rule used_put)
    show "finite (dom (hold H X))" using insert(1) assms(1) by simp
    show "hold H X p = None" using insert(2,4) by (auto simp: hold_def)
  qed
  finally show ?case using insert by simp
qed simp

lemma used_tree:
  assumes "finite (dom H)" "full_tree N a h t" "set_tree t \<inter> dom H = {}"
  shows "used (hold H (set_tree t)) = used H + 24 * size t"
  using used_hold [OF assms(1) _ assms(3)] full_tree_card [OF assms(2)] by simp

lemma hold_same: "H a = Some 24 \<Longrightarrow> hold H (insert a X) = hold H X"
  by (auto simp: hold_def)

text \<open>A tree whose root was held before.\<close>

lemma used_below:
  assumes "finite (dom H)" "full_tree N a (Suc h) t" "H a = Some 24" "(set_tree t - {a}) \<inter> dom H = {}"
  shows "used (hold H (set_tree t)) = used H + 24 * (size t - 1)"
proof -
  have a: "a \<in> set_tree t" using full_tree_root [OF assms(2)] by simp
  then have "hold H (set_tree t) = hold H (set_tree t - {a})"
    using hold_same [of H a "set_tree t - {a}"] assms(3) by (simp add: insert_absorb)
  moreover have "card (set_tree t - {a}) = size t - 1"
    using a full_tree_card [OF assms(2)] by simp
  ultimately show ?thesis using used_hold [OF assms(1) _ assms(4)] by simp
qed

lemma restrict_all: "H |` UNIV = H"
  by (simp add: restrict_map_def)

lemma grown_refl [simp]: "grown b b X"
  by (simp add: grown_def)

lemma grown_trans: "grown b b' X \<Longrightarrow> grown b' b'' Y \<Longrightarrow> grown b b'' (X \<union> Y)"
  by (auto simp: grown_def)

lemma grown_node: "grown b b' X \<Longrightarrow> x \<notin> X \<Longrightarrow> node_at b' x = node_at b x"
  by (simp add: grown_def)

lemma grown_tree:
  assumes "grown b b' X" "set_tree t \<inter> X = {}"
  shows "full_tree (node_at b') a h t = full_tree (node_at b) a h t"
  using assms by (intro full_tree_cong) (auto simp: grown_def)

subsection \<open>The contract\<close>

locale counted_heap =
  fixes A :: "'s libc"
    and ok :: "'s \<Rightarrow> (addr \<rightharpoonup> nat) \<Rightarrow> nat \<Rightarrow> bool"
  assumes used_finite: "ok s H P \<Longrightarrow> finite (dom H)"
    and used_peak: "ok s H P \<Longrightarrow> used H \<le> P"
    and take: "ok s H P \<Longrightarrow> sz \<noteq> 0 \<Longrightarrow> \<exists>p s'. lib_malloc A s sz = Inr (p, s') \<and> p \<noteq> NULL \<and> H p = None \<and>
      ok s' (H(p \<mapsto> unat sz)) (max P (used H + unat sz))"
    and take_zeroed: "ok s H P \<Longrightarrow> sz \<noteq> 0 \<Longrightarrow> \<exists>p s'. lib_calloc A s 1 sz = Inr (p, s') \<and> p \<noteq> NULL \<and> H p = None \<and>
      ok s' (H(p \<mapsto> unat sz)) (max P (used H + unat sz))"
    and give_back: "ok s H P \<Longrightarrow> H p = Some n \<Longrightarrow> \<exists>s'. lib_free A s p = Inr s' \<and> ok s' (H(p := None)) P"
begin

lemma calloc_node_ok:
  assumes "ok (heap_lib b) H P"
  obtains p b' where "calloc_node A b = Inr (p, b')" "full_tree (node_at b') p 1 (Node Leaf p Leaf)" "p \<noteq> NULL" "H p = None"
    "ok (heap_lib b') (hold H {p}) (max P (used H + 24))" "grown b b' {p}"
proof -
  have n: "unat sizeof_Node0 = 24" "sizeof_Node0 \<noteq> 0" by (simp_all add: sizeof_Node0_def)
  obtain p s' where p: "lib_calloc A (heap_lib b) 1 sizeof_Node0 = Inr (p, s')" "p \<noteq> NULL" "H p = None"
    "ok s' (H(p \<mapsto> 24)) (max P (used H + 24))"
    using take_zeroed [OF assms n(2)] unfolding n by blast
  have "H(p \<mapsto> 24) = hold H {p}" using hold_insert [of H "{}" p] by simp
  with p show ?thesis by (intro that [of p]) (auto simp: calloc_node_def full_tree_def grown_def)
qed

text \<open>A tree built bottom-up: the two subtrees first, then the root.\<close>

lemma make_ok:
  assumes "ok (heap_lib b) H P"
  shows "\<exists>p b' t. MakeTree A d b = Inr (p, b') \<and> full_tree (node_at b') p (Suc (nat d)) t \<and> set_tree t \<inter> dom H = {} \<and>
    ok (heap_lib b') (hold H (set_tree t)) (max P (used H + 24 * size t)) \<and> grown b b' (set_tree t)"
  using assms
proof (induction "nat d" arbitrary: d b H P)
  case 0
  from calloc_node_ok [OF 0(2)] show ?case
  proof cases
    case (1 p b')
    then show ?thesis using 0(1)
      by (intro exI [of _ p] exI [of _ b'] exI [of _ "Node Leaf p Leaf"]) (auto simp: MakeTree.simps [of A d])
  qed
next
  case (Suc k)
  then have d: "0 < d" "k = nat (d - 1)" "nat d = Suc k" by auto
  from Suc(1) [OF d(2) Suc(3)] obtain l b1 t1 where
    l: "MakeTree A (d - 1) b = Inr (l, b1)" "full_tree (node_at b1) l (Suc k) t1" "set_tree t1 \<inter> dom H = {}"
      "ok (heap_lib b1) (hold H (set_tree t1)) (max P (used H + 24 * size t1))" "grown b b1 (set_tree t1)"
    unfolding d(2) [symmetric] by blast
  let ?H1 = "hold H (set_tree t1)"
  from Suc(1) [OF d(2) l(4)] obtain r b2 t2 where
    r: "MakeTree A (d - 1) b1 = Inr (r, b2)" "full_tree (node_at b2) r (Suc k) t2" "set_tree t2 \<inter> dom ?H1 = {}"
      "ok (heap_lib b2) (hold ?H1 (set_tree t2)) (max (max P (used H + 24 * size t1)) (used ?H1 + 24 * size t2))"
      "grown b1 b2 (set_tree t2)"
    unfolding d(2) [symmetric] by blast
  let ?H2 = "hold ?H1 (set_tree t2)"
  have f: "finite (dom H)" using used_finite [OF Suc(3)] .
  have T: "used ?H1 = used H + 24 * size t1" "used ?H2 = used ?H1 + 24 * size t2"
    using used_tree [OF f l(2,3)] used_tree [OF _ r(2,3)] f by simp_all
  have n: "unat sizeof_Node0 = 24" "sizeof_Node0 \<noteq> 0" by (simp_all add: sizeof_Node0_def)
  from take [OF r(4) n(2)] obtain x s where
    x: "lib_malloc A (heap_lib b2) sizeof_Node0 = Inr (x, s)" "x \<noteq> NULL" "?H2 x = None"
      "ok s (?H2(x \<mapsto> 24)) (max (max (max P (used H + 24 * size t1)) (used ?H1 + 24 * size t2)) (used ?H2 + 24))"
    unfolding n by blast
  let ?t = "Node t1 x t2"
  let ?b3 = "b2\<lparr>heap_lib := s, node_at := (node_at b2)(x := (node_at b2 x)\<lparr>left_at := l, right_at := r\<rparr>)\<rparr>"
  have e: "MakeTree A d b = Inr (x, ?b3)"
    using d(1) by (simp add: MakeTree.simps [of A d] l(1) r(1) x(1,2) init_Node_def)
  have xn: "x \<notin> set_tree t1 \<union> set_tree t2" "x \<notin> dom H" using x(3) by (auto simp: hold_def split: if_splits)
  have dis: "set_tree t1 \<inter> set_tree t2 = {}" using r(3) by auto
  have t1: "full_tree (node_at ?b3) l (Suc k) t1"
    using l(2) grown_tree [OF r(5) dis, of l "Suc k"] xn(1)
    by (subst full_tree_cong [of _ _ "node_at b2"]) auto
  have t2: "full_tree (node_at ?b3) r (Suc k) t2"
    using r(2) xn(1) by (subst full_tree_cong [of _ _ "node_at b2"]) auto
  have t: "full_tree (node_at ?b3) x (Suc (Suc k)) ?t"
    by (rule full_tree_node [OF t1 t2 dis xn(1) x(2)]) simp_all
  have m: "max (max (max P (used H + 24 * size t1)) (used ?H1 + 24 * size t2)) (used ?H2 + 24) = max P (used H + 24 * size ?t)"
    unfolding T by simp
  have h: "?H2(x \<mapsto> 24) = hold H (set_tree ?t)"
    by (simp add: hold_hold hold_insert)
  have "set_tree ?t \<inter> dom H = {}" using l(3) r(3) xn(2) by auto
  moreover have "grown b ?b3 (set_tree ?t)"
    using grown_trans [OF l(5) r(5)] by (auto simp: grown_def)
  ultimately show ?case using e t x(4) unfolding m h d(3) by (intro exI [of _ x] exI [of _ ?b3] exI [of _ ?t]) simp
qed

text \<open>The two nodes that one step of the top-down construction hangs below a node.\<close>

lemma children_ok:
  assumes "ok (heap_lib b) H P" "H a = Some 24" "a \<noteq> NULL"
  obtains l r b4 where
    "\<And>d. 0 < d \<Longrightarrow> Populate A d a b = bindE (Populate A (d - 1) l b4) (\<lambda>b6. Populate A (d - 1) (right_at (node_at b6 a)) b6)"
    "left_at (node_at b4 a) = l" "right_at (node_at b4 a) = r"
    "full_tree (node_at b4) l 1 (Node Leaf l Leaf)" "full_tree (node_at b4) r 1 (Node Leaf r Leaf)"
    "H l = None" "H r = None" "l \<noteq> r" "ok (heap_lib b4) (hold H {l, r}) (max P (used H + 48))" "grown b b4 {a, l, r}"
proof -
  have f: "finite (dom H)" using used_finite [OF assms(1)] .
  from calloc_node_ok [OF assms(1)] obtain l b1 where l: "calloc_node A b = Inr (l, b1)"
    "full_tree (node_at b1) l 1 (Node Leaf l Leaf)" "l \<noteq> NULL" "H l = None"
    "ok (heap_lib b1) (hold H {l}) (max P (used H + 24))" "grown b b1 {l}" by metis
  let ?b2 = "b1\<lparr>node_at := (node_at b1)(a := (node_at b1 a)\<lparr>left_at := l\<rparr>)\<rparr>"
  have "ok (heap_lib ?b2) (hold H {l}) (max P (used H + 24))" using l(5) by simp
  from calloc_node_ok [OF this] obtain r b3 where r: "calloc_node A ?b2 = Inr (r, b3)"
    "full_tree (node_at b3) r 1 (Node Leaf r Leaf)" "r \<noteq> NULL" "hold H {l} r = None"
    "ok (heap_lib b3) (hold (hold H {l}) {r}) (max (max P (used H + 24)) (used (hold H {l}) + 24))" "grown ?b2 b3 {r}"
    by metis
  have ne: "l \<noteq> a" "r \<noteq> l" "r \<noteq> a" "H r = None" using l(4) r(4) assms(2) by (auto simp: hold_def split: if_splits)
  let ?b4 = "b3\<lparr>node_at := (node_at b3)(a := (node_at b3 a)\<lparr>right_at := r\<rparr>)\<rparr>"
  have u1: "used (hold H {l}) = used H + 24" using used_hold [of H "{l}"] f l(4) by auto
  have H2: "hold (hold H {l}) {r} = hold H {l, r}" by (auto simp: hold_def)
  have n4: "left_at (node_at ?b4 a) = l" "right_at (node_at ?b4 a) = r"
    using grown_node [OF r(6), of a] ne by simp_all
  have t: "full_tree (node_at ?b4) l 1 (Node Leaf l Leaf)" "full_tree (node_at ?b4) r 1 (Node Leaf r Leaf)"
    using l(2) r(2) ne grown_node [OF r(6), of l] by (simp_all add: full_tree_def)
  show ?thesis
  proof (rule that [of l ?b4 r, OF _ n4 t l(4) ne(4)])
    show "Populate A d a b = bindE (Populate A (d - 1) l ?b4) (\<lambda>b6. Populate A (d - 1) (right_at (node_at b6 a)) b6)" if "0 < d" for d
      using that n4 l(3) r(3) assms(3) by (simp add: Populate.simps [of A d] l(1) r(1) Let_def)
    show "l \<noteq> r" using ne by simp
    show "ok (heap_lib ?b4) (hold H {l, r}) (max P (used H + 48))"
      using r(5) unfolding H2 u1 by (simp add: max.assoc add.commute)
    show "grown b ?b4 {a, l, r}" using r(6) l(6) by (auto simp: grown_def)
  qed
qed

text \<open>A tree built top-down below a node that is held already.\<close>

lemma populate_ok:
  assumes "ok (heap_lib b) H P" "H a = Some 24" "full_tree (node_at b) a 1 (Node Leaf a Leaf)"
  shows "\<exists>b' t. Populate A d a b = Inr b' \<and> full_tree (node_at b') a (Suc (nat d)) t \<and> (set_tree t - {a}) \<inter> dom H = {} \<and>
    ok (heap_lib b') (hold H (set_tree t)) (max P (used H + 24 * (size t - 1))) \<and> grown b b' (set_tree t)"
  using assms
proof (induction "nat d" arbitrary: d a b H P)
  case 0
  have "hold H {a} = H" using hold_same [of H a "{}"] 0(3) by simp
  then show ?case using 0 used_peak [OF 0(2)]
    by (intro exI [of _ b] exI [of _ "Node Leaf a Leaf"]) (auto simp: Populate.simps [of A d] max_absorb1)
next
  case (Suc k)
  then have d: "0 < d" "k = nat (d - 1)" "nat d = Suc k" by auto
  have f: "finite (dom H)" using used_finite [OF Suc(3)] .
  have a: "a \<noteq> NULL" using full_tree_root [of "node_at b" a 0] Suc(5) by simp
  obtain l r b4 where c:
    "\<And>d. 0 < d \<Longrightarrow> Populate A d a b = bindE (Populate A (d - 1) l b4) (\<lambda>b6. Populate A (d - 1) (right_at (node_at b6 a)) b6)"
    "left_at (node_at b4 a) = l" "right_at (node_at b4 a) = r"
    "full_tree (node_at b4) l 1 (Node Leaf l Leaf)" "full_tree (node_at b4) r 1 (Node Leaf r Leaf)"
    "H l = None" "H r = None" "l \<noteq> r" "ok (heap_lib b4) (hold H {l, r}) (max P (used H + 48))" "grown b b4 {a, l, r}"
    by (rule children_ok [OF Suc(3,4) a], rule that)
  let ?H2 = "hold H {l, r}" and ?P2 = "max P (used H + 48)"
  have u2: "used ?H2 = used H + 48" using used_hold [of H "{l, r}"] f c(6-8) by auto
  have h2: "?H2 l = Some 24" "?H2 r = Some 24" by (simp_all add: hold_def)
  from Suc(1) [OF d(2) c(9) h2(1) c(4)] obtain b5 t1 where
    p1: "Populate A (d - 1) l b4 = Inr b5" "full_tree (node_at b5) l (Suc k) t1" "(set_tree t1 - {l}) \<inter> dom ?H2 = {}"
      "ok (heap_lib b5) (hold ?H2 (set_tree t1)) (max ?P2 (used ?H2 + 24 * (size t1 - 1)))" "grown b4 b5 (set_tree t1)"
    unfolding d(2) [symmetric] by blast
  let ?H3 = "hold ?H2 (set_tree t1)"
  have out1: "r \<notin> set_tree t1" "a \<notin> set_tree t1" using p1(3) c(6,8) Suc(4) by auto
  have tr: "full_tree (node_at b5) r 1 (Node Leaf r Leaf)"
    using c(5) grown_node [OF p1(5) out1(1)] by (simp add: full_tree_def)
  have h3: "?H3 r = Some 24" using h2(2) by (simp add: hold_def)
  from Suc(1) [OF d(2) p1(4) h3 tr] obtain b6 t2 where
    p2: "Populate A (d - 1) r b5 = Inr b6" "full_tree (node_at b6) r (Suc k) t2" "(set_tree t2 - {r}) \<inter> dom ?H3 = {}"
      "ok (heap_lib b6) (hold ?H3 (set_tree t2)) (max (max ?P2 (used ?H2 + 24 * (size t1 - 1))) (used ?H3 + 24 * (size t2 - 1)))"
      "grown b5 b6 (set_tree t2)"
    unfolding d(2) [symmetric] by blast
  have out2: "a \<notin> set_tree t2" "set_tree t1 \<inter> set_tree t2 = {}"
    using p2(3) c(6-8) Suc(4) out1 by (auto simp: dom_def hold_def split: if_splits)
  have n5: "node_at b5 a = node_at b4 a" "node_at b6 a = node_at b4 a"
    using grown_node [OF p1(5) out1(2)] grown_node [OF p2(5) out2(1)] by simp_all
  have e: "Populate A d a b = Inr b6" using c(1) [OF d(1)] p1(1) p2(1) n5 c(3) by simp
  let ?t = "Node t1 a t2"
  have t1: "full_tree (node_at b6) l (Suc k) t1" using p1(2) grown_tree [OF p2(5) out2(2)] by simp
  have t: "full_tree (node_at b6) a (Suc (Suc k)) ?t"
    using c(2,3) n5 a out1(2) out2 by (intro full_tree_node [OF t1 p2(2)]) auto
  have lr: "l \<in> set_tree t1" "r \<in> set_tree t2" using full_tree_root [OF p1(2)] full_tree_root [OF p2(2)] by simp_all
  then have pos: "0 < size t1" "0 < size t2" by (cases t1; simp; fail) (use lr in \<open>cases t2; simp\<close>)
  have u3: "used ?H3 = used ?H2 + 24 * (size t1 - 1)" using used_below [OF _ p1(2) h2(1) p1(3)] f by simp
  have m: "max (max ?P2 (used ?H2 + 24 * (size t1 - 1))) (used ?H3 + 24 * (size t2 - 1)) = max P (used H + 24 * (size ?t - 1))"
    using pos unfolding u3 u2 by simp
  have h: "hold ?H3 (set_tree t2) = hold H (set_tree ?t)"
    using lr Suc(4) by (auto simp: hold_def)
  have "(set_tree ?t - {a}) \<inter> dom H = {}" using p1(3) p2(3) c(6,7) by auto
  moreover have "grown b b6 (set_tree ?t)"
    using grown_trans [OF p1(5) p2(5)] c(10) lr by (auto simp: grown_def)
  ultimately show ?case using e t p2(4) unfolding m h d(3) by (intro exI [of _ b6] exI [of _ ?t]) simp
qed

text \<open>Giving a tree back: every node once.\<close>

lemma destroy_tree_ok:
  assumes "ok (heap_lib b) H P" "tree_at (node_at b) a t" "a \<noteq> NULL" "distinct (inorder t)" "\<And>x. x \<in> set_tree t \<Longrightarrow> H x = Some 24"
  shows "\<exists>s'. destroy_Node A a b = Some (Inr (b\<lparr>heap_lib := s'\<rparr>)) \<and> ok s' (H |` (- set_tree t)) P"
  using assms
proof (induction t arbitrary: a b H)
  case Leaf
  then show ?case by simp
next
  case (Node t1 x t2)
  have x: "a = x" "x \<noteq> NULL" "tree_at (node_at b) (left_at (node_at b x)) t1" "tree_at (node_at b) (right_at (node_at b x)) t2"
    using Node.prems(2) by simp_all
  have dis: "x \<notin> set_tree t1" "x \<notin> set_tree t2" "set_tree t1 \<inter> set_tree t2 = {}" "distinct (inorder t1)" "distinct (inorder t2)"
    using Node.prems(4) by auto
  have leaf: "t = Leaf" if "tree_at (node_at b) NULL t" for t using that by (cases t) auto
  obtain s1 where s1: "(if left_at (node_at b x) \<noteq> NULL then destroy_Node A (left_at (node_at b x)) b else Some (Inr b)) =
      Some (Inr (b\<lparr>heap_lib := s1\<rparr>))" "ok s1 (H |` (- set_tree t1)) P"
  proof (cases "left_at (node_at b x) = NULL")
    case True
    then show ?thesis using leaf [of t1] x(3) Node.prems(1) that [of "heap_lib b"] by (simp add: restrict_all)
  next
    case False
    from Node.IH(1) [OF Node.prems(1) x(3) False dis(4)] Node.prems(5) show ?thesis using that False by auto
  qed
  let ?b1 = "b\<lparr>heap_lib := s1\<rparr>" and ?H1 = "H |` (- set_tree t1)"
  obtain s2 where s2: "(if right_at (node_at ?b1 x) \<noteq> NULL then destroy_Node A (right_at (node_at ?b1 x)) ?b1 else Some (Inr ?b1)) =
      Some (Inr (b\<lparr>heap_lib := s2\<rparr>))" "ok s2 (?H1 |` (- set_tree t2)) P"
  proof (cases "right_at (node_at b x) = NULL")
    case True
    then show ?thesis using leaf [of t2] x(4) s1(2) that [of s1] by (simp add: restrict_all)
  next
    case False
    have "?H1 y = Some 24" if "y \<in> set_tree t2" for y using that Node.prems(5) dis(3) by (auto simp: restrict_map_def)
    then show ?thesis using Node.IH(2) [of ?b1 ?H1, OF _ _ False dis(5)] x(4) s1(2) that False by auto
  qed
  have "(?H1 |` (- set_tree t2)) x = Some 24" using Node.prems(5) dis by (simp add: restrict_map_def)
  from give_back [OF s2(2) this] obtain s3 where s3: "lib_free A s2 x = Inr s3" "ok s3 ((?H1 |` (- set_tree t2))(x := None)) P"
    by blast
  have q: "(?H1 |` (- set_tree t2))(x := None) = H |` (- set_tree (Node t1 x t2))" by (auto simp: restrict_map_def)
  have "destroy_Node A x b = Some (Inr (b\<lparr>heap_lib := s3\<rparr>))"
    by (subst destroy_Node.simps, simp only: x(2) if_False s1(1) s2(1) Option.bind.simps sum.case) (simp add: s3(1))
  then show ?case using s3(2) unfolding q x(1) by blast
qed

lemma destroy_ok:
  assumes "ok (heap_lib b) (hold H (set_tree t)) P" "full_tree (node_at b) a (Suc h) t" "set_tree t \<inter> dom H = {}"
  obtains s' where "destroy A a b = Inr (b\<lparr>heap_lib := s'\<rparr>)" "ok s' H P"
proof -
  have "a \<noteq> NULL" using full_tree_root [OF assms(2)] by simp
  from destroy_tree_ok [OF assms(1) _ this, of t] assms(2) obtain s' where
    "destroy_Node A a b = Some (Inr (b\<lparr>heap_lib := s'\<rparr>))" "ok s' (hold H (set_tree t) |` (- set_tree t)) P"
    by (auto simp: full_tree_def hold_def)
  moreover have "hold H (set_tree t) |` (- set_tree t) = H"
    using assms(3) by (auto simp: hold_def restrict_map_def fun_eq_iff disjoint_iff domIff)
  ultimately show ?thesis by (intro that [of s']) (simp_all add: destroy_def)
qed

end

end
