(* ===== verification/Libc.thy ===== *)
theory Libc
  imports Gc
begin

text \<open>
  What a C library promises. It is \<open>conforming\<close> when its allocation functions do what the C standard says
  and memory does not run out; the directory lister and the benchmark rely on it.
\<close>

text \<open>\<open>ok s H\<close>: in the state \<open>s\<close> of the library the blocks of \<open>H\<close> are handed out.\<close>

definition gives :: "('s \<Rightarrow> addr set \<Rightarrow> bool) \<Rightarrow> addr set \<Rightarrow> (addr \<times> 's) outcome \<Rightarrow> bool" where
  "gives ok H r \<longleftrightarrow> (case r of Inl e \<Rightarrow> False | Inr (b, s') \<Rightarrow> b \<noteq> NULL \<and> b \<notin> H \<and> ok s' (insert b H))"

definition takes :: "('s \<Rightarrow> addr set \<Rightarrow> bool) \<Rightarrow> addr set \<Rightarrow> 's outcome \<Rightarrow> bool" where
  "takes ok H r \<longleftrightarrow> (case r of Inl e \<Rightarrow> False | Inr s' \<Rightarrow> ok s' H)"

definition conforming :: "'s libc \<Rightarrow> ('s \<Rightarrow> addr set \<Rightarrow> bool) \<Rightarrow> bool" where
  "conforming A ok \<longleftrightarrow> (\<forall>s H. ok s H \<longrightarrow> NULL \<notin> H \<and>
     (\<forall>sz. sz \<noteq> 0 \<longrightarrow> gives ok H (lib_malloc A s sz)) \<and>
     (\<forall>n sz. n \<noteq> 0 \<longrightarrow> sz \<noteq> 0 \<longrightarrow> unat n * unat sz < 2 ^ 64 \<longrightarrow> gives ok H (lib_calloc A s n sz)) \<and>
     (\<forall>p sz. p = NULL \<or> p \<in> H \<longrightarrow> sz \<noteq> 0 \<longrightarrow> gives ok (H - {p}) (lib_realloc A s p sz)) \<and>
     (\<forall>p. p = NULL \<or> p \<in> H \<longrightarrow> takes ok (H - {p}) (lib_free A s p)))"

lemma givesE:
  assumes "gives ok H r"
  obtains b s' where "r = Inr (b, s')" "b \<noteq> NULL" "b \<notin> H" "ok s' (insert b H)"
  using assms by (auto simp: gives_def split: sum.splits)

lemma takesE:
  assumes "takes ok H r"
  obtains s' where "r = Inr s'" "ok s' H"
  using assms by (auto simp: takes_def split: sum.splits)

lemma conformingD:
  assumes "conforming A ok" "ok s H"
  shows conforming_null: "NULL \<notin> H"
    and conforming_malloc: "sz \<noteq> 0 \<Longrightarrow> gives ok H (lib_malloc A s sz)"
    and conforming_calloc: "n \<noteq> 0 \<Longrightarrow> sz \<noteq> 0 \<Longrightarrow> unat n * unat sz < 2 ^ 64 \<Longrightarrow> gives ok H (lib_calloc A s n sz)"
    and conforming_realloc: "p = NULL \<or> p \<in> H \<Longrightarrow> sz \<noteq> 0 \<Longrightarrow> gives ok (H - {p}) (lib_realloc A s p sz)"
    and conforming_free: "p = NULL \<or> p \<in> H \<Longrightarrow> takes ok (H - {p}) (lib_free A s p)"
  using assms unfolding conforming_def by blast+

text \<open>A library that hands out ever higher addresses and conforms.\<close>

definition bump_lib :: "nat libc" where
  "bump_lib = \<lparr>lib_malloc = (\<lambda>s sz. Inr (s, s + unat sz)), lib_calloc = (\<lambda>s n sz. Inr (s, s + unat (n * sz))),
     lib_realloc = (\<lambda>s p sz. Inr (s, s + unat sz)), lib_free = (\<lambda>s p. Inr s), lib_bytes = (\<lambda>s x. 0)\<rparr>"

definition bump_ok :: "nat \<Rightarrow> addr set \<Rightarrow> bool" where
  "bump_ok s H \<longleftrightarrow> 0 < s \<and> (\<forall>b\<in>H. 0 < b \<and> b < s)"

lemma bump_conforming: "conforming bump_lib bump_ok"
proof -
  have m: "unat n * unat sz < 2 ^ 64 \<Longrightarrow> unat (n * sz) = unat n * unat sz" for n sz :: size_t
    by (simp add: unat_word_ariths)
  have p: "0 < unat n \<longleftrightarrow> n \<noteq> 0" for n :: size_t by (simp add: unat_gt_0)
  show ?thesis
    unfolding conforming_def gives_def takes_def bump_ok_def bump_lib_def
    by (auto simp: m p [symmetric] less_Suc_eq trans_less_add1)
qed

end
