(* ===== verification/Gcbench_Correct.thy ===== *)
theory Gcbench_Correct
  imports Gcbench_Trees Libc
begin

text \<open>
  The whole benchmark: it runs to its end on every conforming library, it prints what \<open>gcbench_report\<close> says,
  and the amount of storage it announces is the largest it has in use at once. The contract \<open>counted_heap\<close> is
  interpreted twice, on the library itself and on the library with a meter that counts the bytes.
\<close>

subsection \<open>The report\<close>

definition clock_value :: "'d bench_env \<Rightarrow> nat \<Rightarrow> u32" where
  "clock_value E k = (case timeofday E k of None \<Rightarrow> 0 | Some (s, u) \<Rightarrow> of_int (s * 1000 + u sdiv 1000))"

definition took :: "'d bench_env \<Rightarrow> nat \<Rightarrow> nat \<Rightarrow> string" where
  "took E i j = show_int (elapsed (clock_value E i) (clock_value E j)) @ '' msec'' @ [newline_char]"

definition depth_report :: "'d bench_env \<Rightarrow> nat \<Rightarrow> int \<Rightarrow> string" where
  "depth_report E k d = ''Creating '' @ show_int (NumIters d) @ '' trees of depth '' @ show_int d @ [newline_char] @
     CHR 0x09 # ''Top down construction took '' @ took E k (k + 1) @
     CHR 0x09 # ''Bottom up construction took '' @ took E (k + 2) (k + 3)"

fun depth_reports :: "'d bench_env \<Rightarrow> nat \<Rightarrow> int list \<Rightarrow> string" where
  "depth_reports E k [] = []"
| "depth_reports E k (d # ds) = depth_report E k d @ depth_reports E (k + 4) ds"

definition bench_depths :: "int list" where
  "bench_depths = [4, 6, 8, 10, 12, 14]"

definition gcbench_report :: "'d bench_env \<Rightarrow> string" where
  "gcbench_report E =
     ''Garbage Collector Test'' @ [newline_char] @
     '' Live storage will peak at 5572816 bytes.'' @ [newline_char, newline_char] @
     '' Stretching memory with a binary tree of depth 16'' @ [newline_char] @
     '' Creating a long-lived binary tree of depth 14'' @ [newline_char] @
     '' Creating a long-lived array of 500000 doubles'' @ [newline_char] @
     depth_reports E 1 bench_depths @
     ''Completed in '' @ took E 0 25"

lemma stats_rtclock_eq: "stats_rtclock E b = (clock_value E (time_calls b), b\<lparr>time_calls := time_calls b + 1\<rparr>)"
  by (simp add: stats_rtclock_def clock_value_def split: option.splits)

lemma TreeSize_eq: "0 \<le> d \<Longrightarrow> TreeSize d = 2 ^ Suc (nat d) - 1"
  by (simp add: TreeSize_def push_bit_eq_mult nat_add_distrib)

lemma TreeSize_values: "TreeSize 4 = 31" "TreeSize 6 = 127" "TreeSize 8 = 511" "TreeSize 10 = 2047" "TreeSize 12 = 8191"
  "TreeSize 14 = 32767" "TreeSize 16 = 131071"
  by (simp_all add: TreeSize_def push_bit_eq_mult)

lemma NumIters_values: "NumIters 4 = 8456" "NumIters 6 = 2064" "NumIters 8 = 512" "NumIters 10 = 128" "NumIters 12 = 32"
  "NumIters 14 = 8"
  by (simp_all add: NumIters_def kStretchTreeDepth_def TreeSize_values signed_divide_int_def)

lemma time_depths_unfold:
  "time_depths gc E A d = (if d \<le> kMaxTreeDepth then \<lambda>b. bindE (TimeConstruction gc E A d b) (time_depths gc E A (d + 2)) else Inr)"
  by (rule ext) (simp add: time_depths.simps)

lemma time_depths_fold: "time_depths gc E A kMinTreeDepth b = foldE (TimeConstruction gc E A) bench_depths b"
proof -
  have e: "foldE f [] = Inr" "foldE f (x # xs) = (\<lambda>s. bindE (f x s) (foldE f xs))" for f :: "int \<Rightarrow> 's bench \<Rightarrow> 's bench outcome" and x xs
    by (simp_all add: fun_eq_iff)
  show ?thesis
    by (simp add: time_depths_unfold kMinTreeDepth_def kMaxTreeDepth_def bench_depths_def e del: foldE.simps)
qed

lemma announced_peak_value: "announced_peak = 5572816"
  by (simp add: announced_peak_def kLongLivedTreeDepth_def kArraySize_def TreeSize_values layout)

lemma fill_fold: "i < n \<Longrightarrow> fold (\<lambda>i a. a(int i := Some (f (int i)))) [0..<n] a (int i) = Some (f (int i))"
  by (induction n) (auto simp: less_Suc_eq)

lemma fill_half_value: "fill_half f a 1000 = Some (f 1000)"
  using fill_fold [of 1000 250000 f a] by (simp add: fill_half_def kArraySize_def signed_divide_int_def)

subsection \<open>The loops\<close>

text \<open>What a part of the program that gives all its nodes back leaves as it was.\<close>

definition kept :: "(addr \<rightharpoonup> nat) \<Rightarrow> 's bench \<Rightarrow> 's bench \<Rightarrow> bool" where
  "kept H b b' \<longleftrightarrow> (\<forall>x\<in>dom H. node_at b' x = node_at b x) \<and> complaints b' = complaints b"

lemma kept_trans: "kept H b b' \<Longrightarrow> kept H b' b'' \<Longrightarrow> kept H b b''"
  by (simp add: kept_def)

context counted_heap
begin

lemma top_down_ok:
  assumes "ok (heap_lib b) H P"
  shows "\<exists>b'. top_down_step False A d b = Inr b' \<and> ok (heap_lib b') H (max P (used H + 24 * (2 ^ Suc (nat d) - 1))) \<and>
    kept H b b' \<and> time_calls b' = time_calls b \<and> printed b' = printed b"
proof -
  have f: "finite (dom H)" using used_finite [OF assms] .
  from calloc_node_ok [OF assms] obtain p b1 where p: "calloc_node A b = Inr (p, b1)"
    "full_tree (node_at b1) p 1 (Node Leaf p Leaf)" "H p = None"
    "ok (heap_lib b1) (hold H {p}) (max P (used H + 24))" "grown b b1 {p}" by metis
  have "hold H {p} p = Some 24" by (simp add: hold_def)
  from populate_ok [OF p(4) this p(2), of d] obtain b2 t where
    t: "Populate A d p b1 = Inr b2" "full_tree (node_at b2) p (Suc (nat d)) t" "(set_tree t - {p}) \<inter> dom (hold H {p}) = {}"
      "ok (heap_lib b2) (hold (hold H {p}) (set_tree t)) (max (max P (used H + 24)) (used (hold H {p}) + 24 * (size t - 1)))"
      "grown b1 b2 (set_tree t)" by blast
  have r: "p \<in> set_tree t" using full_tree_root [OF t(2)] by simp
  have h: "hold (hold H {p}) (set_tree t) = hold H (set_tree t)" using r by (auto simp: hold_def)
  have u: "used (hold H {p}) = used H + 24" using used_hold [of H "{p}"] f p(3) by auto
  have sz: "size t = 2 ^ Suc (nat d) - 1" using full_tree_size [OF t(2)] .
  have m: "max (max P (used H + 24)) (used (hold H {p}) + 24 * (size t - 1)) = max P (used H + 24 * (2 ^ Suc (nat d) - 1))"
    using r unfolding u sz [symmetric] by (cases t) auto
  have dis: "set_tree t \<inter> dom H = {}" using t(3) p(3) by auto
  from destroy_ok [OF t(4) [unfolded h m] t(2) dis] obtain s' where
    s: "destroy A p b2 = Inr (b2\<lparr>heap_lib := s'\<rparr>)" "ok s' H (max P (used H + 24 * (2 ^ Suc (nat d) - 1)))" by blast
  have "node_at b2 x = node_at b x" if "x \<in> dom H" for x
  proof -
    have "x \<notin> {p} \<union> set_tree t" using that dis p(3) by auto
    then show ?thesis using grown_node [OF grown_trans [OF p(5) t(5)]] by blast
  qed
  then have "kept H b (b2\<lparr>heap_lib := s'\<rparr>)" "time_calls b2 = time_calls b" "printed b2 = printed b"
    using p(5) t(5) by (simp_all add: kept_def grown_def)
  with s show ?thesis by (simp add: top_down_step_def give_back_def p(1) t(1))
qed

lemma bottom_up_ok:
  assumes "ok (heap_lib b) H P"
  shows "\<exists>b'. bottom_up_step False A d b = Inr b' \<and> ok (heap_lib b') H (max P (used H + 24 * (2 ^ Suc (nat d) - 1))) \<and>
    kept H b b' \<and> time_calls b' = time_calls b \<and> printed b' = printed b"
proof -
  from make_ok [OF assms, of d] obtain p b1 t where
    t: "MakeTree A d b = Inr (p, b1)" "full_tree (node_at b1) p (Suc (nat d)) t" "set_tree t \<inter> dom H = {}"
      "ok (heap_lib b1) (hold H (set_tree t)) (max P (used H + 24 * size t))" "grown b b1 (set_tree t)" by blast
  from destroy_ok [OF t(4,2,3)] obtain s' where
    s: "destroy A p b1 = Inr (b1\<lparr>heap_lib := s'\<rparr>)" "ok s' H (max P (used H + 24 * size t))" by blast
  have "node_at b1 x = node_at b x" if "x \<in> dom H" for x using grown_node [OF t(5), of x] that t(3) by auto
  then have "kept H b (b1\<lparr>heap_lib := s'\<rparr>)" "time_calls b1 = time_calls b" "printed b1 = printed b"
    using t(5) by (simp_all add: kept_def grown_def)
  with s show ?thesis unfolding full_tree_size [OF t(2)] by (simp add: bottom_up_step_def give_back_def t(1))
qed

text \<open>Repeating a step that keeps what is in use and reaches the same height each time.\<close>

lemma repeat_ok:
  assumes "\<And>b P. ok (heap_lib b) H P \<Longrightarrow> \<exists>b'. f b = Inr b' \<and> ok (heap_lib b') H (max P M) \<and> kept H b b' \<and>
    time_calls b' = time_calls b \<and> printed b' = printed b"
  shows "ok (heap_lib b) H P \<Longrightarrow> \<exists>b'. repeatE (Suc n) f b = Inr b' \<and> ok (heap_lib b') H (max P M) \<and> kept H b b' \<and>
    time_calls b' = time_calls b \<and> printed b' = printed b"
proof (induction n arbitrary: b P)
  case 0
  then show ?case using assms [OF 0] by auto
next
  case (Suc n)
  from assms [OF Suc.prems] obtain b1 where b1: "f b = Inr b1" "ok (heap_lib b1) H (max P M)" "kept H b b1"
    "time_calls b1 = time_calls b" "printed b1 = printed b" by blast
  from Suc.IH [OF b1(2)] obtain b2 where b2: "repeatE (Suc n) f b1 = Inr b2" "ok (heap_lib b2) H (max P M)" "kept H b1 b2"
    "time_calls b2 = time_calls b1" "printed b2 = printed b1" by (auto simp del: repeatE.simps)
  have "repeatE (Suc (Suc n)) f b = Inr b2" using b1(1) b2(1) by simp
  then show ?case using b2(2,4,5) b1(4,5) kept_trans [OF b1(3) b2(3)] by simp
qed

lemma construction_ok:
  assumes "ok (heap_lib b) H P" "0 < NumIters d"
  shows "\<exists>b'. TimeConstruction False E A d b = Inr b' \<and> ok (heap_lib b') H (max P (used H + 24 * (2 ^ Suc (nat d) - 1))) \<and>
    kept H b b' \<and> time_calls b' = time_calls b + 4 \<and> printed b' = printed b @ depth_report E (time_calls b) d"
proof -
  obtain n where n: "nat (NumIters d) = Suc n" using assms(2) by (cases "nat (NumIters d)") auto
  let ?M = "used H + 24 * (2 ^ Suc (nat d) - 1)"
  let ?b2 = "(put (''Creating '' @ show_int (NumIters d) @ '' trees of depth '' @ show_int d @ [newline_char]) b)\<lparr>time_calls := time_calls b + 1\<rparr>"
  have "ok (heap_lib ?b2) H P" using assms(1) by (simp add: put_def)
  from repeat_ok [of H "top_down_step False A d" ?M, OF top_down_ok this] obtain b3 where
    b3: "repeatE (Suc n) (top_down_step False A d) ?b2 = Inr b3" "ok (heap_lib b3) H (max P ?M)" "kept H ?b2 b3"
      "time_calls b3 = time_calls ?b2" "printed b3 = printed ?b2" by (auto simp del: repeatE.simps)
  let ?b6 = "(put (CHR 0x09 # ''Top down construction took '' @ took E (time_calls b) (time_calls b + 1))
      (b3\<lparr>time_calls := time_calls b3 + 1\<rparr>))\<lparr>time_calls := time_calls b3 + 2\<rparr>"
  have "ok (heap_lib ?b6) H (max P ?M)" using b3(2) by (simp add: put_def)
  from repeat_ok [of H "bottom_up_step False A d" ?M, OF bottom_up_ok this] obtain b7 where
    b7: "repeatE (Suc n) (bottom_up_step False A d) ?b6 = Inr b7" "ok (heap_lib b7) H (max (max P ?M) ?M)" "kept H ?b6 b7"
      "time_calls b7 = time_calls ?b6" "printed b7 = printed ?b6" by (auto simp del: repeatE.simps)
  have t: "time_calls b3 = time_calls b + 1" "time_calls b7 = time_calls b + 3" using b3(4) b7(4) by (simp_all add: put_def)
  let ?b8 = "put (CHR 0x09 # ''Bottom up construction took '' @ took E (time_calls b + 2) (time_calls b + 3))
      (b7\<lparr>time_calls := time_calls b7 + 1\<rparr>)"
  have e: "TimeConstruction False E A d b = Inr ?b8"
    using b3(1) b7(1) t unfolding TimeConstruction_def Let_def stats_rtclock_eq n
    by (simp add: put_def took_def add.commute del: repeatE.simps)
  have "kept H b ?b8" using b3(3) b7(3) by (simp add: kept_def put_def)
  moreover have "printed ?b8 = printed b @ depth_report E (time_calls b) d"
    using b3(5) b7(5) by (simp add: put_def depth_report_def)
  ultimately show ?thesis using e b7(2) t by (simp add: put_def)
qed

lemma depths_ok:
  assumes "ok (heap_lib b) H P" "\<forall>d\<in>set ds. 0 < NumIters d"
  shows "\<exists>b'. foldE (TimeConstruction False E A) ds b = Inr b' \<and>
    ok (heap_lib b') H (fold (\<lambda>d P. max P (used H + 24 * (2 ^ Suc (nat d) - 1))) ds P) \<and> kept H b b' \<and>
    time_calls b' = time_calls b + 4 * length ds \<and> printed b' = printed b @ depth_reports E (time_calls b) ds"
  using assms
proof (induction ds arbitrary: b P)
  case Nil
  then show ?case by (simp add: kept_def)
next
  case (Cons d ds)
  from construction_ok [OF Cons.prems(1), of d E] Cons.prems(2) obtain b1 where
    b1: "TimeConstruction False E A d b = Inr b1" "ok (heap_lib b1) H (max P (used H + 24 * (2 ^ Suc (nat d) - 1)))" "kept H b b1"
      "time_calls b1 = time_calls b + 4" "printed b1 = printed b @ depth_report E (time_calls b) d" by auto
  from Cons.IH [OF b1(2)] Cons.prems(2) obtain b2 where
    b2: "foldE (TimeConstruction False E A) ds b1 = Inr b2"
      "ok (heap_lib b2) H (fold (\<lambda>d P. max P (used H + 24 * (2 ^ Suc (nat d) - 1))) ds (max P (used H + 24 * (2 ^ Suc (nat d) - 1))))"
      "kept H b1 b2" "time_calls b2 = time_calls b1 + 4 * length ds" "printed b2 = printed b1 @ depth_reports E (time_calls b1) ds"
    by auto
  show ?case using b1 b2 kept_trans [OF b1(3) b2(3)] by simp
qed

text \<open>The two trees of \<open>main\<close>: the one that is built and given back, and the one that stays.\<close>

lemma stretch_ok:
  assumes "ok (heap_lib b) Map.empty 0"
  shows "\<exists>p b1 b2. MakeTree A kStretchTreeDepth b = Inr (p, b1) \<and> destroy A p b1 = Inr b2 \<and>
    ok (heap_lib b2) Map.empty (24 * 131071) \<and> kept Map.empty b b2 \<and> time_calls b2 = time_calls b \<and> printed b2 = printed b"
proof -
  from bottom_up_ok [OF assms, of kStretchTreeDepth] obtain b2 where b2:
    "bottom_up_step False A kStretchTreeDepth b = Inr b2" "ok (heap_lib b2) Map.empty (24 * 131071)" "kept Map.empty b b2"
    "time_calls b2 = time_calls b" "printed b2 = printed b" by (auto simp: kStretchTreeDepth_def)
  then show ?thesis by (auto simp: bottom_up_step_def give_back_def bindE_Inr_iff)
qed

lemma long_lived_ok:
  assumes "ok (heap_lib b) Map.empty (24 * 131071)"
  shows "\<exists>p b1 b2 t. calloc_node A b = Inr (p, b1) \<and> Populate A kLongLivedTreeDepth p b1 = Inr b2 \<and>
    full_tree (node_at b2) p 15 t \<and> ok (heap_lib b2) (hold Map.empty (set_tree t)) (24 * 131071) \<and>
    time_calls b2 = time_calls b \<and> printed b2 = printed b \<and> complaints b2 = complaints b"
proof -
  from calloc_node_ok [OF assms] obtain p b1 where p: "calloc_node A b = Inr (p, b1)"
    "full_tree (node_at b1) p 1 (Node Leaf p Leaf)"
    "ok (heap_lib b1) (hold Map.empty {p}) (max (24 * 131071) (used Map.empty + 24))" "grown b b1 {p}" by metis
  have u: "used (hold Map.empty {p}) = 24" using used_hold [of Map.empty "{p}"] by simp
  have "hold Map.empty {p} p = Some 24" by (simp add: hold_def)
  from populate_ok [OF p(3) this p(2), of kLongLivedTreeDepth] obtain b2 t where
    t: "Populate A kLongLivedTreeDepth p b1 = Inr b2" "full_tree (node_at b2) p 15 t"
      "ok (heap_lib b2) (hold (hold Map.empty {p}) (set_tree t)) (max (max (24 * 131071) (used Map.empty + 24)) (24 + 24 * (size t - 1)))"
      "grown b1 b2 (set_tree t)" by (auto simp: kLongLivedTreeDepth_def u)
  have r: "p \<in> set_tree t" using full_tree_root [of "node_at b2" p 14 t] t(2) by simp
  have h: "hold (hold Map.empty {p}) (set_tree t) = hold Map.empty (set_tree t)" using r by (auto simp: hold_def)
  have "size t = 32767" using full_tree_size [OF t(2)] by simp
  then show ?thesis using p(1,4) t unfolding h by (auto simp: grown_def)
qed

lemma run_ok:
  assumes "ok (heap_lib b) Map.empty 0" "time_calls b = 0" "printed b = []" "complaints b = []"
  shows "\<exists>b' p t c. gcbench_main None E A b = Inr (0, b') \<and> printed b' = gcbench_report E \<and> complaints b' = [] \<and>
    full_tree (node_at b') p 15 t \<and> c \<notin> set_tree t \<and>
    ok (heap_lib b') ((hold Map.empty (set_tree t))(c \<mapsto> 4000000)) 5572816"
proof -
  let ?b2 = "put ('' Stretching memory with a binary tree of depth '' @ show_int kStretchTreeDepth @ [newline_char])
    (put ('' Live storage will peak at '' @ show_int announced_peak @ '' bytes.'' @ [newline_char, newline_char])
      (put (''Garbage Collector Test'' @ [newline_char]) b))"
  let ?b3 = "?b2\<lparr>time_calls := time_calls ?b2 + 1\<rparr>"
  have t2: "time_calls ?b2 = 0" "time_calls ?b3 = 1" "heap_lib ?b3 = heap_lib b" "complaints ?b3 = []"
    using assms(2,4) by (simp_all add: put_def)
  have ok3: "ok (heap_lib ?b3) Map.empty 0" unfolding t2(3) by (rule assms(1))
  from stretch_ok [OF ok3] obtain p4 b4 b5 where b5:
    "MakeTree A kStretchTreeDepth ?b3 = Inr (p4, b4)" "destroy A p4 b4 = Inr b5" "ok (heap_lib b5) Map.empty (24 * 131071)"
    "kept Map.empty ?b3 b5" "time_calls b5 = time_calls ?b3" "printed b5 = printed ?b3" by (elim exE conjE) (rule that)
  let ?b6 = "put ('' Creating a long-lived binary tree of depth '' @ show_int kLongLivedTreeDepth @ [newline_char]) b5"
  from long_lived_ok [of ?b6] b5(3) obtain p b7 b8 t where b8:
    "calloc_node A ?b6 = Inr (p, b7)" "Populate A kLongLivedTreeDepth p b7 = Inr b8" "full_tree (node_at b8) p 15 t"
    "ok (heap_lib b8) (hold Map.empty (set_tree t)) (24 * 131071)"
    "time_calls b8 = 1" "printed b8 = printed ?b6" "complaints b8 = []"
    using b5(4,5) t2(2,4) by (auto simp: put_def kept_def)
  have p: "p \<noteq> NULL" using full_tree_root [of "node_at b8" p 14 t] b8(3) by simp
  have sz: "size t = 32767" using full_tree_size [OF b8(3)] by simp
  let ?b9 = "put ('' Creating a long-lived array of '' @ show_int kArraySize @ '' doubles'' @ [newline_char]) b8"
  let ?n = "of_int kArraySize * sizeof_double"
  have n: "unat ?n = 4000000" "?n \<noteq> 0" by (simp_all add: kArraySize_def sizeof_double_def)
  have ok9: "ok (heap_lib ?b9) (hold Map.empty (set_tree t)) (24 * 131071)" using b8(4) by (simp add: put_def)
  have u: "used (hold Map.empty (set_tree t)) = 786408" using used_tree [OF _ b8(3), of Map.empty] sz by simp
  from take [OF ok9 n(2)] obtain c s where c: "lib_malloc A (heap_lib ?b9) ?n = Inr (c, s)" "c \<noteq> NULL"
    "hold Map.empty (set_tree t) c = None" "ok s ((hold Map.empty (set_tree t))(c \<mapsto> 4000000)) 4786408"
    unfolding n u by (auto simp: max_def)
  let ?H = "(hold Map.empty (set_tree t))(c \<mapsto> 4000000)"
  have "used ?H = used (hold Map.empty (set_tree t)) + 4000000" by (rule used_put) (simp_all add: c(3))
  then have uH: "used ?H = 4786408" using u by simp
  have ok10: "ok (heap_lib (?b9\<lparr>heap_lib := s\<rparr>)) ?H 4786408" using c(4) by simp
  have ds: "\<forall>d\<in>set bench_depths. 0 < NumIters d" by (auto simp: bench_depths_def NumIters_values)
  have pk: "fold (\<lambda>d P. max P (4786408 + 24 * (2 ^ Suc (nat d) - 1))) bench_depths 4786408 = (5572816 :: nat)"
    "4 * length bench_depths = 24" by (simp_all add: bench_depths_def)
  have t9: "time_calls (?b9\<lparr>heap_lib := s\<rparr>) = 1" "printed (?b9\<lparr>heap_lib := s\<rparr>) = printed ?b9" using b8(5) by (simp_all add: put_def)
  from depths_ok [OF ok10 ds, of E, unfolded uH pk t9 time_depths_fold [symmetric]] obtain b10 where b10:
    "time_depths False E A kMinTreeDepth (?b9\<lparr>heap_lib := s\<rparr>) = Inr b10" "ok (heap_lib b10) ?H 5572816" "kept ?H (?b9\<lparr>heap_lib := s\<rparr>) b10"
    "time_calls b10 = 1 + 24" "printed b10 = printed ?b9 @ depth_reports E 1 bench_depths"
    by (elim exE conjE) (rule that)
  let ?b12 = "put (''Completed in '' @ show_int (elapsed (clock_value E (time_calls ?b2)) (clock_value E (time_calls b10))) @ '' msec'' @ [newline_char])
    (b10\<lparr>time_calls := time_calls b10 + 1\<rparr>)"
  have "c \<notin> set_tree t" using c(3) by (auto simp: hold_def split: if_splits)
  moreover have "full_tree (node_at ?b12) p 15 t"
    using b8(3) b10(3) by (subst full_tree_cong [of t _ "node_at b8"]) (auto simp: kept_def put_def)
  moreover have "gcbench_main None E A b = Inr (0, ?b12)"
    by (simp only: gcbench_main_def gcbench_start_def gcbench_end_def option.case give_back_def Let_def stats_rtclock_eq prod.case b5(1,2) b8(1,2) c(1,2) p b10(1) bindE_simps fill_half_value if_False simp_thms)
  moreover have "printed ?b12 = printed b10 @ ''Completed in '' @ took E 0 25" using t2(1) b10(4) by (simp add: put_def took_def)
  then have "printed ?b12 = gcbench_report E"
    unfolding b10(5)
    using b8(6) b5(6) assms(3)
    by (simp add: put_def gcbench_report_def announced_peak_value kStretchTreeDepth_def kLongLivedTreeDepth_def kArraySize_def
        show_int_def digits.simps)
  moreover have "complaints ?b12 = []" using b10(3) b8(7) by (simp add: put_def kept_def)
  ultimately show ?thesis using b10(2) by (intro exI [of _ ?b12] exI [of _ p] exI [of _ t] exI [of _ c]) (simp add: put_def)
qed

end

subsection \<open>A library with a meter\<close>

text \<open>The bytes in use, the most that have been in use at once, and the size of every block.\<close>

record meter =
  in_use :: nat
  most :: nat
  size_of :: "addr \<Rightarrow> nat"

definition count_take :: "addr \<Rightarrow> nat \<Rightarrow> meter \<Rightarrow> meter" where
  "count_take p n m = \<lparr>in_use = in_use m + n, most = max (most m) (in_use m + n), size_of = (size_of m)(p := n)\<rparr>"

definition count_give :: "addr \<Rightarrow> meter \<Rightarrow> meter" where
  "count_give p m = (if p = NULL then m else m\<lparr>in_use := in_use m - size_of m p\<rparr>)"

definition metered :: "'s libc \<Rightarrow> ('s \<times> meter) libc" where
  "metered A = \<lparr>
     lib_malloc = (\<lambda>(s, m) sz. bindE (lib_malloc A s sz) (\<lambda>(p, s'). Inr (p, (s', count_take p (unat sz) m)))),
     lib_calloc = (\<lambda>(s, m) n sz. bindE (lib_calloc A s n sz) (\<lambda>(p, s'). Inr (p, (s', count_take p (unat n * unat sz) m)))),
     lib_realloc = (\<lambda>(s, m) p sz. bindE (lib_realloc A s p sz) (\<lambda>(q, s'). Inr (q, (s', count_take q (unat sz) (count_give p m))))),
     lib_free = (\<lambda>(s, m) p. bindE (lib_free A s p) (\<lambda>s'. Inr (s', count_give p m))),
     lib_bytes = (\<lambda>(s, m). lib_bytes A s)\<rparr>"

definition no_meter :: meter where
  "no_meter = \<lparr>in_use = 0, most = 0, size_of = (\<lambda>_. 0)\<rparr>"

definition plain_ok :: "'s libc \<Rightarrow> ('s \<Rightarrow> addr set \<Rightarrow> bool) \<Rightarrow> 's \<Rightarrow> (addr \<rightharpoonup> nat) \<Rightarrow> nat \<Rightarrow> bool" where
  "plain_ok A ok s H P \<longleftrightarrow> conforming A ok \<and> ok s (dom H) \<and> finite (dom H) \<and> used H \<le> P"

definition meter_ok :: "'s libc \<Rightarrow> ('s \<Rightarrow> addr set \<Rightarrow> bool) \<Rightarrow> 's \<times> meter \<Rightarrow> (addr \<rightharpoonup> nat) \<Rightarrow> nat \<Rightarrow> bool" where
  "meter_ok A ok = (\<lambda>(s, m) H P. plain_ok A ok s H P \<and> in_use m = used H \<and> most m = P \<and>
     (\<forall>p n. H p = Some n \<longrightarrow> size_of m p = n))"

lemma plain_put:
  assumes "plain_ok A ok s H P" "gives ok (dom H) r"
  obtains p s' where "r = Inr (p, s')" "p \<noteq> NULL" "H p = None" "plain_ok A ok s' (H(p \<mapsto> n)) (max P (used H + n))"
proof -
  from assms(2) obtain p s' where p: "r = Inr (p, s')" "p \<noteq> NULL" "p \<notin> dom H" "ok s' (insert p (dom H))" by (rule givesE)
  have h: "H p = None" using p(3) by (simp add: domIff)
  have "finite (dom H)" using assms(1) by (simp add: plain_ok_def)
  then have "plain_ok A ok s' (H(p \<mapsto> n)) (max P (used H + n))"
    using assms(1) p(4) used_put [of H p n] h by (simp add: plain_ok_def)
  then show ?thesis using that p(1,2) h by blast
qed

lemma plain_drop:
  assumes "plain_ok A ok s H P" "H p = Some n"
  obtains s' where "lib_free A s p = Inr s'" "plain_ok A ok s' (H(p := None)) P"
proof -
  have c: "conforming A ok" "ok s (dom H)" "finite (dom H)" "used H \<le> P" using assms(1) by (simp_all add: plain_ok_def)
  have "p = NULL \<or> p \<in> dom H" using assms(2) by auto
  from conforming_free [OF c(1,2) this] obtain s' where s: "lib_free A s p = Inr s'" "ok s' (dom H - {p})" by (rule takesE)
  have "used (H(p := None)) \<le> P" using used_drop [OF c(3) assms(2)] c(4) by simp
  then show ?thesis using that [of s'] s c by (simp add: plain_ok_def)
qed

lemma plain_take: "plain_ok A ok s H P \<Longrightarrow> sz \<noteq> 0 \<Longrightarrow> gives ok (dom H) (lib_malloc A s sz)"
  using conforming_malloc by (auto simp: plain_ok_def)

lemma plain_zeroed: "plain_ok A ok s H P \<Longrightarrow> sz \<noteq> 0 \<Longrightarrow> gives ok (dom H) (lib_calloc A s 1 sz)"
  using conforming_calloc [of A ok s "dom H" 1 sz] unsigned_less [of sz, where 'a = nat] by (simp add: plain_ok_def)

interpretation plain_heap: counted_heap A "plain_ok A ok"
proof unfold_locales
  fix s H P sz assume h: "plain_ok A ok s H P" "sz \<noteq> (0 :: size_t)"
  show "\<exists>p s'. lib_malloc A s sz = Inr (p, s') \<and> p \<noteq> NULL \<and> H p = None \<and> plain_ok A ok s' (H(p \<mapsto> unat sz)) (max P (used H + unat sz))"
    by (rule plain_put [OF h(1) plain_take [OF h], of "unat sz"]) blast
  show "\<exists>p s'. lib_calloc A s 1 sz = Inr (p, s') \<and> p \<noteq> NULL \<and> H p = None \<and> plain_ok A ok s' (H(p \<mapsto> unat sz)) (max P (used H + unat sz))"
    by (rule plain_put [OF h(1) plain_zeroed [OF h], of "unat sz"]) blast
next
  fix s H P p n assume h: "plain_ok A ok s H P" "H p = Some n"
  show "\<exists>s'. lib_free A s p = Inr s' \<and> plain_ok A ok s' (H(p := None)) P" by (rule plain_drop [OF h]) blast
qed (auto simp: plain_ok_def)

lemma count_take_ok:
  assumes "plain_ok A ok s' (H(p \<mapsto> n)) (max P (used H + n))" "meter_ok A ok (s, m) H P" "H p = None"
  shows "meter_ok A ok (s', count_take p n m) (H(p \<mapsto> n)) (max P (used H + n))"
proof -
  have "finite (dom H)" using assms(2) by (simp add: meter_ok_def plain_ok_def)
  then show ?thesis using assms used_put [of H p n] by (simp add: meter_ok_def count_take_def)
qed

lemma count_give_ok:
  assumes "plain_ok A ok s' (H(p := None)) P" "meter_ok A ok (s, m) H P" "H p = Some n"
  shows "meter_ok A ok (s', count_give p m) (H(p := None)) P"
proof -
  have "finite (dom H)" "conforming A ok" "ok s (dom H)" using assms(2) by (simp_all add: meter_ok_def plain_ok_def)
  then have "used (H(p := None)) + n = used H" "p \<noteq> NULL" using used_drop assms(3) conforming_null by fastforce+
  then show ?thesis using assms by (auto simp: meter_ok_def count_give_def)
qed

interpretation metered_heap: counted_heap "metered A" "meter_ok A ok"
proof unfold_locales
  fix t :: "'a \<times> meter" and H P sz assume h: "meter_ok A ok t H P" "sz \<noteq> (0 :: size_t)"
  obtain s m where t: "t = (s, m)" by (cases t)
  have k: "plain_ok A ok s H P" using h(1) by (simp add: t meter_ok_def)
  show "\<exists>p s'. lib_malloc (metered A) t sz = Inr (p, s') \<and> p \<noteq> NULL \<and> H p = None \<and>
      meter_ok A ok s' (H(p \<mapsto> unat sz)) (max P (used H + unat sz))"
  proof (rule plain_put [OF k plain_take [OF k h(2)], of "unat sz"])
    fix p s' assume p: "lib_malloc A s sz = Inr (p, s')" "p \<noteq> NULL" "H p = None"
      "plain_ok A ok s' (H(p \<mapsto> unat sz)) (max P (used H + unat sz))"
    show ?thesis using count_take_ok [OF p(4) h(1) [unfolded t] p(3)] p(1-3) by (simp add: metered_def t)
  qed
  show "\<exists>p s'. lib_calloc (metered A) t 1 sz = Inr (p, s') \<and> p \<noteq> NULL \<and> H p = None \<and>
      meter_ok A ok s' (H(p \<mapsto> unat sz)) (max P (used H + unat sz))"
  proof (rule plain_put [OF k plain_zeroed [OF k h(2)], of "unat sz"])
    fix p s' assume p: "lib_calloc A s 1 sz = Inr (p, s')" "p \<noteq> NULL" "H p = None"
      "plain_ok A ok s' (H(p \<mapsto> unat sz)) (max P (used H + unat sz))"
    show ?thesis using count_take_ok [OF p(4) h(1) [unfolded t] p(3)] p(1-3) by (simp add: metered_def t)
  qed
next
  fix t :: "'a \<times> meter" and H P p n assume h: "meter_ok A ok t H P" "H p = Some n"
  obtain s m where t: "t = (s, m)" by (cases t)
  have k: "plain_ok A ok s H P" using h(1) by (simp add: t meter_ok_def)
  show "\<exists>s'. lib_free (metered A) t p = Inr s' \<and> meter_ok A ok s' (H(p := None)) P"
  proof (rule plain_drop [OF k h(2)])
    fix s' assume s: "lib_free A s p = Inr s'" "plain_ok A ok s' (H(p := None)) P"
    show ?thesis using count_give_ok [OF s(2) h(1) [unfolded t] h(2)] s(1) by (simp add: metered_def t)
  qed
qed (auto simp: meter_ok_def plain_ok_def)

subsection \<open>Properties\<close>

definition bench_start :: "'s \<Rightarrow> (addr \<Rightarrow> node0) \<Rightarrow> 's bench" where
  "bench_start s N = \<lparr>heap_lib = s, node_at = N, time_calls = 0, printed = [], complaints = []\<rparr>"

text \<open>The configuration without \<open>-DGC\<close>.\<close>

lemma plain_completes:
  assumes "conforming A ok" "ok s {}"
  shows "\<exists>b' p t c. gcbench_main None E A (bench_start s N) = Inr (0, b') \<and> printed b' = gcbench_report E \<and> complaints b' = [] \<and>
    full_tree (node_at b') p 15 t \<and> int (size t) = TreeSize kLongLivedTreeDepth \<and>
    c \<notin> set_tree t \<and> ok (heap_lib b') (insert c (set_tree t))"
proof -
  have "plain_ok A ok (heap_lib (bench_start s N)) Map.empty 0" using assms by (simp add: plain_ok_def bench_start_def)
  from plain_heap.run_ok [OF this, of E] obtain b' p t c where
    r: "gcbench_main None E A (bench_start s N) = Inr (0, b')" "printed b' = gcbench_report E" "complaints b' = []"
      "full_tree (node_at b') p 15 t" "c \<notin> set_tree t"
      "plain_ok A ok (heap_lib b') ((hold Map.empty (set_tree t))(c \<mapsto> 4000000)) 5572816"
    by (auto simp: bench_start_def)
  have "ok (heap_lib b') (insert c (set_tree t))" using r(6) by (simp add: plain_ok_def)
  moreover have "int (size t) = TreeSize kLongLivedTreeDepth"
    using full_tree_size [OF r(4)] by (simp add: kLongLivedTreeDepth_def TreeSize_values)
  ultimately show ?thesis using r(1-5) by blast
qed

text \<open>
  C40: In the configuration without \<open>-DGC\<close>, in which the program gives its trees back itself (the sources provide
  for it, \<open>src/Makefile\<close> builds the other one), the number the benchmark announces is its peak: on a conforming C
  library whose memory does not run out, with a meter on it, the most bytes that are in use at once are the number
  printed at the start, two trees of the long-lived depth and the array (the deeper tree of the first phase needs
  less); in the end a tree and the array are left. With \<open>-DGC\<close> the peak depends on when the collector runs.
\<close>

theorem gcbench_peak:
  assumes "conforming A ok" "ok s {}"
  shows "\<exists>b'. gcbench_main None E (metered A) (bench_start (s, no_meter) N) = Inr (0, b') \<and>
    int (most (snd (heap_lib b'))) = announced_peak \<and>
    int (in_use (snd (heap_lib b'))) = 24 * TreeSize kLongLivedTreeDepth + 8 * kArraySize"
proof -
  have "meter_ok A ok (heap_lib (bench_start (s, no_meter) N)) Map.empty 0"
    using assms by (simp add: meter_ok_def plain_ok_def bench_start_def no_meter_def)
  from metered_heap.run_ok [OF this, of E] obtain b' p t c where
    r: "gcbench_main None E (metered A) (bench_start (s, no_meter) N) = Inr (0, b')" "full_tree (node_at b') p 15 t" "c \<notin> set_tree t"
      "meter_ok A ok (heap_lib b') ((hold Map.empty (set_tree t))(c \<mapsto> 4000000)) 5572816"
    by (auto simp: bench_start_def)
  let ?H = "hold Map.empty (set_tree t)"
  have c: "?H c = None" using r(3) by (simp add: hold_def)
  have "used ?H = 786408" using used_tree [OF _ r(2), of Map.empty] full_tree_size [OF r(2)] by simp
  moreover have "used (?H(c \<mapsto> 4000000)) = used ?H + 4000000" by (rule used_put) (simp_all add: c)
  ultimately have "in_use (snd (heap_lib b')) = 4786408" "most (snd (heap_lib b')) = 5572816"
    using r(4) by (simp_all add: meter_ok_def case_prod_beta)
  then show ?thesis using r(1)
    by (simp add: announced_peak_value kLongLivedTreeDepth_def kArraySize_def TreeSize_values)
qed

lemma gcbench_peak_witness:
  "\<exists>b'. gcbench_main None \<lparr>timeofday = (\<lambda>k. None), recip = (\<lambda>i. i)\<rparr> (metered bump_lib)
     (bench_start (8, no_meter) (\<lambda>_. \<lparr>left_at = 0, right_at = 0, node_i = 0, node_j = 0\<rparr>)) = Inr (0, b') \<and>
     most (snd (heap_lib b')) = 5572816"
proof -
  have "bump_ok 8 {}" by (simp add: bump_ok_def)
  from gcbench_peak [OF bump_conforming this, of "\<lparr>timeofday = (\<lambda>k. None), recip = (\<lambda>i. i)\<rparr>"
      "\<lambda>_. \<lparr>left_at = 0, right_at = 0, node_i = 0, node_j = 0\<rparr>"]
  show ?thesis by (auto simp: announced_peak_value)
qed

end
