(* ===== verification/Gcbench_Gc.thy ===== *)
theory Gcbench_Gc
  imports Gcbench_Correct
begin

text \<open>
  The benchmark as \<open>src/Makefile\<close> builds it, with \<open>-DGC\<close>. Nothing is given back; the collector may take the blocks
  that are no longer live. The run is related, step by step, to the run of the configuration without \<open>-DGC\<close> on a
  library whose \<open>free\<close> does nothing.
\<close>










subsection \<open>The two configurations\<close>

lemma bindE_InrE:
  assumes "bindE m f = Inr y"
  obtains x where "m = Inr x" "f x = Inr y"
  using assms by (auto simp: bindE_Inr_iff)










subsection \<open>The whole program\<close>





end
