(* ===== verification/Log.thy ===== *)
theory Log
  imports Text
begin

text \<open>
  The logger of \<open>src/log.h\<close> and \<open>src/log.c\<close>: the static record \<open>L\<close>, its setters, the table of at most 32
  callbacks, and \<open>log_log\<close>, which takes the lock, writes to stderr and calls the callbacks.

  A function pointer is its address, 0 for \<open>NULL\<close>. What a call of \<open>log_log\<close> does to the outside is the
  list of its calls (\<open>log_act\<close>); the functions called through pointers do not change \<open>L\<close>. The time that
  \<open>localtime\<close> returns and the text that \<open>strftime\<close> and \<open>vfprintf\<close> make are arguments.
\<close>

record log_Event =
  ev_fmt :: string
  ev_file :: string
  ev_time :: "nat option"
  ev_udata :: addr
  ev_line :: int
  ev_level :: int

record log_callback =
  cb_fn :: addr
  cb_udata :: addr
  cb_level :: int

record logger =
  L_udata :: addr
  L_lock :: addr
  L_level :: int
  L_quiet :: bool
  callbacks :: "log_callback list"

datatype log_act =
    LockCall addr bool addr
  | StdoutCallback log_Event
  | CallbackCall addr log_Event

definition MAX_CALLBACKS :: nat where "MAX_CALLBACKS = 32"
definition STDERR :: addr where "STDERR = 2"
definition FILE_CALLBACK :: addr where "FILE_CALLBACK = 1"

definition level_strings :: "string list" where
  "level_strings = [''TRACE'', ''DEBUG'', ''INFO'', ''WARN'', ''ERROR'', ''FATAL'']"

definition log_level_string :: "int \<Rightarrow> string outcome" where
  "log_level_string level = (if level < 0 then Inl Undefined else from_option (array_get level_strings (nat level)))"

definition log_lock :: "logger \<Rightarrow> log_act list" where
  "log_lock L = (if L_lock L \<noteq> NULL then [LockCall (L_lock L) True (L_udata L)] else [])"

definition log_unlock :: "logger \<Rightarrow> log_act list" where
  "log_unlock L = (if L_lock L \<noteq> NULL then [LockCall (L_lock L) False (L_udata L)] else [])"

definition log_set_lock :: "addr \<Rightarrow> addr \<Rightarrow> logger \<Rightarrow> logger" where
  "log_set_lock fn udata L = L\<lparr>L_lock := fn, L_udata := udata\<rparr>"

definition log_set_level :: "int \<Rightarrow> logger \<Rightarrow> logger" where
  "log_set_level level L = L\<lparr>L_level := level\<rparr>"

definition log_set_quiet :: "bool \<Rightarrow> logger \<Rightarrow> logger" where
  "log_set_quiet enable L = L\<lparr>L_quiet := enable\<rparr>"

text \<open>The loop of \<open>log_add_callback\<close>: the index of the first free slot.\<close>

fun free_slot :: "log_callback list \<Rightarrow> nat \<Rightarrow> nat option" where
  "free_slot [] i = None"
| "free_slot (c # cs) i = (if cb_fn c = NULL then Some i else free_slot cs (i + 1))"

definition log_add_callback :: "addr \<Rightarrow> addr \<Rightarrow> int \<Rightarrow> logger \<Rightarrow> int \<times> logger" where
  "log_add_callback fn udata level L =
     (case free_slot (callbacks L) 0 of
        Some i \<Rightarrow> (0, L\<lparr>callbacks := (callbacks L)[i := \<lparr>cb_fn = fn, cb_udata = udata, cb_level = level\<rparr>]\<rparr>)
      | None \<Rightarrow> (- 1, L))"

definition log_add_fp :: "addr \<Rightarrow> int \<Rightarrow> logger \<Rightarrow> int \<times> logger" where
  "log_add_fp fp level L = log_add_callback FILE_CALLBACK fp level L"

definition init_event :: "nat \<Rightarrow> addr \<Rightarrow> log_Event \<Rightarrow> log_Event" where
  "init_event now udata ev =
     (let ev1 = (if ev_time ev = None then ev\<lparr>ev_time := Some now\<rparr> else ev) in ev1\<lparr>ev_udata := udata\<rparr>)"

text \<open>The loop over the callbacks; \<open>nows\<close> is what \<open>localtime\<close> would answer at each turn.\<close>

fun run_callbacks :: "log_callback list \<Rightarrow> int \<Rightarrow> (nat \<Rightarrow> nat) \<Rightarrow> nat \<Rightarrow> log_Event \<Rightarrow> log_act list" where
  "run_callbacks [] level nows i ev = []"
| "run_callbacks (cb # cbs) level nows i ev =
     (if cb_fn cb = NULL then []
      else if level \<ge> cb_level cb
      then (let ev1 = init_event (nows i) (cb_udata cb) ev
            in CallbackCall (cb_fn cb) ev1 # run_callbacks cbs level nows (i + 1) ev1)
      else run_callbacks cbs level nows (i + 1) ev)"

definition log_log :: "logger \<Rightarrow> int \<Rightarrow> string \<Rightarrow> int \<Rightarrow> string \<Rightarrow> (nat \<Rightarrow> nat) \<Rightarrow> log_act list" where
  "log_log L level file line fmt nows =
     (let ev = \<lparr>ev_fmt = fmt, ev_file = file, ev_time = None, ev_udata = NULL, ev_line = line, ev_level = level\<rparr>;
          loud = \<not> L_quiet L \<and> level \<ge> L_level L;
          ev1 = (if loud then init_event (nows 0) STDERR ev else ev)
      in log_lock L @ (if loud then [StdoutCallback ev1] else []) @
         run_callbacks (callbacks L) level nows 1 ev1 @ log_unlock L)"

subsection \<open>The lines written\<close>

text \<open>
  \<open>stdout_callback\<close> (without \<open>LOG_USE_COLOR\<close>) and \<open>file_callback\<close> differ in the format they give to
  \<open>strftime\<close>; \<open>when\<close> is its result and \<open>msg\<close> that of \<open>vfprintf\<close>.
\<close>

definition log_line :: "string \<Rightarrow> string \<Rightarrow> log_Event \<Rightarrow> string outcome" where
  "log_line when msg ev =
     bindE (log_level_string (ev_level ev)) (\<lambda>lv.
       Inr (when @ '' '' @ pad_right 5 lv @ '' '' @ ev_file ev @ '':'' @ show_int (ev_line ev) @ '': '' @ msg @ [CHR 0x0A]))"

definition stdout_callback :: "(string \<Rightarrow> nat option \<Rightarrow> string) \<Rightarrow> string \<Rightarrow> log_Event \<Rightarrow> string outcome" where
  "stdout_callback strftime msg ev = log_line (strftime ''%H:%M:%S'' (ev_time ev)) msg ev"

definition file_callback :: "(string \<Rightarrow> nat option \<Rightarrow> string) \<Rightarrow> string \<Rightarrow> log_Event \<Rightarrow> string outcome" where
  "file_callback strftime msg ev = log_line (strftime ''%Y-%m-%d %H:%M:%S'' (ev_time ev)) msg ev"

subsection \<open>The registered callbacks\<close>

text \<open>\<open>L\<close> holds the callbacks \<open>cs\<close>, in the order they were added; the slots after them are free.\<close>

definition registered :: "logger \<Rightarrow> log_callback list \<Rightarrow> bool" where
  "registered L cs \<longleftrightarrow> length (callbacks L) = MAX_CALLBACKS \<and> (\<forall>c \<in> set cs. cb_fn c \<noteq> NULL) \<and>
     (\<exists>rest. callbacks L = cs @ rest \<and> (\<forall>c \<in> set rest. cb_fn c = NULL))"

definition empty_logger :: logger where
  "empty_logger = \<lparr>L_udata = NULL, L_lock = NULL, L_level = 0, L_quiet = False,
     callbacks = replicate MAX_CALLBACKS \<lparr>cb_fn = NULL, cb_udata = NULL, cb_level = 0\<rparr>\<rparr>"

lemma registered_empty: "registered empty_logger []"
  by (simp add: registered_def empty_logger_def)

lemma registered_fields [simp]:
  "registered (L\<lparr>L_lock := a\<rparr>) cs = registered L cs" "registered (L\<lparr>L_udata := a\<rparr>) cs = registered L cs"
  "registered (L\<lparr>L_level := l\<rparr>) cs = registered L cs" "registered (L\<lparr>L_quiet := q\<rparr>) cs = registered L cs"
  by (simp_all add: registered_def)

lemma free_slot_registered:
  "\<forall>c \<in> set cs. cb_fn c \<noteq> NULL \<Longrightarrow> \<forall>c \<in> set rest. cb_fn c = NULL \<Longrightarrow>
   free_slot (cs @ rest) i = (if rest = [] then None else Some (i + length cs))"
proof (induction cs arbitrary: i)
  case Nil
  then show ?case by (cases rest) auto
qed auto

lemma run_callbacks_registered:
  "\<forall>c \<in> set cs. cb_fn c \<noteq> NULL \<Longrightarrow> \<forall>c \<in> set rest. cb_fn c = NULL \<Longrightarrow> ev_time ev = Some t \<Longrightarrow>
   run_callbacks (cs @ rest) level nows i ev =
     map (\<lambda>c. CallbackCall (cb_fn c) (ev\<lparr>ev_udata := cb_udata c\<rparr>)) (filter (\<lambda>c. cb_level c \<le> level) cs)"
proof (induction cs arbitrary: i ev)
  case Nil
  then show ?case by (cases rest) auto
next
  case (Cons c cs)
  then show ?case by (simp add: init_event_def)
qed

text \<open>Before the first event has a time, the first callback that is called sets it.\<close>

lemma run_callbacks_first:
  "\<forall>c \<in> set cs. cb_fn c \<noteq> NULL \<Longrightarrow> \<forall>c \<in> set rest. cb_fn c = NULL \<Longrightarrow>
   \<exists>t. run_callbacks (cs @ rest) level nows i ev =
     map (\<lambda>c. CallbackCall (cb_fn c) (ev\<lparr>ev_time := Some t, ev_udata := cb_udata c\<rparr>)) (filter (\<lambda>c. cb_level c \<le> level) cs)"
proof (induction cs arbitrary: i ev)
  case Nil
  then show ?case by (cases rest) auto
next
  case (Cons c cs)
  let ?t = "case ev_time ev of None \<Rightarrow> nows i | Some t \<Rightarrow> t"
  show ?case
  proof (cases "cb_level c \<le> level")
    case True
    let ?ev = "ev\<lparr>ev_time := Some ?t, ev_udata := cb_udata c\<rparr>"
    have i: "init_event (nows i) (cb_udata c) ev = ?ev"
      by (cases ev) (auto simp: init_event_def split: option.splits)
    have "run_callbacks (cs @ rest) level nows (i + 1) ?ev =
        map (\<lambda>c. CallbackCall (cb_fn c) (?ev\<lparr>ev_udata := cb_udata c\<rparr>)) (filter (\<lambda>c. cb_level c \<le> level) cs)"
      by (rule run_callbacks_registered [of _ _ _ ?t]) (use Cons.prems in simp_all)
    with True Cons.prems i show ?thesis by (intro exI [of _ ?t]) simp
  next
    case False
    with Cons show ?thesis by simp
  qed
qed

text \<open>Every state of \<open>L\<close> that a program's calls lead to from the zeroed static storage.\<close>

inductive log_reach :: "logger \<Rightarrow> log_callback list \<Rightarrow> bool" where
  log_start: "log_reach empty_logger []"
| log_lock_step: "log_reach L cs \<Longrightarrow> log_reach (log_set_lock fn u L) cs"
| log_level_step: "log_reach L cs \<Longrightarrow> log_reach (log_set_level lv L) cs"
| log_quiet_step: "log_reach L cs \<Longrightarrow> log_reach (log_set_quiet q L) cs"
| log_add_step: "log_reach L cs \<Longrightarrow> fn \<noteq> NULL \<Longrightarrow> log_add_callback fn u lv L = (0, L') \<Longrightarrow>
    log_reach L' (cs @ [\<lparr>cb_fn = fn, cb_udata = u, cb_level = lv\<rparr>])"
| log_full_step: "log_reach L cs \<Longrightarrow> log_add_callback fn u lv L = (- 1, L') \<Longrightarrow> log_reach L' cs"

inductive_cases log_reachE: "log_reach L cs"

lemma add_callback_registered:
  assumes r: "registered L cs" and fn: "fn \<noteq> NULL"
  shows "if length cs < MAX_CALLBACKS
    then \<exists>L'. log_add_callback fn u lv L = (0, L') \<and> registered L' (cs @ [\<lparr>cb_fn = fn, cb_udata = u, cb_level = lv\<rparr>])
    else log_add_callback fn u lv L = (- 1, L)"
proof -
  obtain rest where rest: "callbacks L = cs @ rest" "\<forall>c \<in> set rest. cb_fn c = NULL" "\<forall>c \<in> set cs. cb_fn c \<noteq> NULL"
    "length cs + length rest = MAX_CALLBACKS" using r by (auto simp: registered_def)
  note fs = free_slot_registered [OF rest(3,2), of 0]
  show ?thesis
  proof (cases rest)
    case Nil
    with fs rest show ?thesis by (simp add: log_add_callback_def)
  next
    case (Cons d ds)
    with fs rest fn show ?thesis by (auto simp: log_add_callback_def registered_def)
  qed
qed

lemma log_reach_registered: "log_reach L cs \<Longrightarrow> registered L cs"
proof (induction rule: log_reach.induct)
  case log_start
  show ?case by (rule registered_empty)
next
  case (log_add_step L cs fn u lv L')
  with add_callback_registered [OF log_add_step.IH log_add_step.hyps(2), of u lv] show ?case
    by (auto split: if_splits)
next
  case (log_full_step L cs fn u lv L')
  then have "L' = L" by (auto simp: log_add_callback_def split: option.splits)
  with log_full_step.IH show ?case by simp
qed (simp_all add: log_set_lock_def log_set_level_def log_set_quiet_def)

subsection \<open>What a program can rely on\<close>

text \<open>
  At most 32 callbacks are registered; adding one more appends it after the others and returns 0, and
  on a full table returns -1 and changes nothing.
\<close>

theorem callback_table:
  assumes "log_reach L cs" "fn \<noteq> NULL"
  shows "length cs \<le> 32 \<and>
    (if length cs < 32
     then \<exists>L'. log_add_callback fn u lv L = (0, L') \<and> log_reach L' (cs @ [\<lparr>cb_fn = fn, cb_udata = u, cb_level = lv\<rparr>])
     else log_add_callback fn u lv L = (- 1, L))"
proof -
  note r = log_reach_registered [OF assms(1)]
  have "length cs \<le> 32" using r by (auto simp: registered_def MAX_CALLBACKS_def)
  with add_callback_registered [OF r assms(2), of u lv] log_add_step [OF assms] show ?thesis
    by (auto simp: MAX_CALLBACKS_def)
qed

lemma callback_table_witness:
  "\<exists>L'. log_add_fp 5 3 empty_logger = (0, L') \<and> log_reach L' [\<lparr>cb_fn = FILE_CALLBACK, cb_udata = 5, cb_level = 3\<rparr>]"
  using callback_table [OF log_start, of FILE_CALLBACK 5 3] by (simp add: log_add_fp_def FILE_CALLBACK_def)

text \<open>What the logger promises: the calls made for one message.\<close>

definition delivered :: "logger \<Rightarrow> log_callback list \<Rightarrow> int \<Rightarrow> (addr \<Rightarrow> log_Event) \<Rightarrow> log_act list" where
  "delivered L cs level ev =
     (if L_lock L \<noteq> NULL then [LockCall (L_lock L) True (L_udata L)] else []) @
     (if \<not> L_quiet L \<and> L_level L \<le> level then [StdoutCallback (ev STDERR)] else []) @
     map (\<lambda>c. CallbackCall (cb_fn c) (ev (cb_udata c))) (filter (\<lambda>c. cb_level c \<le> level) cs) @
     (if L_lock L \<noteq> NULL then [LockCall (L_lock L) False (L_udata L)] else [])"

lemma delivery:
  assumes "log_reach L cs"
  shows "\<exists>t. log_log L level file line fmt nows = delivered L cs level
    (\<lambda>u. \<lparr>ev_fmt = fmt, ev_file = file, ev_time = Some t, ev_udata = u, ev_line = line, ev_level = level\<rparr>)"
proof -
  let ?ev = "\<lparr>ev_fmt = fmt, ev_file = file, ev_time = None, ev_udata = NULL, ev_line = line, ev_level = level\<rparr>"
  obtain rest where rest: "callbacks L = cs @ rest" "\<forall>c \<in> set rest. cb_fn c = NULL" "\<forall>c \<in> set cs. cb_fn c \<noteq> NULL"
    using log_reach_registered [OF assms] by (auto simp: registered_def)
  show ?thesis
  proof (cases "\<not> L_quiet L \<and> L_level L \<le> level")
    case True
    let ?ev1 = "?ev\<lparr>ev_time := Some (nows 0), ev_udata := STDERR\<rparr>"
    have "run_callbacks (cs @ rest) level nows 1 ?ev1 =
        map (\<lambda>c. CallbackCall (cb_fn c) (?ev1\<lparr>ev_udata := cb_udata c\<rparr>)) (filter (\<lambda>c. cb_level c \<le> level) cs)"
      by (rule run_callbacks_registered [of _ _ _ "nows 0"]) (use rest in simp_all)
    with True rest(1) show ?thesis
      by (intro exI [of _ "nows 0"]) (simp add: delivered_def log_log_def init_event_def log_lock_def log_unlock_def Let_def)
  next
    case False
    obtain t where "run_callbacks (cs @ rest) level nows 1 ?ev =
        map (\<lambda>c. CallbackCall (cb_fn c) (?ev\<lparr>ev_time := Some t, ev_udata := cb_udata c\<rparr>)) (filter (\<lambda>c. cb_level c \<le> level) cs)"
      using run_callbacks_first [OF rest(3,2)] by blast
    with False rest(1) show ?thesis
      by (intro exI [of _ t]) (auto simp add: delivered_def log_log_def log_lock_def log_unlock_def Let_def)
  qed
qed

text \<open>
  C28: One log message is delivered between one pair of lock calls: to stderr unless the logger is quiet
  or its level is higher, and to exactly the registered callbacks whose level is not higher, each once,
  in the order they were added, with its own user data and all with the same time.
\<close>

theorem log_delivery:
  assumes "log_reach L cs"
  shows "\<exists>t. log_log L level file line fmt nows = delivered L cs level
    (\<lambda>u. \<lparr>ev_fmt = fmt, ev_file = file, ev_time = Some t, ev_udata = u, ev_line = line, ev_level = level\<rparr>)"
  by (rule delivery [OF assms])

lemma log_delivery_witness:
  "log_log (log_set_quiet True empty_logger) 5 ''a.c'' 1 ''x'' (\<lambda>i. i) = []"
proof -
  have "log_reach (log_set_quiet True empty_logger) []" by (rule log_quiet_step [OF log_start])
  from log_delivery [OF this, of 5 "''a.c''" 1 "''x''" "\<lambda>i. i"] show ?thesis
    by (auto simp: delivered_def log_set_quiet_def empty_logger_def)
qed

text \<open>
  \<open>log_log\<close> does not check its level: a message with a level outside the six of the header that is
  not below \<open>L.level\<close> goes to \<open>stdout_callback\<close>, which reads outside \<open>level_strings\<close>. A level of the header
  never does that.
\<close>

theorem level_out_of_range:
  assumes "log_reach L cs" "\<not> L_quiet L" "L_level L \<le> level"
  shows "\<exists>ev. StdoutCallback ev \<in> set (log_log L level file line fmt nows) \<and>
    (stdout_callback f msg ev = Inl Undefined \<longleftrightarrow> level < 0 \<or> 5 < level)"
proof -
  obtain t where t: "log_log L level file line fmt nows = delivered L cs level
    (\<lambda>u. \<lparr>ev_fmt = fmt, ev_file = file, ev_time = Some t, ev_udata = u, ev_line = line, ev_level = level\<rparr>)"
    using delivery [OF assms(1)] by blast
  let ?ev = "\<lparr>ev_fmt = fmt, ev_file = file, ev_time = Some t, ev_udata = STDERR, ev_line = line, ev_level = level\<rparr>"
  have m: "StdoutCallback ?ev \<in> set (log_log L level file line fmt nows)"
    using assms(2,3) by (simp add: t delivered_def)
  have n: "length level_strings = 6" by (simp add: level_strings_def)
  have "stdout_callback f msg ?ev = Inl Undefined \<longleftrightarrow> level < 0 \<or> 5 < level"
    by (cases "nat level < 6") (auto simp: stdout_callback_def log_line_def log_level_string_def n)
  with m show ?thesis by blast
qed

lemma level_out_of_range_witness:
  "\<exists>ev. StdoutCallback ev \<in> set (log_log empty_logger 6 ''a.c'' 1 ''x'' (\<lambda>i. i)) \<and>
     stdout_callback (\<lambda>f t. ''12:00:00'') ''x'' ev = Inl Undefined"
  using level_out_of_range [OF log_start, of 6 "''a.c''" 1 "''x''" "\<lambda>i. i" "\<lambda>f t. ''12:00:00''" "''x''"]
  by (auto simp: empty_logger_def)

lemma log_line_example:
  "file_callback (\<lambda>f t. ''noon'') ''hi'' \<lparr>ev_fmt = ''hi'', ev_file = ''a.c'', ev_time = Some 0, ev_udata = 5, ev_line = 12,
     ev_level = 2\<rparr> = Inr (''noon INFO  a.c:12: hi'' @ [CHR 0x0A])"
  by code_simp

end
