(* ===== verification/Ls_Util.thy ===== *)
theory Ls_Util
  imports Text Gc
begin

text \<open>
  The helpers of \<open>src/ls.c\<close>: error messages, checked allocation, path names, the reading of symbolic links,
  mode strings, colours and human-readable sizes. Memory comes from the C library \<open>A\<close>; a string that the
  code allocates is its address together with its characters.
\<close>

subsection \<open>File modes\<close>

type_synonym mode_t = u32

definition S_ISREG :: "mode_t \<Rightarrow> bool" where "S_ISREG m \<longleftrightarrow> m AND 0xF000 = 0x8000"
definition S_ISDIR :: "mode_t \<Rightarrow> bool" where "S_ISDIR m \<longleftrightarrow> m AND 0xF000 = 0x4000"
definition S_ISLNK :: "mode_t \<Rightarrow> bool" where "S_ISLNK m \<longleftrightarrow> m AND 0xF000 = 0xA000"
definition S_ISBLK :: "mode_t \<Rightarrow> bool" where "S_ISBLK m \<longleftrightarrow> m AND 0xF000 = 0x6000"
definition S_ISCHR :: "mode_t \<Rightarrow> bool" where "S_ISCHR m \<longleftrightarrow> m AND 0xF000 = 0x2000"

definition exec_bits :: mode_t where "exec_bits = 0x49"

definition TYPEINDEX :: "mode_t \<Rightarrow> nat" where
  "TYPEINDEX mode = unat (drop_bit 12 mode AND 0x0f)"

definition TYPECHAR :: "mode_t \<Rightarrow> char" where
  "TYPECHAR mode = ''0pcCd?bB-?l?s???'' ! TYPEINDEX mode"

definition APPCHAR :: "mode_t \<Rightarrow> char" where
  "APPCHAR mode = (let z = CHR 0x00 in [z, CHR ''|'', z, z, CHR ''/'', z, z, z, z, z, CHR ''@'', z, CHR ''='', z, z, z]) ! TYPEINDEX mode"

definition COLOR :: "mode_t \<Rightarrow> nat" where
  "COLOR mode = [0, 35, 35, 35, 34, 0, 35, 35, 0, 0, 36, 0, 35, 0, 0, 32] ! TYPEINDEX mode"

definition ATTR :: "mode_t \<Rightarrow> nat" where
  "ATTR mode = [0, 0, 1, 0, 1, 0, 1, 0, 0, 0, 1, 0, 1, 0, 0, 1] ! TYPEINDEX mode"

definition SBIT :: "mode_t list" where "SBIT = [0, 0, 0x800, 0, 0, 0x400, 0, 0, 0x200]"
definition MBIT :: "mode_t list" where "MBIT = [0x100, 0x80, 0x40, 0x20, 0x10, 0x8, 0x4, 0x2, 0x1]"
definition MODE1 :: string where "MODE1 = ''rwxrwxrwx''"
definition MODE0 :: string where "MODE0 = ''---------''"
definition SMODE1 :: string where "SMODE1 = ''..s..s..t''"
definition SMODE0 :: string where "SMODE0 = ''..S..S..T''"

text \<open>The buffer of \<open>mode_string\<close> has 12 bytes; the two after the string stay NUL.\<close>

definition mode_string :: "mode_t \<Rightarrow> string" where
  "mode_string mode = TYPECHAR mode # map (\<lambda>i.
     if mode AND SBIT ! i \<noteq> 0
     then (if mode AND MBIT ! i \<noteq> 0 then SMODE1 ! i else SMODE0 ! i)
     else (if mode AND MBIT ! i \<noteq> 0 then MODE1 ! i else MODE0 ! i)) [0..<9]"

text \<open>\<open>fgcolor\<close> looks at \<open>errno\<close> and may reset it; \<open>ENOENT\<close> is 2.\<close>

definition ENOENT :: nat where "ENOENT = 2"

definition fgcolor :: "nat \<Rightarrow> mode_t \<Rightarrow> nat \<times> nat" where
  "fgcolor errno mode =
     (if errno = ENOENT then (31, 0)
      else if S_ISREG mode \<and> mode AND exec_bits \<noteq> 0 then (COLOR 0xF000, errno)
      else (COLOR mode, errno))"

definition bgcolor :: "mode_t \<Rightarrow> nat" where
  "bgcolor mode = (if S_ISREG mode \<and> mode AND exec_bits \<noteq> 0 then ATTR 0xF000 else ATTR mode)"

subsection \<open>Human-readable sizes\<close>

definition KILOBYTE :: nat where "KILOBYTE = 1024"

definition zero_and_units :: string where
  "zero_and_units = [CHR ''0'', CHR 0x00, CHR ''k'', CHR ''M'', CHR ''G'', CHR ''T'']"

text \<open>The loop: the value, the index \<open>u\<close> of the unit, the tenths, and whether \<open>f\<close> is \<open>fmt_tenths\<close>.\<close>

function human_loop :: "nat \<Rightarrow> nat \<Rightarrow> nat \<Rightarrow> bool \<Rightarrow> nat \<times> nat \<times> nat \<times> bool" where
  "human_loop val u frac tenths =
     (if val \<ge> KILOBYTE \<and> u < length zero_and_units - 1
      then human_loop (val div KILOBYTE) (u + 1) ((val mod KILOBYTE * 10 + KILOBYTE div 2) div KILOBYTE) True
      else (val, u, frac, tenths))"
  by auto
termination by (relation "measure (\<lambda>(val, u, _). length zero_and_units - u)") auto

declare human_loop.simps [simp del]

text \<open>\<open>%Lu\<close> or \<open>%Lu.%d%c\<close>, cut off by \<open>snprintf\<close> at 20 characters.\<close>

definition make_human_readable_str :: "64 word \<Rightarrow> 64 word \<Rightarrow> 64 word \<Rightarrow> string" where
  "make_human_readable_str sz block_size display_unit =
     (let val = sz * block_size
      in if val = 0 then ''0''
         else if display_unit \<noteq> 0
         then take 20 (digits (unat ((val + display_unit div 2) div display_unit)))
         else (let (v, u, frac, tenths) = human_loop (unat val) 1 0 False;
                   (v1, frac1) = (if frac \<ge> 10 then (v + 1, 0) else (v, frac))
               in take 20 (if tenths then digits v1 @ ''.'' @ digits frac1 @ [zero_and_units ! u] else digits v1)))"

subsection \<open>Errors\<close>

text \<open>
  \<open>perror_msg\<close> joins its arguments up to a \<open>NULL\<close> (\<open>None\<close>) in a buffer of 555 bytes; \<open>va_arg\<close> past the last
  argument and a join that does not fit are undefined. The result is the message given to \<open>perror\<close>.
\<close>

fun perror_join :: "string \<Rightarrow> string option list \<Rightarrow> string outcome" where
  "perror_join msg [] = Inl Undefined"
| "perror_join msg (None # args) = Inr msg"
| "perror_join msg (Some arg # args) =
     (if length msg + length arg + 1 > 555 then Inl Undefined else perror_join (msg @ arg) args)"

definition perror_msg :: "string option list \<Rightarrow> string outcome" where
  "perror_msg args = perror_join [] args"

definition ERR_EXIT :: "string \<Rightarrow> 'a outcome" where
  "ERR_EXIT m = bindE (perror_msg [Some m]) (\<lambda>_. Inl Exit)"

subsection \<open>Checked allocation\<close>

definition xmalloc :: "'s libc \<Rightarrow> 's \<Rightarrow> size_t \<Rightarrow> (addr \<times> 's) outcome" where
  "xmalloc A s sz = bindE (lib_malloc A s sz) (\<lambda>(ptr, s1).
     if ptr = NULL \<and> sz \<noteq> 0 then ERR_EXIT ''malloc'' else Inr (ptr, s1))"

definition xrealloc :: "'s libc \<Rightarrow> 's \<Rightarrow> addr \<Rightarrow> size_t \<Rightarrow> (addr \<times> 's) outcome" where
  "xrealloc A s p sz = bindE (lib_realloc A s p sz) (\<lambda>(ptr, s1).
     if ptr = NULL \<and> sz \<noteq> 0 then ERR_EXIT ''realloc'' else Inr (ptr, s1))"

definition xcalloc :: "'s libc \<Rightarrow> 's \<Rightarrow> size_t \<Rightarrow> size_t \<Rightarrow> (addr \<times> 's) outcome" where
  "xcalloc A s nmemb sz = bindE (lib_calloc A s nmemb sz) (\<lambda>(ptr, s1).
     if ptr = NULL \<and> nmemb \<noteq> 0 \<and> sz \<noteq> 0 then ERR_EXIT ''calloc'' else Inr (ptr, s1))"

text \<open>\<open>strdup\<close> of libc allocates one byte more than the length and copies.\<close>

definition xstrdup :: "'s libc \<Rightarrow> 's \<Rightarrow> string \<Rightarrow> (addr \<times> 's) outcome" where
  "xstrdup A s str = bindE (lib_malloc A s (of_nat (length str + 1))) (\<lambda>(t, s1).
     if t = NULL then ERR_EXIT ''strdup'' else Inr (t, s1))"

subsection \<open>Strings and paths\<close>

text \<open>A pointer into the string, as an offset.\<close>

definition last_char_is :: "string option \<Rightarrow> char \<Rightarrow> nat option" where
  "last_char_is so c = (case so of None \<Rightarrow> None
     | Some s \<Rightarrow> if s \<noteq> [] \<and> s ! (length s - 1) = c then Some (length s - 1) else None)"

text \<open>\<open>sprintf\<close> writes the string and its NUL; a buffer too short for them is overrun.\<close>

definition concat_path_file :: "'s libc \<Rightarrow> 's \<Rightarrow> string option \<Rightarrow> string \<Rightarrow> (addr \<times> string \<times> 's) outcome" where
  "concat_path_file A s path0 filename0 =
     (let path = (case path0 of None \<Rightarrow> '''' | Some p \<Rightarrow> p);
          lc = last_char_is (Some path) CHR ''/'';
          filename = dropWhile (\<lambda>c. c = CHR ''/'') filename0;
          size = length path + length filename + 1 + (if lc = None then 1 else 0);
          text = path @ (if lc = None then ''/'' else '''') @ filename
      in bindE (xmalloc A s (of_nat size)) (\<lambda>(outbuf, s1).
           if size < length text + 1 then Inl Undefined else Inr (outbuf, text, s1)))"

text \<open>
  \<open>xreadlink\<close>: \<open>target\<close> is what the link holds, or \<open>None\<close> when \<open>readlink\<close> fails; \<open>readlink\<close> copies at most
  \<open>bufsize\<close> bytes of it.
\<close>

function readlink_loop :: "'s libc \<Rightarrow> string \<Rightarrow> string option \<Rightarrow> 's \<Rightarrow> addr \<Rightarrow> nat \<Rightarrow> ((addr \<times> string) option \<times> 's) outcome" where
  "readlink_loop A path target s buf bufsize =
     bindE (xrealloc A s buf (of_nat (bufsize + 80))) (\<lambda>(buf1, s1).
       case target of
         None \<Rightarrow> bindE (perror_msg [Some ''ls: '', Some path, None]) (\<lambda>_. Inr (None, s1))
       | Some t \<Rightarrow> (let readsize = min (length t) (bufsize + 80)
           in if bufsize + 80 < readsize + 1 then readlink_loop A path target s1 buf1 (bufsize + 80)
              else Inr (Some (buf1, take readsize t), s1)))"
  by auto
termination by (relation "measure (\<lambda>(A, path, target, s, buf, bufsize). case target of None \<Rightarrow> 0 | Some t \<Rightarrow> length t + 1 - bufsize)") auto

declare readlink_loop.simps [simp del]

definition xreadlink :: "'s libc \<Rightarrow> 's \<Rightarrow> string \<Rightarrow> string option \<Rightarrow> ((addr \<times> string) option \<times> 's) outcome" where
  "xreadlink A s path target = readlink_loop A path target s NULL 0"

text \<open>\<open>strncpy\<close> into a buffer: at most \<open>n\<close> characters, padded with NULs.\<close>

definition strncpy :: "string \<Rightarrow> string \<Rightarrow> nat \<Rightarrow> string" where
  "strncpy dst src n = take n src @ replicate (n - length src) CHR 0x00 @ drop n dst"

definition safe_strncpy :: "string \<Rightarrow> string \<Rightarrow> nat \<Rightarrow> string option" where
  "safe_strncpy dst src sz =
     (if sz = 0 \<or> length dst < sz then None else Some (strncpy (dst[sz - 1 := CHR 0x00]) src (sz - 1)))"

text \<open>\<open>junk\<close> is what the new block of \<open>n + 1\<close> bytes holds.\<close>

definition xstrndup :: "'s libc \<Rightarrow> 's \<Rightarrow> string option \<Rightarrow> nat \<Rightarrow> (nat \<Rightarrow> char) \<Rightarrow> (addr \<times> string \<times> 's) outcome" where
  "xstrndup A s src n junk = (case src of None \<Rightarrow> ERR_EXIT ''xstrndup bug''
     | Some str \<Rightarrow> bindE (xmalloc A s (of_nat (n + 1))) (\<lambda>(t, s1).
         bindE (from_option (safe_strncpy (map junk [0..<n + 1]) str (n + 1))) (\<lambda>buf. Inr (t, buf, s1))))"

definition xstrlen :: "string \<Rightarrow> nat" where
  "xstrlen s = length s"

end
