(* ===== verification/Ls_Node.thy ===== *)
theory Ls_Node
  imports Ls_Util
begin

text \<open>
  The state of \<open>src/ls.c\<close> and its directory nodes: counting, splitting, sorting and freeing them. Nodes are
  records by their address (\<open>dn_at\<close>), chained through \<open>dn_next\<close> in the order they were made, and collected in
  arrays of pointers; an array is its address with its elements, and a \<open>NULL\<close> array is \<open>None\<close>. The parts of a
  \<open>struct stat\<close> that are only printed are integers.
\<close>

record stat_t =
  st_mode :: mode_t
  st_ino :: int
  st_nlink :: int
  st_uid :: int
  st_gid :: int
  st_rdev :: "64 word"
  st_size :: int
  st_blocks :: int
  st_atime :: int
  st_mtime :: int
  st_ctime :: int

text \<open>\<open>name\<close> points into \<open>fullname\<close>, \<open>name_off\<close> characters after its start.\<close>

record dnode =
  name_off :: nat
  fullname_at :: addr
  fullname :: string
  dstat :: stat_t
  dn_next :: addr

definition name :: "dnode \<Rightarrow> string" where
  "name d = drop (name_off d) (fullname d)"

type_synonym dnarray = "(addr \<times> addr list) option"

record 's ls =
  disp_opts :: u32
  style_fmt :: nat
  list_fmt :: u32
  sort_opts :: nat
  sort_order :: u32
  time_fmt :: u32
  follow_links :: bool
  column :: "16 word"
  terminal_width :: "16 word"
  column_width :: "16 word"
  tabstops :: "16 word"
  nexttab :: "16 word"
  status :: int
  ls_disp_hr :: bool
  show_color :: bool
  errno :: nat
  ls_lib :: 's
  dn_at :: "addr \<Rightarrow> dnode"
  out :: string

definition sizeof_dnode :: size_t where "sizeof_dnode = 168"

definition SORT_SIZE :: nat where "SORT_SIZE = 3"
definition SORT_ATIME :: nat where "SORT_ATIME = 4"
definition SORT_CTIME :: nat where "SORT_CTIME = 5"
definition SORT_MTIME :: nat where "SORT_MTIME = 6"
definition SORT_DIR :: nat where "SORT_DIR = 9"
definition SORT_REVERSE :: u32 where "SORT_REVERSE = 1"

subsection \<open>Counting\<close>

definition is_subdir :: "dnode \<Rightarrow> bool" where
  "is_subdir d \<longleftrightarrow> S_ISDIR (st_mode (dstat d)) \<and> strcmp (name d) ''.'' \<noteq> 0 \<and> strcmp (name d) ''..'' \<noteq> 0"

fun count_loop :: "(addr \<Rightarrow> bool) \<Rightarrow> addr list \<Rightarrow> nat \<Rightarrow> nat \<Rightarrow> nat \<Rightarrow> nat option" where
  "count_loop P xs i 0 c = Some c"
| "count_loop P xs i (Suc k) c =
     Option.bind (array_get xs i) (\<lambda>d. count_loop P xs (i + 1) k (if P d then c + 1 else c))"

definition countdirs :: "(addr \<Rightarrow> dnode) \<Rightarrow> dnarray \<Rightarrow> nat \<Rightarrow> nat option" where
  "countdirs N dn nfiles = (case dn of None \<Rightarrow> Some 0
     | Some (_, xs) \<Rightarrow> if nfiles < 1 then Some 0 else count_loop (\<lambda>a. S_ISDIR (st_mode (dstat (N a)))) xs 0 nfiles 0)"

definition countsubdirs :: "(addr \<Rightarrow> dnode) \<Rightarrow> dnarray \<Rightarrow> nat \<Rightarrow> nat option" where
  "countsubdirs N dn nfiles = (case dn of None \<Rightarrow> Some 0
     | Some (_, xs) \<Rightarrow> if nfiles < 1 then Some 0 else count_loop (\<lambda>a. is_subdir (N a)) xs 0 nfiles 0)"

text \<open>\<open>countfiles\<close> follows the chain from the first element of the array.\<close>

partial_function (option) chain_length :: "(addr \<Rightarrow> dnode) \<Rightarrow> addr \<Rightarrow> nat \<Rightarrow> nat option" where
  "chain_length N cur n = (if dn_next (N cur) \<noteq> NULL then chain_length N (dn_next (N cur)) (n + 1) else Some (n + 1))"

definition countfiles :: "(addr \<Rightarrow> dnode) \<Rightarrow> dnarray \<Rightarrow> nat option" where
  "countfiles N dnp = (case dnp of None \<Rightarrow> Some 0
     | Some (_, xs) \<Rightarrow> Option.bind (array_get xs 0) (\<lambda>cur. chain_length N cur 0))"

subsection \<open>Arrays\<close>

definition dnalloc :: "'s libc \<Rightarrow> 's \<Rightarrow> nat \<Rightarrow> (dnarray \<times> 's) outcome" where
  "dnalloc A s num =
     (if num < 1 then Inr (None, s)
      else bindE (xcalloc A s (of_nat num) sizeof_ptr) (\<lambda>(p, s1). Inr (Some (p, replicate num NULL), s1)))"

text \<open>\<open>dfree\<close>: the nodes from the first element of the array along the chain, then the array.\<close>

partial_function (option) dfree_chain :: "'s libc \<Rightarrow> (addr \<Rightarrow> dnode) \<Rightarrow> addr \<Rightarrow> 's \<Rightarrow> 's outcome option" where
  "dfree_chain A N cur s =
     (if cur = NULL then Some (Inr s)
      else (case (if fullname_at (N cur) \<noteq> NULL then lib_free A s (fullname_at (N cur)) else Inr s) of
              Inl e \<Rightarrow> Some (Inl e)
            | Inr s1 \<Rightarrow> (case lib_free A s1 cur of
                Inl e \<Rightarrow> Some (Inl e)
              | Inr s2 \<Rightarrow> dfree_chain A N (dn_next (N cur)) s2)))"

definition dfree :: "'s libc \<Rightarrow> (addr \<Rightarrow> dnode) \<Rightarrow> dnarray \<Rightarrow> 's \<Rightarrow> 's outcome" where
  "dfree A N dnp s = (case dnp of None \<Rightarrow> Inr s
     | Some (base, xs) \<Rightarrow> bindE (from_option (array_get xs 0)) (\<lambda>cur.
         bindE (case dfree_chain A N cur s of None \<Rightarrow> Inl Undefined | Some r \<Rightarrow> r) (\<lambda>s1. lib_free A s1 base)))"

datatype split_t = SPLIT_DIR | SPLIT_FILE | SPLIT_SUBDIR

fun split_keeps :: "split_t \<Rightarrow> dnode \<Rightarrow> bool" where
  "split_keeps SPLIT_DIR d = S_ISDIR (st_mode (dstat d))"
| "split_keeps SPLIT_SUBDIR d = is_subdir d"
| "split_keeps SPLIT_FILE d = (\<not> S_ISDIR (st_mode (dstat d)))"

text \<open>The copying loop; a write outside the new array (also through a \<open>NULL\<close> array) is undefined.\<close>

fun split_loop :: "(addr \<Rightarrow> bool) \<Rightarrow> addr list \<Rightarrow> nat \<Rightarrow> nat \<Rightarrow> dnarray \<Rightarrow> nat \<Rightarrow> dnarray option" where
  "split_loop P xs i 0 dnp d = Some dnp"
| "split_loop P xs i (Suc k) dnp d =
     Option.bind (array_get xs i) (\<lambda>a.
       if P a
       then (case dnp of None \<Rightarrow> None
             | Some (base, ys) \<Rightarrow> if d < length ys then split_loop P xs (i + 1) k (Some (base, ys[d := a])) (d + 1) else None)
       else split_loop P xs (i + 1) k dnp d)"

definition splitdnarray :: "'s libc \<Rightarrow> (addr \<Rightarrow> dnode) \<Rightarrow> 's \<Rightarrow> dnarray \<Rightarrow> nat \<Rightarrow> split_t \<Rightarrow> (dnarray \<times> 's) outcome" where
  "splitdnarray A N s dn nfiles which = (case dn of None \<Rightarrow> Inr (None, s)
     | Some (_, xs) \<Rightarrow>
         if nfiles < 1 then Inr (None, s)
         else bindE (from_option (if which = SPLIT_SUBDIR then countsubdirs N dn nfiles
                else map_option (\<lambda>n. if which = SPLIT_FILE then nfiles - n else n) (countdirs N dn nfiles))) (\<lambda>dncnt.
              bindE (dnalloc A s dncnt) (\<lambda>(dnp, s1).
              bindE (from_option (split_loop (\<lambda>a. split_keeps which (N a)) xs 0 nfiles dnp 0)) (\<lambda>r. Inr (r, s1)))))"

subsection \<open>Sorting\<close>

text \<open>The difference of two 64-bit values, cast to \<open>int\<close>.\<close>

definition to_int32 :: "int \<Rightarrow> int" where
  "to_int32 x = sint (word_of_int x :: 32 word)"

definition sortcmp :: "nat \<Rightarrow> u32 \<Rightarrow> dnode \<Rightarrow> dnode \<Rightarrow> int" where
  "sortcmp opts order d1 d2 =
     (let s1 = dstat d1; s2 = dstat d2;
          dif = (if opts = SORT_SIZE then to_int32 (st_size s1 - st_size s2)
                 else if opts = SORT_ATIME then to_int32 (st_atime s1 - st_atime s2)
                 else if opts = SORT_CTIME then to_int32 (st_ctime s1 - st_ctime s2)
                 else if opts = SORT_MTIME then to_int32 (st_mtime s1 - st_mtime s2)
                 else if opts = SORT_DIR then of_bool (S_ISDIR (st_mode s1)) - of_bool (S_ISDIR (st_mode s2))
                 else 0);
          cmp = (if dif > 0 then - 1 else if dif < 0 then 1
                 else if strcmp (name d1) (name d2) > 0 then 1
                 else if strcmp (name d1) (name d2) < 0 then - 1 else 0)
      in if order = SORT_REVERSE then - 1 * cmp else cmp)"

definition swap :: "'a list \<Rightarrow> nat \<Rightarrow> nat \<Rightarrow> 'a list" where
  "swap xs i j = xs[i := xs ! j, j := xs ! i]"

text \<open>The three loops of \<open>shellsort\<close>. The innermost starts at \<open>j = i - gap\<close>, where \<open>i\<close> is at least \<open>gap\<close>.\<close>

function shell_inner :: "('a \<Rightarrow> 'a \<Rightarrow> int) \<Rightarrow> nat \<Rightarrow> nat \<Rightarrow> 'a list \<Rightarrow> 'a list" where
  "shell_inner cmp gap j xs =
     (if cmp (xs ! j) (xs ! (j + gap)) \<le> 0 then xs
      else if j < gap \<or> gap = 0 then swap xs j (j + gap)
      else shell_inner cmp gap (j - gap) (swap xs j (j + gap)))"
  by auto
termination by (relation "measure (\<lambda>(cmp, gap, j, xs). j)") auto

declare shell_inner.simps [simp del]

definition shell_pass :: "('a \<Rightarrow> 'a \<Rightarrow> int) \<Rightarrow> nat \<Rightarrow> 'a list \<Rightarrow> 'a list" where
  "shell_pass cmp gap xs = fold (\<lambda>i. shell_inner cmp gap (i - gap)) [gap..<length xs] xs"

fun shell_gaps :: "('a \<Rightarrow> 'a \<Rightarrow> int) \<Rightarrow> nat \<Rightarrow> 'a list \<Rightarrow> 'a list" where
  "shell_gaps cmp gap xs = (if gap = 0 then xs else shell_gaps cmp (gap div 2) (shell_pass cmp gap xs))"

declare shell_gaps.simps [simp del]

text \<open>The array holds at least \<open>n\<close> pointers; the first \<open>n\<close> are sorted.\<close>

definition shellsort :: "('a \<Rightarrow> 'a \<Rightarrow> int) \<Rightarrow> 'a list \<Rightarrow> nat \<Rightarrow> 'a list" where
  "shellsort cmp xs n =
     (if n < 2 then xs else shell_gaps cmp (n div 2) (take n xs) @ drop n xs)"

definition sort_array :: "'s ls \<Rightarrow> dnarray \<Rightarrow> nat \<Rightarrow> dnarray" where
  "sort_array S dn n =
     map_option (\<lambda>(base, xs). (base, shellsort (\<lambda>a b. sortcmp (sort_opts S) (sort_order S) (dn_at S a) (dn_at S b)) xs n)) dn"

end
