(* ===== verification/Ls_Show.thy ===== *)
theory Ls_Show
  imports Ls_Node
begin

text \<open>
  The output of \<open>src/ls.c\<close>: columns and tab stops, the line of one file (\<open>list_single\<close>) and the table of
  many (\<open>showfiles\<close>). What the operating system answers is the record \<open>ls_env\<close>: the file system, the
  clock, the user data base and the terminal; a failing \<open>stat\<close> gives the value of \<open>errno\<close>.
\<close>

record ls_env =
  env_stat :: "string \<Rightarrow> nat + stat_t"
  env_lstat :: "string \<Rightarrow> nat + stat_t"
  env_readdir :: "string \<Rightarrow> string list option"
  env_readlink :: "string \<Rightarrow> string option"
  env_ctime :: "int \<Rightarrow> string"
  env_now :: int
  env_user :: "int \<Rightarrow> string option"
  env_group :: "int \<Rightarrow> string option"
  env_tty :: bool
  env_rows :: "16 word"
  env_cols :: "16 word"

definition COLUMN_WIDTH :: "16 word" where "COLUMN_WIDTH = 14"
definition COLUMN_GAP :: "16 word" where "COLUMN_GAP = 2"

definition LIST_INO :: u32 where "LIST_INO = 0x1"
definition LIST_BLOCKS :: u32 where "LIST_BLOCKS = 0x2"
definition LIST_MODEBITS :: u32 where "LIST_MODEBITS = 0x4"
definition LIST_NLINKS :: u32 where "LIST_NLINKS = 0x8"
definition LIST_ID_NAME :: u32 where "LIST_ID_NAME = 0x10"
definition LIST_ID_NUMERIC :: u32 where "LIST_ID_NUMERIC = 0x20"
definition LIST_SIZE :: u32 where "LIST_SIZE = 0x40"
definition LIST_DEV :: u32 where "LIST_DEV = 0x80"
definition LIST_DATE_TIME :: u32 where "LIST_DATE_TIME = 0x100"
definition LIST_FULLTIME :: u32 where "LIST_FULLTIME = 0x200"
definition LIST_FILENAME :: u32 where "LIST_FILENAME = 0x400"
definition LIST_SYMLINK :: u32 where "LIST_SYMLINK = 0x800"
definition LIST_FILETYPE :: u32 where "LIST_FILETYPE = 0x1000"
definition LIST_EXEC :: u32 where "LIST_EXEC = 0x2000"

lemmas list_masks = LIST_INO_def LIST_BLOCKS_def LIST_MODEBITS_def LIST_NLINKS_def LIST_ID_NAME_def
  LIST_ID_NUMERIC_def LIST_SIZE_def LIST_DEV_def LIST_DATE_TIME_def LIST_FULLTIME_def LIST_FILENAME_def
  LIST_SYMLINK_def LIST_FILETYPE_def LIST_EXEC_def

definition TIME_CHANGE :: u32 where "TIME_CHANGE = 1"
definition TIME_ACCESS :: u32 where "TIME_ACCESS = 2"

definition MAJOR :: "64 word \<Rightarrow> int" where "MAJOR dev = uint (drop_bit 8 dev AND 0xff)"
definition MINOR :: "64 word \<Rightarrow> int" where "MINOR dev = uint (dev AND 0xff)"

text \<open>The static variables when the program starts.\<close>

definition ls_start :: "'s \<Rightarrow> 's ls" where
  "ls_start l = \<lparr>disp_opts = 0, style_fmt = 0, list_fmt = 0, sort_opts = 0, sort_order = 0, time_fmt = 0,
     follow_links = False, column = 0, terminal_width = 80, column_width = COLUMN_WIDTH, tabstops = COLUMN_GAP,
     nexttab = 0, status = 0, ls_disp_hr = False, show_color = False, errno = 0, ls_lib = l,
     dn_at = (\<lambda>_. \<lparr>name_off = 0, fullname_at = NULL, fullname = [], dstat = \<lparr>st_mode = 0, st_ino = 0, st_nlink = 0,
       st_uid = 0, st_gid = 0, st_rdev = 0, st_size = 0, st_blocks = 0, st_atime = 0, st_mtime = 0, st_ctime = 0\<rparr>,
       dn_next = NULL\<rparr>),
     out = []\<rparr>"

text \<open>Output, and the count of columns the code keeps beside it.\<close>

definition put :: "string \<Rightarrow> 's ls \<Rightarrow> 's ls" where
  "put s S = S\<lparr>out := out S @ s\<rparr>"

definition add_column :: "nat \<Rightarrow> 's ls \<Rightarrow> 's ls" where
  "add_column n S = S\<lparr>column := column S + of_nat n\<rparr>"

definition newline :: "'s ls \<Rightarrow> 's ls" where
  "newline S = (if column S > 0 then put [newline_char] S\<lparr>column := 0\<rparr> else S)"

definition nexttabstop :: "'s ls \<Rightarrow> 's ls" where
  "nexttabstop S =
     (let S1 = (if column S > 0
                then (let n = (let k = sint (nexttab S) - uint (column S) in if k < 1 then 1 else k)
                      in add_column (nat n) (put (replicate (nat n) CHR '' '') S))
                else S)
      in S1\<lparr>nexttab := column S1 + column_width S1 + COLUMN_GAP\<rparr>)"

definition append_char :: "u32 \<Rightarrow> mode_t \<Rightarrow> char" where
  "append_char fmt mode =
     (if fmt AND LIST_FILETYPE = 0 then CHR 0x00
      else if fmt AND LIST_EXEC \<noteq> 0 \<and> S_ISREG mode \<and> mode AND exec_bits \<noteq> 0 then CHR ''*''
      else APPCHAR mode)"

definition my_getpwuid :: "ls_env \<Rightarrow> int \<Rightarrow> string" where
  "my_getpwuid E uid = (case env_user E uid of None \<Rightarrow> pad_right 8 (show_int uid) @ '' '' | Some n \<Rightarrow> n)"

definition my_getgrgid :: "ls_env \<Rightarrow> int \<Rightarrow> string" where
  "my_getgrgid E gid = (case env_group E gid of None \<Rightarrow> pad_right 8 (show_int gid) @ '' '' | Some n \<Rightarrow> n)"

subsection \<open>One file\<close>

text \<open>The escape sequence that sets the colours of \<open>mode\<close>.\<close>

definition put_color :: "mode_t \<Rightarrow> 's ls \<Rightarrow> 's ls" where
  "put_color mode S =
     (let (fg, e) = fgcolor (errno S) mode
      in put ([CHR 0x1B] @ ''['' @ digits (bgcolor mode) @ '';'' @ digits fg @ ''m'') (S\<lparr>errno := e\<rparr>))"

definition put_reset :: "'s ls \<Rightarrow> 's ls" where
  "put_reset S = put ([CHR 0x1B] @ ''[0m'') S"

definition put_blocks :: "int \<Rightarrow> 's ls \<Rightarrow> 's ls" where
  "put_blocks blocks S =
     (let half = blocks div 2;
          du = (if ls_disp_hr S then 0 else of_nat KILOBYTE)
      in add_column 5 (put (pad_left 6 (make_human_readable_str (word_of_int half) (of_nat KILOBYTE) du) @ '' '' @
           pad_left 4 (show_int half) @ '' '' @ pad_left 4 (show_int half) @ '' '') S))"

definition put_size :: "stat_t \<Rightarrow> 's ls \<Rightarrow> 's ls" where
  "put_size st S = add_column 10
     (if S_ISBLK (st_mode st) \<or> S_ISCHR (st_mode st)
      then put (pad_left 4 (show_int (MAJOR (st_rdev st))) @ '', '' @ pad_left 3 (show_int (MINOR (st_rdev st))) @ '' '') S
      else if ls_disp_hr S then put (pad_left 8 (make_human_readable_str (word_of_int (st_size st)) 1 0) @ '' '') S
      else put (pad_left 9 (show_int (st_size st)) @ '' '' @ pad_left 9 (show_int (st_size st)) @ '' '') S)"

definition put_time :: "ls_env \<Rightarrow> int \<Rightarrow> 's ls \<Rightarrow> 's ls" where
  "put_time E ttime S =
     (let filetime = env_ctime E ttime; age = env_now E - ttime
      in if list_fmt S AND LIST_FULLTIME \<noteq> 0 then add_column 25 (put (pad_left 24 (take 24 filetime) @ '' '') S)
         else add_column 13 (put (pad_left 6 (take 6 (drop 4 filetime)) @ '' '' @
           (if age < 3600 * 24 * 365 div 2 \<and> age > - 15 * 60 then pad_left 5 (take 5 (drop 11 filetime)) @ '' ''
            else '' '' @ pad_left 4 (take 4 (drop 20 filetime)) @ '' '')) S))"

text \<open>\<open>info\<close> is the local \<open>struct stat\<close>, \<open>None\<close> while it is not initialised.\<close>

definition put_name :: "ls_env \<Rightarrow> dnode \<Rightarrow> stat_t option \<Rightarrow> 's ls \<Rightarrow> 's ls \<times> stat_t option" where
  "put_name E d info S0 =
     (let S = S0\<lparr>errno := 0\<rparr>;
          (S1, info1) = (if show_color S
             then (case env_lstat E (fullname d) of Inl e \<Rightarrow> (S\<lparr>errno := e\<rparr>, info) | Inr st \<Rightarrow> (put_color (st_mode st) S, Some st))
             else (S, info));
          S2 = put (name d) S1;
          S3 = (if show_color S2 then put_reset S2 else S2)
      in (add_column (length (name d)) S3, info1))"

definition put_target :: "ls_env \<Rightarrow> dnode \<Rightarrow> char \<Rightarrow> stat_t option \<Rightarrow> string \<Rightarrow> 's ls \<Rightarrow> ('s ls \<times> char \<times> stat_t option) outcome" where
  "put_target E d app info text S =
     (let S1 = put '' -> '' S;
          (S2, app2, info2) = (case env_stat E (fullname d) of
               Inl e \<Rightarrow> (S1\<lparr>errno := e\<rparr>, app, info)
             | Inr st \<Rightarrow> (S1, append_char (list_fmt S1) (st_mode st), Some st))
      in bindE (if show_color S2
                then (case info2 of None \<Rightarrow> Inl Undefined | Some st \<Rightarrow> Inr (put_color (st_mode st) (S2\<lparr>errno := 0\<rparr>)))
                else Inr S2) (\<lambda>S3.
         let S4 = put text S3; S5 = (if show_color S4 then put_reset S4 else S4)
         in Inr (add_column (length text + 4) S5, app2, info2)))"

definition put_link :: "ls_env \<Rightarrow> 's libc \<Rightarrow> dnode \<Rightarrow> char \<Rightarrow> stat_t option \<Rightarrow> 's ls \<Rightarrow> ('s ls \<times> char \<times> stat_t option) outcome" where
  "put_link E A d app info S =
     (if \<not> S_ISLNK (st_mode (dstat d)) then Inr (S, app, info)
      else bindE (xreadlink A (ls_lib S) (fullname d) (env_readlink E (fullname d))) (\<lambda>(lpath, l1).
        case lpath of
          None \<Rightarrow> Inr (S\<lparr>ls_lib := l1\<rparr>, app, info)
        | Some (lp, text) \<Rightarrow>
            bindE (put_target E d app info text (S\<lparr>ls_lib := l1\<rparr>)) (\<lambda>(S6, app2, info2).
            bindE (lib_free A (ls_lib S6) lp) (\<lambda>l2. Inr (S6\<lparr>ls_lib := l2\<rparr>, app2, info2)))))"

text \<open>The \<open>switch\<close> on bit \<open>i\<close> of \<open>list_fmt\<close>; bits without a \<open>case\<close> print nothing.\<close>

definition list_item :: "ls_env \<Rightarrow> 's libc \<Rightarrow> int \<Rightarrow> dnode \<Rightarrow> nat \<Rightarrow> 's ls \<times> char \<times> stat_t option \<Rightarrow>
    ('s ls \<times> char \<times> stat_t option) outcome" where
  "list_item E A ttime d i = (\<lambda>(S, app, info).
     let st = dstat d; bits = list_fmt S AND push_bit i 1
     in if bits = LIST_INO then Inr (add_column 8 (put (pad_left 7 (show_int (st_ino st)) @ '' '') S), app, info)
        else if bits = LIST_BLOCKS then Inr (put_blocks (st_blocks st) S, app, info)
        else if bits = LIST_MODEBITS then Inr (add_column 10 (put (pad_right 10 (mode_string (st_mode st)) @ '' '') S), app, info)
        else if bits = LIST_NLINKS then Inr (add_column 10 (put (pad_left 4 (show_int (st_nlink st)) @ '' '') S), app, info)
        else if bits = LIST_ID_NAME
        then Inr (add_column 17 (put (pad_right 8 (take 8 (my_getpwuid E (st_uid st))) @ '' '' @
               pad_right 8 (take 8 (my_getgrgid E (st_gid st)))) S), app, info)
        else if bits = LIST_ID_NUMERIC
        then Inr (add_column 17 (put (pad_right 8 (show_int (st_uid st)) @ '' '' @ pad_right 8 (show_int (st_gid st))) S), app, info)
        else if bits = LIST_SIZE \<or> bits = LIST_DEV then Inr (put_size st S, app, info)
        else if bits = LIST_FULLTIME \<or> bits = LIST_DATE_TIME then Inr (put_time E ttime S, app, info)
        else if bits = LIST_FILENAME then (case put_name E d info S of (S1, info1) \<Rightarrow> Inr (S1, app, info1))
        else if bits = LIST_SYMLINK then put_link E A d app info S
        else if bits = LIST_FILETYPE
        then Inr (if app \<noteq> CHR 0x00 then add_column 1 (put [app] S) else S, app, info)
        else Inr (S, app, info))"

definition list_single :: "ls_env \<Rightarrow> 's libc \<Rightarrow> addr \<Rightarrow> 's ls \<Rightarrow> 's ls outcome" where
  "list_single E A dn S =
     (let d = dn_at S dn
      in if dn = NULL \<or> fullname_at d = NULL then Inr S
         else (let st = dstat d;
                   t0 = st_mtime st;
                   t1 = (if time_fmt S AND TIME_ACCESS \<noteq> 0 then st_atime st else t0);
                   ttime = (if time_fmt S AND TIME_CHANGE \<noteq> 0 then st_ctime st else t1)
               in bindE (foldE (list_item E A ttime d) [0..<32] (S, append_char (list_fmt S) (st_mode st), None))
                    (\<lambda>(S1, _, _). Inr S1)))"

subsection \<open>Many files\<close>

definition STYLE_AUTO :: nat where "STYLE_AUTO = 0"
definition STYLE_LONG :: nat where "STYLE_LONG = 1"
definition STYLE_SINGLE :: nat where "STYLE_SINGLE = 2"
definition STYLE_COLUMNS :: nat where "STYLE_COLUMNS = 3"

definition DISP_DIRNAME :: u32 where "DISP_DIRNAME = 0x1"
definition DISP_HIDDEN :: u32 where "DISP_HIDDEN = 0x2"
definition DISP_DOT :: u32 where "DISP_DOT = 0x4"
definition DISP_NOLIST :: u32 where "DISP_NOLIST = 0x8"
definition DISP_RECURSIVE :: u32 where "DISP_RECURSIVE = 0x10"
definition DISP_ROWS :: u32 where "DISP_ROWS = 0x20"

lemmas disp_masks = DISP_DIRNAME_def DISP_HIDDEN_def DISP_DOT_def DISP_NOLIST_def DISP_RECURSIVE_def DISP_ROWS_def

text \<open>The longest entry becomes the column width; the assignment keeps the low 16 bits.\<close>

fun widest :: "'s ls \<Rightarrow> addr list \<Rightarrow> nat \<Rightarrow> nat \<Rightarrow> 16 word \<Rightarrow> 16 word option" where
  "widest S xs i 0 w = Some w"
| "widest S xs i (Suc k) w =
     Option.bind (array_get xs i) (\<lambda>d.
       let len = length (name (dn_at S d)) + (if list_fmt S AND LIST_INO \<noteq> 0 then 8 else 0) +
                 (if list_fmt S AND LIST_BLOCKS \<noteq> 0 then 5 else 0)
       in widest S xs (i + 1) k (if unat w < len then of_nat len else w))"

text \<open>Columns and rows of the table of \<open>n\<close> files.\<close>

definition table_shape :: "nat \<Rightarrow> nat \<Rightarrow> nat \<times> nat" where
  "table_shape n ncols0 =
     (let (nrows, ncols) = (if ncols0 > 1 then (n div ncols0, ncols0) else (n, 1));
          nrows1 = (if nrows * ncols < n then nrows + 1 else nrows)
      in (if nrows1 > n then n else nrows1, ncols))"

definition cell :: "bool \<Rightarrow> nat \<Rightarrow> nat \<Rightarrow> nat \<Rightarrow> nat \<Rightarrow> nat" where
  "cell rows nrows ncols row nc = (if rows then row * ncols + nc else nc * nrows + row)"

definition show_cell :: "ls_env \<Rightarrow> 's libc \<Rightarrow> addr list \<Rightarrow> nat \<Rightarrow> nat \<Rightarrow> 's ls \<Rightarrow> 's ls outcome" where
  "show_cell E A xs n i S =
     (if i < n then bindE (from_option (array_get xs i)) (\<lambda>d. list_single E A d (nexttabstop S)) else Inr S)"

definition show_row :: "ls_env \<Rightarrow> 's libc \<Rightarrow> addr list \<Rightarrow> nat \<Rightarrow> nat \<Rightarrow> nat \<Rightarrow> nat \<Rightarrow> 's ls \<Rightarrow> 's ls outcome" where
  "show_row E A xs n nrows ncols row S =
     bindE (foldE (\<lambda>nc T. show_cell E A xs n (cell (disp_opts T AND DISP_ROWS \<noteq> 0) nrows ncols row nc) T) [0..<ncols] S)
       (\<lambda>T. Inr (newline T))"

definition showfiles :: "ls_env \<Rightarrow> 's libc \<Rightarrow> dnarray \<Rightarrow> nat \<Rightarrow> 's ls \<Rightarrow> 's ls outcome" where
  "showfiles E A dn n S = (case dn of None \<Rightarrow> Inr S
     | Some (_, xs) \<Rightarrow>
         if n < 1 then Inr S
         else bindE (from_option (widest S xs 0 n 0)) (\<lambda>w.
           let (S1, ncols) = (if w \<ge> 1 then (S\<lparr>column_width := w\<rparr>, unat (terminal_width S) div (unat w + unat COLUMN_GAP))
                              else (S\<lparr>column_width := COLUMN_WIDTH\<rparr>, 1));
               ncols1 = (if style_fmt S1 = STYLE_LONG \<or> style_fmt S1 = STYLE_SINGLE then 1 else ncols);
               (nrows, ncols2) = table_shape n ncols1
           in foldE (show_row E A xs n nrows ncols2) [0..<nrows] S1))"

end
