(* ===== verification/Ls_Main.thy ===== *)
theory Ls_Main
  imports Ls_Show
begin

text \<open>
  Reading directories, the recursion over them, the command line and \<open>ls_main\<close> of \<open>src/ls.c\<close>. The recursion
  of \<open>showdirs\<close> takes a bound on its depth; \<open>None\<close> means that the bound does not suffice. \<open>getopt\<close> is libc: its
  results, the option characters with their arguments and then the remaining arguments, are the input.
\<close>

definition LIST_SHORT :: u32 where "LIST_SHORT = LIST_FILENAME"
definition LIST_LONG :: u32 where
  "LIST_LONG = LIST_MODEBITS OR LIST_NLINKS OR LIST_ID_NAME OR LIST_SIZE OR LIST_DATE_TIME OR LIST_FILENAME OR LIST_SYMLINK"

definition SORT_NAME :: nat where "SORT_NAME = 2"
definition SORT_VERSION :: nat where "SORT_VERSION = 7"
definition SORT_EXT :: nat where "SORT_EXT = 8"

subsection \<open>Reading a directory\<close>

definition my_stat :: "ls_env \<Rightarrow> 's libc \<Rightarrow> addr \<Rightarrow> 's ls \<Rightarrow> (int \<times> 's ls) outcome" where
  "my_stat E A cur S =
     (let d = dn_at S cur
      in case (if follow_links S then env_stat E (fullname d) else env_lstat E (fullname d)) of
           Inr st \<Rightarrow> Inr (0, S\<lparr>dn_at := (dn_at S)(cur := d\<lparr>dstat := st\<rparr>)\<rparr>)
         | Inl e \<Rightarrow> bindE (perror_msg [Some ''ls: '', Some (fullname d), None]) (\<lambda>_.
             bindE (lib_free A (ls_lib S) (fullname_at d)) (\<lambda>l1.
             bindE (lib_free A l1 cur) (\<lambda>l2. Inr (- 1, S\<lparr>errno := e, status := 1, ls_lib := l2\<rparr>)))))"

text \<open>Making the node \<open>cur\<close> the new head of the chain, unless \<open>my_stat\<close> fails.\<close>

definition chain_node :: "ls_env \<Rightarrow> 's libc \<Rightarrow> addr \<Rightarrow> addr \<times> nat \<times> 's ls \<Rightarrow> (addr \<times> nat \<times> 's ls) outcome" where
  "chain_node E A cur = (\<lambda>(dn, nfiles, S).
     bindE (my_stat E A cur S) (\<lambda>(r, S1).
       if r \<noteq> 0 then Inr (dn, nfiles, S1)
       else Inr (cur, nfiles + 1, S1\<lparr>dn_at := (dn_at S1)(cur := (dn_at S1 cur)\<lparr>dn_next := dn\<rparr>)\<rparr>)))"

text \<open>The body of the \<open>readdir\<close> loop.\<close>

definition visit_entry :: "ls_env \<Rightarrow> 's libc \<Rightarrow> string \<Rightarrow> string \<Rightarrow> addr \<times> nat \<times> 's ls \<Rightarrow> (addr \<times> nat \<times> 's ls) outcome" where
  "visit_entry E A path d_name = (\<lambda>(dn, nfiles, S).
     if strcmp d_name ''.'' = 0 \<and> disp_opts S AND DISP_DOT = 0 then Inr (dn, nfiles, S)
     else if strcmp d_name ''..'' = 0 \<and> disp_opts S AND DISP_DOT = 0 then Inr (dn, nfiles, S)
     else if (d_name \<noteq> [] \<and> hd d_name = CHR ''.'') \<and> disp_opts S AND DISP_HIDDEN = 0 then Inr (dn, nfiles, S)
     else bindE (xmalloc A (ls_lib S) sizeof_dnode) (\<lambda>(cur, l1).
          bindE (concat_path_file A l1 (Some path) d_name) (\<lambda>(fa, full, l2).
            chain_node E A cur (dn, nfiles, S\<lparr>ls_lib := l2, dn_at := (dn_at S)(cur := (dn_at S cur)
              \<lparr>fullname_at := fa, fullname := full, name_off := length full - length d_name\<rparr>)\<rparr>))))"

text \<open>The array of the nodes along the chain.\<close>

fun fill_nodes :: "(addr \<Rightarrow> dnode) \<Rightarrow> addr \<Rightarrow> nat \<Rightarrow> addr list option" where
  "fill_nodes N cur 0 = Some []"
| "fill_nodes N cur (Suc k) = (if cur = NULL then None else map_option (Cons cur) (fill_nodes N (dn_next (N cur)) k))"

definition node_array :: "'s libc \<Rightarrow> addr \<Rightarrow> nat \<Rightarrow> 's ls \<Rightarrow> (dnarray \<times> 's ls) outcome" where
  "node_array A dn nfiles S =
     bindE (dnalloc A (ls_lib S) nfiles) (\<lambda>(dnp, l1).
     bindE (from_option (fill_nodes (dn_at S) dn nfiles)) (\<lambda>xs.
       Inr (map_option (\<lambda>(base, _). (base, xs)) dnp, S\<lparr>ls_lib := l1\<rparr>)))"

definition list_dir :: "ls_env \<Rightarrow> 's libc \<Rightarrow> string option \<Rightarrow> 's ls \<Rightarrow> (dnarray \<times> 's ls) outcome" where
  "list_dir E A path0 S = (case path0 of None \<Rightarrow> Inr (None, S)
     | Some path \<Rightarrow> (case env_readdir E path of
         None \<Rightarrow> bindE (perror_msg [Some ''ls: '', Some path, None]) (\<lambda>_. Inr (None, S\<lparr>status := 1\<rparr>))
       | Some entries \<Rightarrow>
           bindE (foldE (visit_entry E A path) entries (NULL, 0, S)) (\<lambda>(dn, nfiles, S1).
             if nfiles < 1 then Inr (None, S1) else node_array A dn nfiles S1)))"

subsection \<open>The recursion\<close>

definition bindO :: "'a outcome option \<Rightarrow> ('a \<Rightarrow> 'b outcome option) \<Rightarrow> 'b outcome option" where
  "bindO m f = (case m of None \<Rightarrow> None | Some (Inl e) \<Rightarrow> Some (Inl e) | Some (Inr x) \<Rightarrow> f x)"

lemma bindO_cong [fundef_cong]: "m = m' \<Longrightarrow> (\<And>x. m' = Some (Inr x) \<Longrightarrow> f x = g x) \<Longrightarrow> bindO m f = bindO m' g"
  by (auto simp: bindO_def split: option.splits sum.splits)

lemma bindO_simps [simp]:
  "bindO None f = None" "bindO (Some (Inl e)) f = Some (Inl e)" "bindO (Some (Inr x)) f = f x"
  by (simp_all add: bindO_def)

definition free_array :: "'s libc \<Rightarrow> dnarray \<Rightarrow> 's ls \<Rightarrow> 's ls outcome" where
  "free_array A dn S = bindE (lib_free A (ls_lib S) (case dn of None \<Rightarrow> NULL | Some (base, _) \<Rightarrow> base)) (\<lambda>l. Inr (S\<lparr>ls_lib := l\<rparr>))"

fun showdirs :: "ls_env \<Rightarrow> 's libc \<Rightarrow> nat \<Rightarrow> dnarray \<Rightarrow> nat \<Rightarrow> 's ls \<Rightarrow> 's ls outcome option"
and show_dir_list :: "ls_env \<Rightarrow> 's libc \<Rightarrow> nat \<Rightarrow> addr list \<Rightarrow> 's ls \<Rightarrow> 's ls outcome option" where
  "showdirs E A 0 dn ndirs S = None"
| "showdirs E A (Suc depth) dn ndirs S = (case dn of None \<Rightarrow> Some (Inr S)
     | Some (_, xs) \<Rightarrow> if ndirs < 1 then Some (Inr S)
         else if length xs < ndirs then Some (Inl Undefined)
         else show_dir_list E A depth (take ndirs xs) S)"
| "show_dir_list E A depth [] S = Some (Inr S)"
| "show_dir_list E A depth (x # xs) S =
     (let full = fullname (dn_at S x);
          S1 = (if disp_opts S AND (DISP_DIRNAME OR DISP_RECURSIVE) \<noteq> 0
                then put ([newline_char] @ full @ '':'' @ [newline_char]) S else S)
      in bindO (bindO (Some (list_dir E A (Some full) S1)) (\<lambda>(subdnp, S2).
           bindO (Some (from_option (countfiles (dn_at S2) subdnp))) (\<lambda>nfiles.
             if nfiles > 0
             then (let subdnp1 = sort_array S2 subdnp nfiles
                   in bindO (Some (showfiles E A subdnp1 nfiles S2)) (\<lambda>S3.
                      bindO (if disp_opts S3 AND DISP_RECURSIVE \<noteq> 0
                             then bindO (Some (splitdnarray A (dn_at S3) (ls_lib S3) subdnp1 nfiles SPLIT_SUBDIR)) (\<lambda>(dnd, l).
                                  bindO (Some (from_option (countsubdirs (dn_at S3) subdnp1 nfiles))) (\<lambda>dndirs.
                                    if dndirs > 0
                                    then bindO (showdirs E A depth (sort_array S3 dnd dndirs) dndirs (S3\<lparr>ls_lib := l\<rparr>)) (\<lambda>S5.
                                           Some (free_array A dnd S5))
                                    else Some (Inr (S3\<lparr>ls_lib := l\<rparr>))))
                             else Some (Inr S3)) (\<lambda>S6.
                      bindO (Some (dfree A (dn_at S6) subdnp1 (ls_lib S6))) (\<lambda>l. Some (Inr (S6\<lparr>ls_lib := l\<rparr>))))))
             else Some (Inr S2)))) (show_dir_list E A depth xs))"

subsection \<open>The command line\<close>

text \<open>\<open>atoi\<close> of libc.\<close>

fun dec_value :: "string \<Rightarrow> int \<Rightarrow> int" where
  "dec_value [] acc = acc"
| "dec_value (c # cs) acc =
     (let k = (of_char c :: nat) in if 48 \<le> k \<and> k \<le> 57 then dec_value cs (10 * acc + int (k - 48)) else acc)"

definition atoi :: "string \<Rightarrow> int" where
  "atoi s = (let t = dropWhile (\<lambda>c. c \<in> set '' '' \<or> (9 \<le> (of_char c :: nat) \<and> (of_char c :: nat) \<le> 13)) s
     in case t of [] \<Rightarrow> 0
        | c # cs \<Rightarrow> if c = CHR ''-'' then - dec_value cs 0 else if c = CHR ''+'' then dec_value cs 0 else dec_value t 0)"

text \<open>The \<open>switch\<close> of \<open>ls_main\<close>; \<open>None\<close> is the jump to the usage message.\<close>

definition apply_opt :: "char \<times> string \<Rightarrow> 's ls \<Rightarrow> 's ls option" where
  "apply_opt = (\<lambda>(opt, optarg) S.
     if opt = CHR ''1'' then Some (S\<lparr>style_fmt := STYLE_SINGLE\<rparr>)
     else if opt = CHR ''A'' then Some (S\<lparr>disp_opts := disp_opts S OR DISP_HIDDEN\<rparr>)
     else if opt = CHR ''a'' then Some (S\<lparr>disp_opts := disp_opts S OR (DISP_HIDDEN OR DISP_DOT)\<rparr>)
     else if opt = CHR ''C'' then Some (S\<lparr>style_fmt := STYLE_COLUMNS\<rparr>)
     else if opt = CHR ''d'' then Some (S\<lparr>disp_opts := disp_opts S OR DISP_NOLIST\<rparr>)
     else if opt = CHR ''g'' then Some S
     else if opt = CHR ''i'' then Some (S\<lparr>list_fmt := list_fmt S OR LIST_INO\<rparr>)
     else if opt = CHR ''l'' then Some (S\<lparr>style_fmt := STYLE_LONG, list_fmt := list_fmt S OR LIST_LONG, ls_disp_hr := False\<rparr>)
     else if opt = CHR ''n'' then Some (S\<lparr>list_fmt := list_fmt S OR LIST_ID_NUMERIC\<rparr>)
     else if opt = CHR ''s'' then Some (S\<lparr>list_fmt := list_fmt S OR LIST_BLOCKS\<rparr>)
     else if opt = CHR ''x'' then Some (S\<lparr>disp_opts := DISP_ROWS\<rparr>)
     else if opt = CHR ''F'' then Some (S\<lparr>list_fmt := list_fmt S OR (LIST_FILETYPE OR LIST_EXEC)\<rparr>)
     else if opt = CHR ''p'' then Some (S\<lparr>list_fmt := list_fmt S OR LIST_FILETYPE\<rparr>)
     else if opt = CHR ''R'' then Some (S\<lparr>disp_opts := disp_opts S OR DISP_RECURSIVE\<rparr>)
     else if opt = CHR ''r'' then Some (S\<lparr>sort_order := sort_order S OR SORT_REVERSE\<rparr>)
     else if opt = CHR ''S'' then Some (S\<lparr>sort_opts := SORT_SIZE\<rparr>)
     else if opt = CHR ''v'' then Some (S\<lparr>sort_opts := SORT_VERSION\<rparr>)
     else if opt = CHR ''X'' then Some (S\<lparr>sort_opts := SORT_EXT\<rparr>)
     else if opt = CHR ''e'' then Some (S\<lparr>list_fmt := list_fmt S OR LIST_FULLTIME\<rparr>)
     else if opt = CHR ''c'' then Some (S\<lparr>time_fmt := TIME_CHANGE, sort_opts := SORT_CTIME\<rparr>)
     else if opt = CHR ''u'' then Some (S\<lparr>time_fmt := TIME_ACCESS, sort_opts := SORT_ATIME\<rparr>)
     else if opt = CHR ''t'' then Some (S\<lparr>sort_opts := SORT_MTIME\<rparr>)
     else if opt = CHR ''L'' then Some (S\<lparr>follow_links := True\<rparr>)
     else if opt = CHR ''T'' then Some (S\<lparr>tabstops := word_of_int (atoi optarg)\<rparr>)
     else if opt = CHR ''w'' then Some (S\<lparr>terminal_width := word_of_int (atoi optarg)\<rparr>)
     else if opt = CHR ''h'' then Some (S\<lparr>ls_disp_hr := True\<rparr>)
     else if opt = CHR ''k'' then Some S
     else None)"

fun apply_opts :: "(char \<times> string) list \<Rightarrow> 's ls \<Rightarrow> 's ls option" where
  "apply_opts [] S = Some S"
| "apply_opts (p # ps) S = Option.bind (apply_opt p S) (apply_opts ps)"

definition default_opts :: "ls_env \<Rightarrow> 's ls \<Rightarrow> 's ls" where
  "default_opts E S =
     (let S1 = S\<lparr>disp_opts := 0, style_fmt := STYLE_AUTO, list_fmt := LIST_SHORT, sort_opts := SORT_NAME,
                 sort_order := 0, time_fmt := 0\<rparr>;
          S2 = (if env_rows E > 4 then S1\<lparr>column_width := env_rows E - 2\<rparr> else S1);
          S3 = (if env_cols E > 0 then S2\<lparr>terminal_width := env_cols E - 1\<rparr> else S2)
      in if env_tty E then S3\<lparr>show_color := True\<rparr> else S3)"

definition settle_opts :: "ls_env \<Rightarrow> 's ls \<Rightarrow> 's ls" where
  "settle_opts E S =
     (let S1 = (if disp_opts S AND DISP_NOLIST \<noteq> 0 then S\<lparr>disp_opts := disp_opts S AND NOT DISP_RECURSIVE\<rparr> else S);
          S2 = (if time_fmt S1 AND TIME_CHANGE \<noteq> 0 then S1\<lparr>sort_opts := SORT_CTIME\<rparr> else S1);
          S3 = (if time_fmt S2 AND TIME_ACCESS \<noteq> 0 then S2\<lparr>sort_opts := SORT_ATIME\<rparr> else S2);
          S4 = (if style_fmt S3 \<noteq> STYLE_LONG then S3\<lparr>list_fmt := list_fmt S3 AND NOT LIST_ID_NUMERIC\<rparr> else S3);
          S5 = (if style_fmt S4 = STYLE_LONG \<and> list_fmt S4 AND LIST_ID_NUMERIC \<noteq> 0
                then S4\<lparr>list_fmt := list_fmt S4 AND NOT LIST_ID_NAME\<rparr> else S4)
      in if style_fmt S5 = STYLE_AUTO then S5\<lparr>style_fmt := if env_tty E then STYLE_COLUMNS else STYLE_SINGLE\<rparr> else S5)"

text \<open>A node for one argument of the command line.\<close>

definition visit_arg :: "ls_env \<Rightarrow> 's libc \<Rightarrow> string \<Rightarrow> addr \<times> nat \<times> 's ls \<Rightarrow> (addr \<times> nat \<times> 's ls) outcome" where
  "visit_arg E A arg = (\<lambda>(dn, nfiles, S).
     bindE (xmalloc A (ls_lib S) sizeof_dnode) (\<lambda>(cur, l1).
     bindE (xstrdup A l1 arg) (\<lambda>(fa, l2).
       chain_node E A cur (dn, nfiles, S\<lparr>ls_lib := l2, dn_at := (dn_at S)(cur := (dn_at S cur)
         \<lparr>fullname_at := fa, fullname := arg, name_off := 0\<rparr>)\<rparr>))))"

text \<open>The array \<open>av\<close> of names to list: the arguments, or ''.'' when there are none.\<close>

definition make_av :: "'s libc \<Rightarrow> string list \<Rightarrow> 's ls \<Rightarrow> (string list \<times> 's ls) outcome" where
  "make_av A args S =
     (if length args < 1
      then bindE (xcalloc A (ls_lib S) 1 sizeof_ptr) (\<lambda>(_, l1).
           bindE (xstrdup A l1 ''.'') (\<lambda>(_, l2). Inr ([''.''], S\<lparr>ls_lib := l2\<rparr>)))
      else bindE (xcalloc A (ls_lib S) (of_nat (length args)) sizeof_ptr) (\<lambda>(_, l1). Inr (args, S\<lparr>ls_lib := l1\<rparr>)))"

text \<open>The result is \<open>None\<close> where \<open>ls_main\<close> prints the usage message and ends without a value.\<close>

definition ls_main :: "ls_env \<Rightarrow> 's libc \<Rightarrow> nat \<Rightarrow> (char \<times> string) list \<Rightarrow> string list \<Rightarrow> 's ls \<Rightarrow> (int option \<times> 's ls) outcome option" where
  "ls_main E A depth opts args S0 =
     (case apply_opts opts (default_opts E S0) of
        None \<Rightarrow> Some (Inr (None, S0))
      | Some Sa \<Rightarrow>
          bindO (Some (make_av A args (settle_opts E Sa))) (\<lambda>(av, Sb).
          let S = (if length av > 1 then Sb\<lparr>disp_opts := disp_opts Sb OR DISP_DIRNAME\<rparr> else Sb)
          in bindO (Some (foldE (visit_arg E A) av (NULL, 0, S))) (\<lambda>(dn, nfiles, S1).
             bindO (Some (node_array A dn nfiles S1)) (\<lambda>(dnp, S2).
               if disp_opts S2 AND DISP_NOLIST \<noteq> 0
               then bindO (Some (if nfiles > 0 then showfiles E A (sort_array S2 dnp nfiles) nfiles S2 else Inr S2))
                      (\<lambda>S3. Some (Inr (Some (status S3), S3)))
               else bindO (Some (splitdnarray A (dn_at S2) (ls_lib S2) dnp nfiles SPLIT_DIR)) (\<lambda>(dnd, l3).
                    bindO (Some (splitdnarray A (dn_at S2) l3 dnp nfiles SPLIT_FILE)) (\<lambda>(dnf, l4).
                    bindO (Some (from_option (countdirs (dn_at S2) dnp nfiles))) (\<lambda>dndirs.
                    let S4 = S2\<lparr>ls_lib := l4\<rparr>; dnfiles = nfiles - dndirs
                    in bindO (Some (if dnfiles > 0 then showfiles E A (sort_array S4 dnf dnfiles) dnfiles S4 else Inr S4)) (\<lambda>S5.
                       bindO (if dndirs > 0 then showdirs E A depth (sort_array S5 dnd dndirs) dndirs S5 else Some (Inr S5))
                         (\<lambda>S6. Some (Inr (Some (status S6), S6)))))))))))"

text \<open>\<open>main\<close> returns 0 whatever \<open>ls_main\<close> returns.\<close>

definition ls_program :: "ls_env \<Rightarrow> 's libc \<Rightarrow> nat \<Rightarrow> (char \<times> string) list \<Rightarrow> string list \<Rightarrow> 's ls \<Rightarrow> (int \<times> 's ls) outcome option" where
  "ls_program E A depth opts args S = bindO (ls_main E A depth opts args S) (\<lambda>(_, S1). Some (Inr (0, S1)))"

end
