(* ===== verification/Ls_Sort.thy ===== *)
theory Ls_Sort
  imports Ls_Node "HOL-Library.Multiset"
begin

text \<open>
  Shell sort: whatever the comparison, the result has the same elements; for a comparison that is total
  and transitive on the elements it is in order. The last pass, of gap 1, is an insertion sort; the passes
  before it only have to keep the elements.
\<close>

lemma mset_swap_pos: "i < length xs \<Longrightarrow> j < length xs \<Longrightarrow> mset (swap xs i j) = mset xs"
  by (cases "i = j") (simp_all add: swap_def mset_swap list_update_swap)

lemma length_swap [simp]: "length (swap xs i j) = length xs"
  by (simp add: swap_def)

lemma shell_inner_mset:
  "j + gap < length xs \<Longrightarrow> mset (shell_inner cmp gap j xs) = mset xs \<and> length (shell_inner cmp gap j xs) = length xs"
proof (induction cmp gap j xs rule: shell_inner.induct)
  case (1 cmp gap j xs)
  note sw = mset_swap_pos [of j xs "j + gap"]
  show ?case
    using 1 sw by (subst (1 2) shell_inner.simps) auto
qed

lemma shell_pass_mset: "mset (shell_pass cmp gap xs) = mset xs \<and> length (shell_pass cmp gap xs) = length xs"
proof -
  have "mset (fold (\<lambda>i. shell_inner cmp gap (i - gap)) is ys) = mset ys \<and>
      length (fold (\<lambda>i. shell_inner cmp gap (i - gap)) is ys) = length ys"
    if "\<forall>i \<in> set is. gap \<le> i \<and> i < length ys" for "is" and ys :: "'a list"
    using that
  proof (induction "is" arbitrary: ys)
    case (Cons i js)
    have "i - gap + gap < length ys" using Cons.prems by auto
    from shell_inner_mset [OF this, of cmp] Cons.IH [of "shell_inner cmp gap (i - gap) ys"] Cons.prems show ?case
      by auto
  qed simp
  from this [of "[gap..<length xs]" xs] show ?thesis by (simp add: shell_pass_def)
qed

lemma shell_gaps_mset: "mset (shell_gaps cmp gap xs) = mset xs"
proof (induction cmp gap xs rule: shell_gaps.induct)
  case (1 cmp gap xs)
  then show ?case using shell_pass_mset [of cmp gap xs] by (simp add: shell_gaps.simps [of cmp gap])
qed

lemma length_shell_gaps [simp]: "length (shell_gaps cmp gap xs) = length xs"
  by (metis shell_gaps_mset size_mset)

lemma shellsort_mset: "mset (shellsort cmp xs n) = mset xs"
proof -
  have "mset (take n xs) + mset (drop n xs) = mset xs" by (simp flip: mset_append)
  then show ?thesis by (simp add: shellsort_def shell_gaps_mset)
qed

lemma length_shellsort [simp]: "length (shellsort cmp xs n) = length xs"
  by (metis shellsort_mset size_mset)

lemma set_shellsort [simp]: "set (shellsort cmp xs n) = set xs"
  by (metis shellsort_mset set_mset_mset)

locale comparison =
  fixes cmp :: "'a \<Rightarrow> 'a \<Rightarrow> int" and D :: "'a set"
  assumes total: "x \<in> D \<Longrightarrow> y \<in> D \<Longrightarrow> cmp x y \<le> 0 \<or> cmp y x \<le> 0"
    and trans: "x \<in> D \<Longrightarrow> y \<in> D \<Longrightarrow> z \<in> D \<Longrightarrow> cmp x y \<le> 0 \<Longrightarrow> cmp y z \<le> 0 \<Longrightarrow> cmp x z \<le> 0"
begin

definition in_order :: "'a list \<Rightarrow> bool" where
  "in_order xs \<longleftrightarrow> sorted_wrt (\<lambda>x y. cmp x y \<le> 0) xs"

lemma insertion:
  "length as = Suc j \<Longrightarrow> set (as @ x # bs) \<subseteq> D \<Longrightarrow> in_order (as @ bs) \<Longrightarrow> \<forall>b \<in> set bs. cmp x b \<le> 0 \<Longrightarrow>
   \<exists>ys. shell_inner cmp 1 j (as @ x # bs @ rest) = ys @ rest \<and> in_order ys \<and> mset ys = mset (as @ x # bs)"
proof (induction j arbitrary: as bs)
  case 0
  then obtain a where a: "as = [a]" by (cases as) auto
  show ?case
  proof (cases "cmp a x \<le> 0")
    case True
    then show ?thesis using a 0
      by (intro exI [of _ "a # x # bs"]) (simp add: shell_inner.simps in_order_def)
  next
    case False
    then have "cmp x a \<le> 0" using total [of a x] a 0(2) by auto
    with False a 0 show ?thesis
      by (intro exI [of _ "x # a # bs"]) (simp add: shell_inner.simps in_order_def swap_def)
  qed
next
  case (Suc j)
  obtain cs a where a: "as = cs @ [a]" "length cs = Suc j" using Suc.prems(1) by (cases as rule: rev_cases) auto
  have n: "(as @ x # bs @ rest) ! Suc j = a" "(as @ x # bs @ rest) ! (Suc j + 1) = x"
    using a by (simp_all add: nth_append)
  have D: "a \<in> D" "x \<in> D" "set cs \<subseteq> D" using Suc.prems(2) a by auto
  show ?case
  proof (cases "cmp a x \<le> 0")
    case True
    have "cmp c x \<le> 0" if "c \<in> set cs" for c
      using that trans [of c a x] True D Suc.prems(3) a by (auto simp: in_order_def sorted_wrt_append)
    then have "in_order (as @ x # bs)"
      using True Suc.prems(3,4) a by (auto simp: in_order_def sorted_wrt_append)
    with True n show ?thesis
      by (intro exI [of _ "as @ x # bs"]) (simp add: shell_inner.simps [of _ _ "Suc j"])
  next
    case False
    have xa: "cmp x a \<le> 0" using total [of a x] False D by blast
    have sw: "swap (as @ x # bs @ rest) (Suc j) (Suc j + 1) = cs @ x # (a # bs) @ rest"
      using a by (simp add: swap_def n nth_append list_update_append)
    have "in_order (cs @ a # bs)" "\<forall>b \<in> set (a # bs). cmp x b \<le> 0" "set (cs @ x # a # bs) \<subseteq> D"
      using Suc.prems a xa by auto
    from Suc.IH [OF a(2) this(3,1,2)] obtain ys where
      ys: "shell_inner cmp 1 j (cs @ x # (a # bs) @ rest) = ys @ rest" "in_order ys" "mset ys = mset (cs @ x # a # bs)"
      by auto
    have "shell_inner cmp 1 (Suc j) (as @ x # bs @ rest) = shell_inner cmp 1 j (cs @ x # (a # bs) @ rest)"
      unfolding shell_inner.simps [of cmp 1 "Suc j"] n sw using False by simp
    with ys show ?thesis using a by (intro exI [of _ ys]) simp
  qed
qed

lemma insertion_pass:
  assumes "set xs \<subseteq> D"
  shows "in_order (shell_pass cmp 1 xs)"
proof -
  have "\<exists>ys. fold (\<lambda>i. shell_inner cmp 1 (i - 1)) [1..<Suc k] xs = ys @ drop (Suc k) xs \<and> in_order ys \<and>
      mset ys = mset (take (Suc k) xs)" if "Suc k \<le> length xs" for k
    using that
  proof (induction k)
    case 0
    then show ?case by (cases xs) (auto simp: in_order_def)
  next
    case (Suc k)
    then obtain ys where ys: "fold (\<lambda>i. shell_inner cmp 1 (i - 1)) [1..<Suc k] xs = ys @ drop (Suc k) xs" "in_order ys"
      "mset ys = mset (take (Suc k) xs)" by auto
    let ?x = "xs ! Suc k"
    have x: "drop (Suc k) xs = ?x # drop (Suc (Suc k)) xs" using Suc.prems by (simp add: Cons_nth_drop_Suc)
    have l: "length ys = Suc k" using ys(3) Suc.prems by (metis length_take min.absorb2 size_mset Suc_leD)
    have "set ys = set (take (Suc k) xs)" using ys(3) by (metis set_mset_mset)
    then have D: "set (ys @ ?x # []) \<subseteq> D" using assms Suc.prems set_take_subset [of "Suc k" xs] by auto
    have o: "in_order (ys @ [])" "\<forall>b \<in> set []. cmp ?x b \<le> 0" using ys(2) by simp_all
    from insertion [OF l D o, of "drop (Suc (Suc k)) xs"] obtain zs where
      zs: "shell_inner cmp 1 k (ys @ ?x # drop (Suc (Suc k)) xs) = zs @ drop (Suc (Suc k)) xs" "in_order zs"
        "mset zs = mset (ys @ [?x])" by auto
    have "fold (\<lambda>i. shell_inner cmp 1 (i - 1)) [1..<Suc (Suc k)] xs = zs @ drop (Suc (Suc k)) xs"
      using ys(1) zs(1) by (simp add: x)
    moreover have "mset zs = mset (take (Suc (Suc k)) xs)"
      using zs(3) ys(3) Suc.prems by (simp add: take_Suc_conv_app_nth)
    ultimately show ?case using zs(2) by blast
  qed
  from this [of "length xs - 1"] show ?thesis
    by (cases xs) (auto simp: shell_pass_def in_order_def)
qed

lemma shell_gaps_in_order:
  "set xs \<subseteq> D \<Longrightarrow> 0 < gap \<Longrightarrow> in_order (shell_gaps cmp gap xs)"
proof (induction gap arbitrary: xs rule: less_induct)
  case (less gap)
  let ?ys = "shell_pass cmp gap xs"
  have "set ?ys \<subseteq> D" using less.prems(1) shell_pass_mset [of cmp gap xs] by (metis set_mset_mset)
  then show ?case
  proof (cases "gap = 1")
    case True
    then show ?thesis using insertion_pass [OF less.prems(1)] by (simp add: shell_gaps.simps)
  next
    case False
    then have "0 < gap div 2" "gap div 2 < gap" "gap \<noteq> 0" using less.prems(2) by auto
    with less.IH [OF _ \<open>set ?ys \<subseteq> D\<close>] show ?thesis by (simp add: shell_gaps.simps [of cmp gap])
  qed
qed

lemma shellsort_in_order:
  assumes "set xs \<subseteq> D"
  shows "in_order (shellsort cmp xs (length xs))"
proof (cases "length xs < 2")
  case True
  then show ?thesis by (cases xs) (auto simp: shellsort_def in_order_def Suc_le_eq)
next
  case False
  with shell_gaps_in_order [OF assms, of "length xs div 2"] show ?thesis by (simp add: shellsort_def)
qed

end

end
