(* ===== verification/Ls_Correct.thy ===== *)
theory Ls_Correct
  imports Ls_Main Ls_Sort Libc
begin

text \<open>
  What a listing guarantees: the order of the files, that each is shown once, that arrays and buffers are
  large enough, and how modes, sizes and options are rendered.
\<close>

subsection \<open>The order of a listing\<close>

text \<open>The number that the files are sorted by, largest first.\<close>

definition sort_key :: "nat \<Rightarrow> dnode \<Rightarrow> int" where
  "sort_key opts d =
     (if opts = SORT_SIZE then st_size (dstat d) else if opts = SORT_ATIME then st_atime (dstat d)
      else if opts = SORT_CTIME then st_ctime (dstat d) else if opts = SORT_MTIME then st_mtime (dstat d)
      else if opts = SORT_DIR then of_bool (S_ISDIR (st_mode (dstat d))) else 0)"

definition key_fits :: "nat \<Rightarrow> dnode \<Rightarrow> bool" where
  "key_fits opts d \<longleftrightarrow> 0 \<le> sort_key opts d \<and> sort_key opts d < 2 ^ 31"

text \<open>\<open>d1\<close> may stand before \<open>d2\<close>: it has the larger key, or the same key and a name that is not greater.\<close>

definition before :: "nat \<Rightarrow> dnode \<Rightarrow> dnode \<Rightarrow> bool" where
  "before opts d1 d2 \<longleftrightarrow> sort_key opts d1 > sort_key opts d2 \<or>
     sort_key opts d1 = sort_key opts d2 \<and> strcmp (name d1) (name d2) \<le> 0"

lemma to_int32_small: "- (2 ^ 31) \<le> x \<Longrightarrow> x < 2 ^ 31 \<Longrightarrow> to_int32 x = x"
  by (simp add: to_int32_def sint_sbintrunc' signed_take_bit_int_eq_self)

lemma before_total: "before opts x y \<or> before opts y x"
  using strcmp_swap [of "name x" "name y"] by (auto simp: before_def)

lemma before_trans: "before opts x y \<Longrightarrow> before opts y z \<Longrightarrow> before opts x z"
  using strcmp_trans [of "name x" "name y" "name z"] by (auto simp: before_def)

lemma sortcmp_keys:
  assumes "to_int32 (sort_key opts x - sort_key opts y) = sort_key opts x - sort_key opts y"
  shows "sortcmp opts order x y =
    (let dif = sort_key opts x - sort_key opts y;
         cmp = (if dif > 0 then - 1 else if dif < 0 then 1
                else if strcmp (name x) (name y) > 0 then 1 else if strcmp (name x) (name y) < 0 then - 1 else 0)
     in if order = SORT_REVERSE then - 1 * cmp else cmp)"
proof -
  have "(if opts = SORT_SIZE then to_int32 (st_size (dstat x) - st_size (dstat y))
      else if opts = SORT_ATIME then to_int32 (st_atime (dstat x) - st_atime (dstat y))
      else if opts = SORT_CTIME then to_int32 (st_ctime (dstat x) - st_ctime (dstat y))
      else if opts = SORT_MTIME then to_int32 (st_mtime (dstat x) - st_mtime (dstat y))
      else if opts = SORT_DIR then of_bool (S_ISDIR (st_mode (dstat x))) - of_bool (S_ISDIR (st_mode (dstat y)))
      else 0) = sort_key opts x - sort_key opts y"
    using assms by (cases "opts = SORT_SIZE"; cases "opts = SORT_ATIME"; cases "opts = SORT_CTIME"; cases "opts = SORT_MTIME")
      (simp_all add: sort_key_def)
  then show ?thesis unfolding sortcmp_def Let_def by simp
qed

lemma sortcmp_before:
  assumes "key_fits opts x" "key_fits opts y"
  shows "sortcmp opts order x y \<le> 0 \<longleftrightarrow> (if order = SORT_REVERSE then before opts y x else before opts x y)"
proof -
  have d: "to_int32 (sort_key opts x - sort_key opts y) = sort_key opts x - sort_key opts y"
    using assms by (intro to_int32_small) (auto simp: key_fits_def)
  define dif where "dif = sort_key opts x - sort_key opts y"
  define c where "c = (if dif > 0 then - 1 else if dif < 0 then 1
                 else if strcmp (name x) (name y) > 0 then 1
                 else if strcmp (name x) (name y) < 0 then - 1 else (0 :: int))"
  have "sortcmp opts order x y = (if order = SORT_REVERSE then - 1 * c else c)"
    using d unfolding c_def dif_def by (subst sortcmp_keys) (simp_all add: Let_def)
  moreover have "c \<le> 0 \<longleftrightarrow> before opts x y" "0 \<le> c \<longleftrightarrow> before opts y x"
    using strcmp_swap [of "name x" "name y"] by (auto simp: c_def dif_def before_def)
  ultimately show ?thesis by simp
qed

interpretation by_sortcmp: comparison "\<lambda>a b. sortcmp opts order (N a) (N b)" "{a. key_fits opts (N a)}"
  for opts order and N :: "addr \<Rightarrow> dnode"
proof unfold_locales
  fix x y z
  assume x: "x \<in> {a. key_fits opts (N a)}" and y: "y \<in> {a. key_fits opts (N a)}"
  show "sortcmp opts order (N x) (N y) \<le> 0 \<or> sortcmp opts order (N y) (N x) \<le> 0"
    using x y before_total by (auto simp: sortcmp_before)
  assume z: "z \<in> {a. key_fits opts (N a)}" and l: "sortcmp opts order (N x) (N y) \<le> 0" "sortcmp opts order (N y) (N z) \<le> 0"
  show "sortcmp opts order (N x) (N z) \<le> 0"
    using x y z l by (auto simp: sortcmp_before split: if_splits intro: before_trans)
qed

text \<open>
  C30: Sorting the array of a listing keeps its pointers, each as often as before, and puts them in the order of the chosen
  key (size, time or kind, the largest first) with the name deciding between equal keys, or in the opposite order with
  \<open>-r\<close>, when the keys of all entries are in \<open>0 ..< 2 ^ 31\<close> (\<open>key_fits\<close>): beyond that \<open>sortcmp_truncates\<close> shows the cut to
  \<open>int\<close>. By name there is no condition; the criteria \<open>-v\<close> (version) and \<open>-X\<close> (extension) have no key of their own, so
  they sort by name alone.
\<close>

theorem listing_sorted:
  assumes "\<forall>a \<in> set xs. key_fits (sort_opts S) (dn_at S a)"
  shows "\<exists>ys. sort_array S (Some (base, xs)) (length xs) = Some (base, ys) \<and> mset ys = mset xs \<and>
    sorted_wrt (\<lambda>a b. if sort_order S = SORT_REVERSE then before (sort_opts S) (dn_at S b) (dn_at S a)
      else before (sort_opts S) (dn_at S a) (dn_at S b)) ys"
proof -
  let ?cmp = "\<lambda>a b. sortcmp (sort_opts S) (sort_order S) (dn_at S a) (dn_at S b)"
  let ?ys = "shellsort ?cmp xs (length xs)"
  have "set xs \<subseteq> {a. key_fits (sort_opts S) (dn_at S a)}" using assms by auto
  from by_sortcmp.shellsort_in_order [OF this] have "sorted_wrt (\<lambda>a b. ?cmp a b \<le> 0) ?ys"
    unfolding by_sortcmp.in_order_def .
  then have "sorted_wrt (\<lambda>a b. if sort_order S = SORT_REVERSE then before (sort_opts S) (dn_at S b) (dn_at S a)
      else before (sort_opts S) (dn_at S a) (dn_at S b)) ?ys"
    by (rule sorted_wrt_mono_rel [rotated]) (use assms in \<open>simp add: sortcmp_before split: if_splits\<close>)
  then show ?thesis by (intro exI [of _ ?ys]) (simp add: sort_array_def shellsort_mset)
qed

definition demo_ls :: "nat ls" where
  "demo_ls = (ls_start 100)\<lparr>sort_opts := SORT_NAME, dn_at := (\<lambda>a. \<lparr>name_off = 0, fullname_at = a + 4,
     fullname = (if a = 8 then ''b'' else ''a''), dstat = dstat (dn_at (ls_start (0 :: nat)) a),
     dn_next = (if a = 8 then 16 else NULL)\<rparr>)\<rparr>"

lemma listing_sorted_witness:
  "\<exists>ys. sort_array demo_ls (Some (4, [8, 16])) 2 = Some (4, ys) \<and> mset ys = mset [8, 16]"
proof -
  have "\<forall>a \<in> set [8, 16]. key_fits (sort_opts demo_ls) (dn_at demo_ls a)"
    by (simp add: key_fits_def sort_key_def demo_ls_def SORT_NAME_def SORT_SIZE_def SORT_ATIME_def SORT_CTIME_def
        SORT_MTIME_def SORT_DIR_def)
  from listing_sorted [OF this, of 4] show ?thesis by (auto simp: numeral_2_eq_2)
qed

lemma to_int32_big: "2 ^ 31 \<le> x \<Longrightarrow> x < 2 ^ 32 \<Longrightarrow> to_int32 x = x - 2 ^ 32"
  "2 ^ 31 < x \<Longrightarrow> x < 2 ^ 32 \<Longrightarrow> to_int32 (- x) = 2 ^ 32 - x"
proof -
  have e: "to_int32 x = (x + 2 ^ 31) mod 2 ^ 32 - 2 ^ 31" for x
    by (simp add: to_int32_def sint_sbintrunc' signed_take_bit_eq_take_bit_shift take_bit_eq_mod)
  show "to_int32 x = x - 2 ^ 32" if "2 ^ 31 \<le> x" "x < 2 ^ 32"
  proof -
    have "(x + 2 ^ 31) mod 2 ^ 32 = x + 2 ^ 31 - 2 ^ 32" by (rule int_mod_pos_eq [where q = 1, symmetric, THEN sym]) (use that in auto)
    then show ?thesis unfolding e by simp
  qed
  show "to_int32 (- x) = 2 ^ 32 - x" if "2 ^ 31 < x" "x < 2 ^ 32"
  proof -
    have "(- x + 2 ^ 31) mod 2 ^ 32 = - x + 2 ^ 31 + 2 ^ 32" by (rule int_mod_pos_eq [where q = "- 1", symmetric, THEN sym]) (use that in auto)
    then show ?thesis unfolding e by simp
  qed
qed

text \<open>
  The difference of two sizes is cut to 32 bits: of two files whose sizes differ by more than 2 GiB
  and less than 4 GiB \<open>-S\<close> puts the larger one behind the smaller one.
\<close>

theorem sortcmp_truncates:
  assumes "2 ^ 31 < st_size (dstat d1) - st_size (dstat d2)" "st_size (dstat d1) - st_size (dstat d2) < 2 ^ 32"
  shows "sortcmp SORT_SIZE 0 d1 d2 = 1 \<and> sortcmp SORT_SIZE 0 d2 d1 = - 1"
proof -
  let ?x = "st_size (dstat d1) - st_size (dstat d2)"
  have "to_int32 ?x < 0" "to_int32 (- ?x) > 0" using to_int32_big [of ?x] assms by auto
  then show ?thesis by (simp add: sortcmp_def SORT_REVERSE_def)
qed

lemma sortcmp_truncates_witness:
  "sortcmp SORT_SIZE 0 (dn_at demo_ls 8\<lparr>dstat := dstat (dn_at demo_ls 8)\<lparr>st_size := 3 * 10 ^ 9\<rparr>\<rparr>) (dn_at demo_ls 16) = 1"
  using sortcmp_truncates [of "dn_at demo_ls 8\<lparr>dstat := dstat (dn_at demo_ls 8)\<lparr>st_size := 3 * 10 ^ 9\<rparr>\<rparr>" "dn_at demo_ls 16"]
  by (simp add: demo_ls_def ls_start_def)

subsection \<open>The table\<close>

lemma foldE_inv:
  "foldE f xs s = Inr s' \<Longrightarrow> P s \<Longrightarrow> (\<And>x s t. x \<in> set xs \<Longrightarrow> f x s = Inr t \<Longrightarrow> P s \<Longrightarrow> P t) \<Longrightarrow> P s'"
proof (induction xs arbitrary: s)
  case (Cons x xs)
  then obtain t where "f x s = Inr t" "foldE f xs t = Inr s'" by (auto simp: bindE_Inr_iff)
  with Cons show ?case by (meson list.set_intros)
qed simp

text \<open>Printing leaves the options alone.\<close>

lemma put_disp [simp]:
  "disp_opts (put s S) = disp_opts S" "disp_opts (add_column n S) = disp_opts S" "disp_opts (put_color m S) = disp_opts S"
  "disp_opts (put_reset S) = disp_opts S" "disp_opts (newline S) = disp_opts S" "disp_opts (nexttabstop S) = disp_opts S"
  "disp_opts (put_blocks b S) = disp_opts S" "disp_opts (put_size st S) = disp_opts S" "disp_opts (put_time E t S) = disp_opts S"
  by (simp_all add: put_def add_column_def put_color_def put_reset_def newline_def nexttabstop_def put_blocks_def put_size_def
      put_time_def Let_def split: prod.split)

lemma put_name_disp: "put_name E d info S = (S', info') \<Longrightarrow> disp_opts S' = disp_opts S"
  by (auto simp: put_name_def Let_def split: if_splits sum.splits prod.splits)

lemma put_target_disp: "put_target E d app info text S = Inr (S', app', info') \<Longrightarrow> disp_opts S' = disp_opts S"
  by (cases "env_stat E (fullname d)") (auto simp: put_target_def Let_def bindE_Inr_iff split: if_splits option.splits)

lemma put_link_disp: "put_link E A d app info S = Inr (S', app', info') \<Longrightarrow> disp_opts S' = disp_opts S"
  by (auto simp: put_link_def bindE_Inr_iff split: if_splits option.splits prod.splits dest!: put_target_disp)

lemma list_item_disp:
  "list_item E A ttime d i X = Inr Y \<Longrightarrow> disp_opts (fst Y) = disp_opts (fst X)"
  by (cases X; cases Y)
    (auto simp: list_item_def Let_def split: if_splits prod.splits dest: put_name_disp put_link_disp)

lemma list_single_disp: "list_single E A d S = Inr S' \<Longrightarrow> disp_opts S' = disp_opts S"
proof -
  assume l: "list_single E A d S = Inr S'"
  have inv: "foldE (list_item E A t dn) is (S, app, None) = Inr Y \<Longrightarrow> disp_opts (fst Y) = disp_opts S" for t dn "is" app Y
    by (rule foldE_inv [where P = "\<lambda>X. disp_opts (fst X) = disp_opts S"]) (auto dest: list_item_disp)
  show ?thesis
    using l inv by (fastforce simp: list_single_def Let_def bindE_Inr_iff split: if_splits prod.splits)
qed

text \<open>The numbers of the files in one row, and all rows of the table.\<close>

definition row_cells :: "bool \<Rightarrow> nat \<Rightarrow> nat \<Rightarrow> nat \<Rightarrow> nat \<Rightarrow> nat list" where
  "row_cells rows n nrows ncols row = filter (\<lambda>i. i < n) (map (cell rows nrows ncols row) [0..<ncols])"

lemma concat_map_product: "concat (map (\<lambda>x. map (f x) ys) xs) = map (\<lambda>(x, y). f x y) (List.product xs ys)"
  by (induction xs) simp_all

lemma divmod_pair: "(q :: nat) * c + r = q' * c + r' \<Longrightarrow> r < c \<Longrightarrow> r' < c \<Longrightarrow> q = q' \<and> r = r'"
  by (metis add_right_cancel div_mult_self3 mod_mult_self3 div_less mod_less add_0_left less_nat_zero_code)

lemma pair_less: "q < m \<Longrightarrow> r < c \<Longrightarrow> q * c + r < m * (c :: nat)"
  by (metis Suc_leI add_less_cancel_left less_le_trans mult_Suc mult_le_mono1 add.commute)

lemma cells_all:
  assumes "n \<le> nrows * ncols"
  shows "mset (concat (map (row_cells rows n nrows ncols) [0..<nrows])) = mset [0..<n]"
proof -
  let ?c = "cell rows nrows ncols"
  let ?P = "List.product [0..<nrows] [0..<ncols]"
  have f: "concat (map (row_cells rows n nrows ncols) [0..<nrows]) = filter (\<lambda>i. i < n) (map (\<lambda>(r, c). ?c r c) ?P)"
    unfolding row_cells_def concat_map_product [symmetric] filter_concat by (simp add: comp_def)
  have inj: "inj_on (\<lambda>(r, c). ?c r c) (set ?P)"
    by (cases rows) (auto simp: inj_on_def cell_def dest: divmod_pair)
  have "\<exists>r<nrows. \<exists>c<ncols. ?c r c = i" if "i < n" for i
  proof (cases rows)
    case True
    have "i < ncols * nrows" "0 < ncols" using that assms by (auto simp: mult.commute intro: ccontr)
    then have "i div ncols < nrows" "i mod ncols < ncols" by (simp_all add: less_mult_imp_div_less mult.commute)
    then show ?thesis using True by (intro exI [of _ "i div ncols"] conjI exI [of _ "i mod ncols"]) (simp_all add: cell_def)
  next
    case False
    have "i < nrows * ncols" "0 < nrows" using that assms by (auto intro: ccontr)
    then have "i div nrows < ncols" "i mod nrows < nrows" by (simp_all add: less_mult_imp_div_less mult.commute)
    then show ?thesis using False by (intro exI [of _ "i mod nrows"] conjI exI [of _ "i div nrows"]) (simp_all add: cell_def)
  qed
  then have "set (filter (\<lambda>i. i < n) (map (\<lambda>(r, c). ?c r c) ?P)) = set [0..<n]" by force
  moreover have "distinct (filter (\<lambda>i. i < n) (map (\<lambda>(r, c). ?c r c) ?P))"
    using inj by (intro distinct_filter) (simp add: distinct_map distinct_product)
  ultimately show ?thesis unfolding f by (subst set_eq_iff_mset_eq_distinct [symmetric]) simp_all
qed

lemma table_shape_covers: "table_shape n c = (nrows, ncols) \<Longrightarrow> n \<le> nrows * ncols"
proof -
  assume t: "table_shape n c = (nrows, ncols)"
  show "n \<le> nrows * ncols"
  proof (cases "c > 1")
    case True
    have "n < (n div c + 1) * c" using True by (metis add.commute dividend_less_div_times plus_1_eq_Suc mult_Suc less_le_trans zero_less_one order_less_trans)
    with t True show ?thesis by (auto simp: table_shape_def Let_def split: if_splits)
  next
    case False
    with t show ?thesis by (auto simp: table_shape_def Let_def)
  qed
qed

text \<open>One line of the table: the files of a row, each at a tab stop.\<close>

definition show_line :: "ls_env \<Rightarrow> 's libc \<Rightarrow> addr list \<Rightarrow> 's ls \<Rightarrow> 's ls outcome" where
  "show_line E A row S = bindE (foldE (\<lambda>d T. list_single E A d (nexttabstop T)) row S) (\<lambda>T. Inr (newline T))"

lemma show_line_disp: "show_line E A row S = Inr S' \<Longrightarrow> disp_opts S' = disp_opts S"
proof -
  assume "show_line E A row S = Inr S'"
  then obtain T where T: "foldE (\<lambda>d T. list_single E A d (nexttabstop T)) row S = Inr T" "S' = newline T"
    by (auto simp: show_line_def bindE_Inr_iff)
  have "disp_opts T = disp_opts S"
    by (rule foldE_inv [OF T(1), where P = "\<lambda>T. disp_opts T = disp_opts S"]) (auto dest: list_single_disp)
  with T show ?thesis by simp
qed

lemma show_row_line:
  assumes n: "n \<le> length xs" and d: "(disp_opts S AND DISP_ROWS \<noteq> 0) = rows"
  shows "show_row E A xs n nrows ncols row S = show_line E A (map ((!) xs) (row_cells rows n nrows ncols row)) S"
proof -
  have "foldE (\<lambda>nc T. show_cell E A xs n (cell (disp_opts T AND DISP_ROWS \<noteq> 0) nrows ncols row nc) T) ncs S =
      foldE (\<lambda>d T. list_single E A d (nexttabstop T)) (map ((!) xs) (filter (\<lambda>i. i < n) (map (cell rows nrows ncols row) ncs))) S" for ncs
    using d
  proof (induction ncs arbitrary: S)
    case (Cons nc ncs)
    show ?case
    proof (cases "cell rows nrows ncols row nc < n")
      case True
      let ?d = "xs ! cell rows nrows ncols row nc"
      show ?thesis
      proof (cases "list_single E A ?d (nexttabstop S)")
        case (Inr T)
        then have "disp_opts T = disp_opts S" by (auto dest: list_single_disp)
        then show ?thesis using Cons Inr True n by (simp add: show_cell_def)
      qed (use Cons True n in \<open>simp add: show_cell_def\<close>)
    next
      case False
      then show ?thesis using Cons by (simp add: show_cell_def)
    qed
  qed simp
  then show ?thesis by (simp add: show_row_def show_line_def row_cells_def)
qed

lemma show_rows_lines:
  assumes n: "n \<le> length xs"
  shows "(disp_opts S AND DISP_ROWS \<noteq> 0) = rows \<Longrightarrow>
    foldE (show_row E A xs n nrows ncols) rs S = foldE (show_line E A) (map (\<lambda>r. map ((!) xs) (row_cells rows n nrows ncols r)) rs) S"
proof (induction rs arbitrary: S)
  case (Cons r rs)
  show ?case
  proof (cases "show_line E A (map ((!) xs) (row_cells rows n nrows ncols r)) S")
    case (Inr T)
    then have "disp_opts T = disp_opts S" by (rule show_line_disp)
    with Cons show ?thesis by (simp add: show_row_line [OF n Cons.prems] Inr)
  qed (simp add: show_row_line [OF n Cons.prems])
qed simp

lemma widest_total: "i + k \<le> length xs \<Longrightarrow> \<exists>w'. widest S xs i k w = Some w'"
  by (induction S xs i k w rule: widest.induct) (auto simp: Let_def)

lemma showfiles_rows:
  assumes "xs \<noteq> []"
  shows "\<exists>rows w. showfiles E A (Some (base, xs)) (length xs) S = foldE (show_line E A) rows (S\<lparr>column_width := w\<rparr>) \<and>
    mset (concat rows) = mset xs"
proof -
  let ?n = "length xs"
  obtain w0 where w0: "widest S xs 0 ?n 0 = Some w0" using widest_total [of 0 ?n xs S 0] by auto
  define w where "w = (if w0 \<ge> 1 then w0 else COLUMN_WIDTH)"
  define c where "c = (if style_fmt S = STYLE_LONG \<or> style_fmt S = STYLE_SINGLE then 1
    else if w0 \<ge> 1 then unat (terminal_width S) div (unat w0 + unat COLUMN_GAP) else 1)"
  obtain nrows ncols where t: "table_shape ?n c = (nrows, ncols)" by fastforce
  let ?rows = "disp_opts S AND DISP_ROWS \<noteq> 0"
  have "showfiles E A (Some (base, xs)) ?n S = foldE (show_row E A xs ?n nrows ncols) [0..<nrows] (S\<lparr>column_width := w\<rparr>)"
    using assms w0 t by (auto simp: showfiles_def Let_def w_def c_def Suc_le_eq)
  also have "\<dots> = foldE (show_line E A) (map (\<lambda>r. map ((!) xs) (row_cells ?rows ?n nrows ncols r)) [0..<nrows]) (S\<lparr>column_width := w\<rparr>)"
    by (rule show_rows_lines) simp_all
  finally have e: "showfiles E A (Some (base, xs)) ?n S = \<dots>" .
  have "concat (map (\<lambda>r. map ((!) xs) (row_cells ?rows ?n nrows ncols r)) [0..<nrows]) =
      map ((!) xs) (concat (map (row_cells ?rows ?n nrows ncols) [0..<nrows]))"
    by (simp add: map_concat comp_def)
  then have "mset (concat (map (\<lambda>r. map ((!) xs) (row_cells ?rows ?n nrows ncols r)) [0..<nrows])) = mset (map ((!) xs) [0..<?n])"
    using cells_all [OF table_shape_covers [OF t], of ?rows] by (metis mset_map)
  with e show ?thesis by (metis map_nth)
qed

text \<open>
  C31: \<open>showfiles\<close> prints rows of at most as many files as it computed columns, by columns or (with \<open>-x\<close>)
  across: whatever the width of the terminal and of the names, each file of the array is printed exactly
  once, and no pointer outside the array is followed.
\<close>

theorem showfiles_once:
  assumes "xs \<noteq> []"
  shows "\<exists>rows w. showfiles E A (Some (base, xs)) (length xs) S = foldE (show_line E A) rows (S\<lparr>column_width := w\<rparr>) \<and>
    mset (concat rows) = mset xs"
  using assms by (rule showfiles_rows)

text \<open>A system on which every file is missing.\<close>

definition missing_files :: ls_env where
  "missing_files = \<lparr>env_stat = (\<lambda>_. Inl ENOENT), env_lstat = (\<lambda>_. Inl ENOENT), env_readdir = (\<lambda>_. None), env_readlink = (\<lambda>_. None),
     env_ctime = (\<lambda>_. []), env_now = 0, env_user = (\<lambda>_. None), env_group = (\<lambda>_. None), env_tty = False, env_rows = 0, env_cols = 0\<rparr>"

lemma showfiles_once_witness:
  "\<exists>rows w. showfiles missing_files bump_lib (Some (4, [8, 16])) 2 demo_ls = foldE (show_line missing_files bump_lib) rows (demo_ls\<lparr>column_width := w\<rparr>) \<and>
     mset (concat rows) = {#8, 16#}"
  using showfiles_once [of "[8, 16]" missing_files bump_lib 4 demo_ls] by (simp add: numeral_2_eq_2)

subsection \<open>Splitting and freeing\<close>

definition elements :: "dnarray \<Rightarrow> addr list" where
  "elements dn = (case dn of None \<Rightarrow> [] | Some (_, xs) \<Rightarrow> xs)"

lemma count_loop_filter:
  "i + k \<le> length xs \<Longrightarrow> count_loop P xs i k c = Some (c + length (filter P (take k (drop i xs))))"
proof (induction P xs i k c rule: count_loop.induct)
  case (2 P xs i k c)
  then have "drop i xs = xs ! i # drop (Suc i) xs" by (simp add: Cons_nth_drop_Suc)
  with 2 show ?case by simp
qed simp

lemma split_loop_filter:
  "i + k \<le> length xs \<Longrightarrow> length ys = d + length (filter P (take k (drop i xs))) \<Longrightarrow> 
   split_loop P xs i k (Some (b, ys)) d = Some (Some (b, take d ys @ filter P (take k (drop i xs))))"
proof (induction k arbitrary: i ys d)
  case (Suc k)
  have x: "drop i xs = xs ! i # drop (Suc i) xs" using Suc.prems by (simp add: Cons_nth_drop_Suc)
  show ?case
  proof (cases "P (xs ! i)")
    case True
    then have d: "d < length ys" using Suc.prems x by simp
    have "take (Suc d) (ys[d := xs ! i]) = take d ys @ [xs ! i]"
      using d by (simp add: take_Suc_conv_app_nth)
    with Suc.IH [of "Suc i" "ys[d := xs ! i]" "Suc d"] True d Suc.prems x show ?thesis by simp
  next
    case False
    with Suc.IH [of "Suc i" ys d] Suc.prems x show ?thesis by simp
  qed
qed simp

lemma split_loop_none:
  "i + k \<le> length xs \<Longrightarrow> filter P (take k (drop i xs)) = [] \<Longrightarrow> split_loop P xs i k None d = Some None"
proof (induction k arbitrary: i)
  case (Suc k)
  have x: "drop i xs = xs ! i # drop (Suc i) xs" using Suc.prems by (simp add: Cons_nth_drop_Suc)
  with Suc show ?case by (auto split: if_splits)
qed simp

lemma split_count:
  assumes "n \<le> length xs" "0 < n"
  shows "(if which = SPLIT_SUBDIR then countsubdirs N (Some (b, xs)) n
      else map_option (\<lambda>k. if which = SPLIT_FILE then n - k else k) (countdirs N (Some (b, xs)) n)) =
    Some (length (filter (\<lambda>a. split_keeps which (N a)) (take n xs)))"
proof -
  have "length (filter (\<lambda>a. \<not> P a) (take n xs)) = n - length (filter P (take n xs))" for P
    using sum_length_filter_compl [of P "take n xs"] assms by simp
  with assms show ?thesis
    by (cases which) (simp_all add: countsubdirs_def countdirs_def count_loop_filter)
qed

lemma splitdnarray_split:
  assumes n: "n \<le> length xs"
    and a: "filter (\<lambda>a. split_keeps which (N a)) (take n xs) \<noteq> [] \<Longrightarrow>
      dnalloc A s (length (filter (\<lambda>a. split_keeps which (N a)) (take n xs))) =
        Inr (Some (p, replicate (length (filter (\<lambda>a. split_keeps which (N a)) (take n xs))) NULL), s1)"
  shows "splitdnarray A N s (Some (b, xs)) n which =
    (if filter (\<lambda>a. split_keeps which (N a)) (take n xs) = [] then Inr (None, s)
     else Inr (Some (p, filter (\<lambda>a. split_keeps which (N a)) (take n xs)), s1))"
proof (cases "n < 1")
  case True
  then show ?thesis by (simp add: splitdnarray_def)
next
  case False
  let ?ys = "filter (\<lambda>a. split_keeps which (N a)) (take n xs)"
  note c = split_count [OF n, of which N b]
  show ?thesis
  proof (cases "?ys = []")
    case True
    then show ?thesis using False c n by (simp add: splitdnarray_def dnalloc_def split_loop_none)
  next
    case nonempty: False
    show ?thesis using False c n a [OF nonempty] nonempty split_loop_filter [of 0 n xs "replicate (length ?ys) NULL" 0]
      by (simp add: splitdnarray_def)
  qed
qed

lemma splitdnarray_stops:
  assumes n: "n \<le> length xs" and ne: "filter (\<lambda>a. split_keeps which (N a)) (take n xs) \<noteq> []"
    and a: "xcalloc A s (of_nat (length (filter (\<lambda>a. split_keeps which (N a)) (take n xs)))) sizeof_ptr = Inl e"
  shows "splitdnarray A N s (Some (b, xs)) n which = Inl e"
proof -
  have "\<not> n < 1" using ne by (cases n) auto
  then show ?thesis using split_count [OF n, of which N b] a ne
    by (simp add: splitdnarray_def dnalloc_def Suc_le_eq)
qed

text \<open>
  C32: \<open>splitdnarray\<close> counts first and then fills an array of exactly that size: over any C library it never reads or
  writes outside an array, and the result holds the directories, the other files, or the real subdirectories
  among the first \<open>n\<close> entries, each once and in their order, in the array that \<open>xcalloc\<close> gave (and is \<open>NULL\<close>,
  without any request, when there are none). It fails only when that one request fails, and just as \<open>xcalloc\<close> does.
\<close>

theorem splitdnarray_fits:
  assumes "n \<le> length xs"
  shows "let ys = filter (\<lambda>a. split_keeps which (N a)) (take n xs);
             c = xcalloc A s (of_nat (length ys)) sizeof_ptr
    in case splitdnarray A N s (Some (b, xs)) n which of
         Inl e \<Rightarrow> ys \<noteq> [] \<and> c = Inl e
       | Inr (dnp, s1) \<Rightarrow> if ys = [] then dnp = None \<and> s1 = s else \<exists>p. c = Inr (p, s1) \<and> dnp = Some (p, ys)"
proof -
  let ?ys = "filter (\<lambda>a. split_keeps which (N a)) (take n xs)"
  show ?thesis
  proof (cases "?ys = []")
    case True
    then show ?thesis using splitdnarray_split [OF assms, of which N A s NULL s b] by (simp add: Let_def)
  next
    case ne: False
    show ?thesis
    proof (cases "xcalloc A s (of_nat (length ?ys)) sizeof_ptr")
      case (Inl e)
      then show ?thesis using splitdnarray_stops [OF assms ne Inl, of b] ne by (simp add: Let_def)
    next
      case (Inr r)
      obtain p s1 where p: "xcalloc A s (of_nat (length ?ys)) sizeof_ptr = Inr (p, s1)" using Inr by (cases r) auto
      have "dnalloc A s (length ?ys) = Inr (Some (p, replicate (length ?ys) NULL), s1)"
        using ne p by (simp add: dnalloc_def Suc_le_eq)
      from splitdnarray_split [OF assms this, of b] ne p show ?thesis by (simp add: Let_def)
    qed
  qed
qed

lemma splitdnarray_fits_witness:
  "splitdnarray bump_lib (dn_at demo_ls) 100 (Some (4, [8, 16])) 2 SPLIT_FILE = Inr (Some (100, [8, 16]), 116)"
proof -
  have "2 \<le> length [8, 16 :: addr]" by simp
  note w = splitdnarray_fits [OF this, of SPLIT_FILE "dn_at demo_ls" bump_lib 100 4]
  have ys: "filter (\<lambda>a. split_keeps SPLIT_FILE (dn_at demo_ls a)) (take 2 [8, 16]) = [8, 16]"
    by (simp add: demo_ls_def ls_start_def S_ISDIR_def)
  have "xcalloc bump_lib 100 2 sizeof_ptr = Inr (100, 116)"
    by (simp add: xcalloc_def bump_lib_def sizeof_ptr_def)
  with w show ?thesis unfolding ys by (simp add: Let_def split: sum.splits prod.splits)
qed

end
