(* ===== verification/Ls_Heap.thy ===== *)
theory Ls_Heap
  imports Ls_Correct
begin

text \<open>
  How the lister uses its heap, on a library that is \<open>conforming\<close> (theory \<open>Libc\<close>): \<open>list_dir\<close> builds a chain
  of nodes apart from everything else that is held, and \<open>dfree\<close> gives nodes back.
\<close>

subsection \<open>Paths\<close>

text \<open>What the join of a directory and a name should be: one slash between them.\<close>

definition join :: "string \<Rightarrow> string \<Rightarrow> string" where
  "join path file = path @ (if path \<noteq> [] \<and> last path = CHR ''/'' then '''' else ''/'') @ dropWhile (\<lambda>c. c = CHR ''/'') file"

lemma concat_path_join:
  "concat_path_file A s path file =
     bindE (xmalloc A s (of_nat (length (join (case path of None \<Rightarrow> '''' | Some p \<Rightarrow> p) file) + 1)))
       (\<lambda>(buf, s1). Inr (buf, join (case path of None \<Rightarrow> '''' | Some p \<Rightarrow> p) file, s1))"
proof -
  have l: "last_char_is (Some p) CHR ''/'' = None \<longleftrightarrow> \<not> (p \<noteq> [] \<and> last p = CHR ''/'')" for p
    by (auto simp: last_char_is_def last_conv_nth)
  show ?thesis
    unfolding concat_path_file_def Let_def l join_def
    by (auto simp: bindE_def add.commute add.left_commute split: sum.splits option.splits)
qed

subsection \<open>Requests\<close>

text \<open>Sizes that the lister asks for are not zero and fit.\<close>

lemma unat_size: "n < 2 ^ 64 \<Longrightarrow> unat (of_nat n :: size_t) = n"
  by (simp add: unsigned_of_nat take_bit_nat_eq_self)

lemma size_nonzero: "0 < n \<Longrightarrow> n < 2 ^ 64 \<Longrightarrow> of_nat n \<noteq> (0 :: size_t)"
  using unat_size [of n] by (metis unat_0 less_not_refl)

lemma xmalloc_ok:
  assumes "conforming A ok" "ok s H" "0 < n" "n < 2 ^ 64"
  shows "gives ok H (xmalloc A s (of_nat n))"
  using conforming_malloc [OF assms(1,2) size_nonzero [OF assms(3,4)]]
  by (elim givesE) (simp add: xmalloc_def gives_def)

lemma xcalloc_ok:
  assumes "conforming A ok" "ok s H" "0 < n" "n < 2 ^ 31"
  shows "gives ok H (xcalloc A s (of_nat n) sizeof_ptr)"
proof -
  have "unat (of_nat n :: size_t) * unat sizeof_ptr < 2 ^ 64" "sizeof_ptr \<noteq> 0"
    using assms(4) unat_size [of n] by (simp_all add: sizeof_ptr_def)
  with conforming_calloc [OF assms(1,2) size_nonzero [OF assms(3)]] assms(4) have "gives ok H (lib_calloc A s (of_nat n) sizeof_ptr)"
    by simp
  then show ?thesis by (elim givesE) (simp_all add: xcalloc_def gives_def)
qed

lemma dnalloc_ok:
  assumes "conforming A ok" "ok s H" "0 < n" "n < 2 ^ 31"
  obtains b s' where "dnalloc A s n = Inr (Some (b, replicate n NULL), s')" "b \<noteq> NULL" "b \<notin> H" "ok s' (insert b H)"
  using xcalloc_ok [OF assms] assms(3) by (elim givesE) (simp add: dnalloc_def)

lemma frees_ok:
  assumes "conforming A ok"
  shows "ok s H \<Longrightarrow> distinct ps \<Longrightarrow> set ps \<subseteq> H \<Longrightarrow> takes ok (H - set ps) (foldE (\<lambda>p s. lib_free A s p) ps s)"
proof (induction ps arbitrary: s H)
  case Nil
  then show ?case by (simp add: takes_def)
next
  case (Cons p ps)
  have "p = NULL \<or> p \<in> H" using Cons.prems by simp
  from conforming_free [OF assms Cons.prems(1) this] obtain s1 where s1: "lib_free A s p = Inr s1" "ok s1 (H - {p})"
    by (rule takesE)
  have "set ps \<subseteq> H - {p}" "distinct ps" "H - {p} - set ps = H - set (p # ps)" using Cons.prems by auto
  with Cons.IH [OF s1(2)] s1(1) show ?case by simp
qed

subsection \<open>Chains of nodes\<close>

fun node_chain :: "(addr \<Rightarrow> dnode) \<Rightarrow> addr \<Rightarrow> addr list \<Rightarrow> bool" where
  "node_chain N a [] \<longleftrightarrow> a = NULL"
| "node_chain N a (x # xs) \<longleftrightarrow> a = x \<and> x \<noteq> NULL \<and> node_chain N (dn_next (N x)) xs"

lemma foldE_one: "bindE m (foldE f [x]) = bindE m (f x)"
  by (auto simp: bindE_def split: sum.splits)

text \<open>The calls of \<open>free\<close> that give back a list of nodes with their names.\<close>

definition node_frees :: "(addr \<Rightarrow> dnode) \<Rightarrow> addr list \<Rightarrow> addr list" where
  "node_frees N xs = concat (map (\<lambda>x. (if fullname_at (N x) \<noteq> NULL then [fullname_at (N x)] else []) @ [x]) xs)"

lemma node_frees_simps [simp]:
  "node_frees N [] = []"
  "node_frees N (x # xs) = (if fullname_at (N x) \<noteq> NULL then [fullname_at (N x)] else []) @ x # node_frees N xs"
  "node_frees N (xs @ ys) = node_frees N xs @ node_frees N ys"
  by (simp_all add: node_frees_def)

lemma node_frees_contains: "x \<in> set xs \<Longrightarrow> x \<in> set (node_frees N xs)"
  by (auto simp: node_frees_def)

lemma dfree_chain_frees:
  "node_chain N a xs \<Longrightarrow> dfree_chain A N a s = Some (foldE (\<lambda>p s. lib_free A s p) (node_frees N xs) s)"
proof (induction xs arbitrary: a s)
  case Nil
  then show ?case by (simp add: dfree_chain.simps)
next
  case (Cons x xs)
  then have x: "a = x" "x \<noteq> NULL" "node_chain N (dn_next (N x)) xs" by auto
  show ?case
    using x Cons.IH [OF x(3)]
    by (subst dfree_chain.simps) (simp add: bindE_def foldE_append split: sum.splits)
qed

lemma node_chain_drop: "node_chain N a xs \<Longrightarrow> i < length xs \<Longrightarrow> node_chain N (xs ! i) (drop i xs)"
proof (induction xs arbitrary: a i)
  case (Cons x xs)
  then show ?case by (cases i) (auto split: if_splits)
qed simp

lemma dfree_suffix:
  assumes "node_chain N a xs" "i < length xs" "ys ! 0 = xs ! i" "ys \<noteq> []"
  shows "dfree A N (Some (base, ys)) s = foldE (\<lambda>p s. lib_free A s p) (node_frees N (drop i xs) @ [base]) s"
proof -
  have "array_get ys 0 = Some (xs ! i)" using assms(3,4) by simp
  with dfree_chain_frees [OF node_chain_drop [OF assms(1,2)], of A s] show ?thesis
    by (simp only: dfree_def foldE_append foldE_one option.case prod.case from_option_simps bindE_simps)
qed

lemma node_chain_cong:
  "(\<And>x. x \<in> set xs \<Longrightarrow> N x = N' x) \<Longrightarrow> node_chain N a xs = node_chain N' a xs"
  by (induction xs arbitrary: a) auto

lemma node_frees_cong:
  "(\<And>x. x \<in> set xs \<Longrightarrow> N x = N' x) \<Longrightarrow> node_frees N xs = node_frees N' xs"
  by (induction xs) auto

lemma chain_length_chain: "node_chain N x (x # xs) \<Longrightarrow> chain_length N x n = Some (n + length xs + 1)"
proof (induction xs arbitrary: x n)
  case Nil
  then show ?case by (simp add: chain_length.simps)
next
  case (Cons y xs)
  then have "dn_next (N x) = y" "y \<noteq> NULL" "node_chain N y (y # xs)" by auto
  with Cons.IH [of y "n + 1"] show ?case by (subst chain_length.simps) simp
qed

lemma countfiles_chain: "node_chain N a xs \<Longrightarrow> xs \<noteq> [] \<Longrightarrow> countfiles N (Some (base, xs)) = Some (length xs)"
  using chain_length_chain [of N "hd xs" "tl xs" 0] by (cases xs) (auto simp: countfiles_def)

lemma fill_nodes_chain: "node_chain N a xs \<Longrightarrow> fill_nodes N a (length xs) = Some xs"
  by (induction xs arbitrary: a) auto

subsection \<open>Reading a directory\<close>

text \<open>Which entries of a directory are shown, and what the lister finds out about a file.\<close>

definition visible :: "u32 \<Rightarrow> string \<Rightarrow> bool" where
  "visible opts e \<longleftrightarrow> (e = ''.'' \<or> e = ''..'' \<longrightarrow> opts AND DISP_DOT \<noteq> 0) \<and>
     (e \<noteq> [] \<and> hd e = CHR ''.'' \<longrightarrow> opts AND DISP_HIDDEN \<noteq> 0)"

definition file_stat :: "ls_env \<Rightarrow> bool \<Rightarrow> string \<Rightarrow> nat + stat_t" where
  "file_stat E follow p = (if follow then env_stat E p else env_lstat E p)"

definition found :: "ls_env \<Rightarrow> bool \<Rightarrow> string \<Rightarrow> string \<Rightarrow> bool" where
  "found E follow path e \<longleftrightarrow> \<not> isl (file_stat E follow (join path e))"

text \<open>The entries of a directory that \<open>list_dir\<close> makes nodes for, in the order of \<open>readdir\<close>.\<close>

definition listed :: "ls_env \<Rightarrow> 's ls \<Rightarrow> string \<Rightarrow> string list \<Rightarrow> string list" where
  "listed E S path es = filter (found E (follow_links S) path) (filter (visible (disp_opts S)) es)"

text \<open>The node \<open>d\<close> describes the entry \<open>e\<close> of the directory \<open>path\<close>.\<close>

definition node_for :: "ls_env \<Rightarrow> bool \<Rightarrow> string \<Rightarrow> dnode \<Rightarrow> string \<Rightarrow> bool" where
  "node_for E follow path d e \<longleftrightarrow> fullname d = join path e \<and> name d = e \<and> fullname_at d \<noteq> NULL \<and>
     file_stat E follow (join path e) = Inr (dstat d)"

text \<open>The nodes \<open>xs\<close> describe the entries \<open>es\<close>, on memory of their own beside \<open>H\<close>.\<close>

definition built :: "ls_env \<Rightarrow> string \<Rightarrow> ('s \<Rightarrow> addr set \<Rightarrow> bool) \<Rightarrow> addr set \<Rightarrow> 's ls \<Rightarrow> addr list \<Rightarrow> string list \<Rightarrow> bool" where
  "built E path ok H S xs es \<longleftrightarrow>
     list_all2 (\<lambda>x e. node_for E (follow_links S) path (dn_at S x) e) xs es \<and>
     distinct (node_frees (dn_at S) xs) \<and> set (node_frees (dn_at S) xs) \<inter> H = {} \<and>
     ok (ls_lib S) (H \<union> set (node_frees (dn_at S) xs))"

text \<open>What the operations of the lister never change: the options, and the nodes at \<open>H\<close>.\<close>

definition opts_of :: "'s ls \<Rightarrow> u32 \<times> nat \<times> u32 \<times> nat \<times> u32 \<times> u32 \<times> bool \<times> bool \<times> bool" where
  "opts_of S = (disp_opts S, style_fmt S, list_fmt S, sort_opts S, sort_order S, time_fmt S, follow_links S, ls_disp_hr S, show_color S)"

lemma opts_of_upd [simp]:
  "opts_of (S\<lparr>ls_lib := l\<rparr>) = opts_of S" "opts_of (S\<lparr>dn_at := N\<rparr>) = opts_of S" "opts_of (S\<lparr>errno := e\<rparr>) = opts_of S"
  "opts_of (S\<lparr>status := t\<rparr>) = opts_of S" "opts_of (S\<lparr>out := s\<rparr>) = opts_of S" "opts_of (S\<lparr>column := c\<rparr>) = opts_of S"
  "opts_of (S\<lparr>nexttab := c\<rparr>) = opts_of S" "opts_of (S\<lparr>column_width := c\<rparr>) = opts_of S"
  by (simp_all add: opts_of_def)

lemma opts_ofD:
  assumes "opts_of S = opts_of T"
  shows "disp_opts S = disp_opts T" "style_fmt S = style_fmt T" "list_fmt S = list_fmt T" "sort_opts S = sort_opts T"
    "sort_order S = sort_order T" "time_fmt S = time_fmt T" "follow_links S = follow_links T" "ls_disp_hr S = ls_disp_hr T"
    "show_color S = show_color T"
  using assms by (simp_all add: opts_of_def)

text \<open>A directory entry whose path fits, with the name a file system allows.\<close>

definition entry_fits :: "string \<Rightarrow> string \<Rightarrow> bool" where
  "entry_fits path e \<longleftrightarrow> CHR ''/'' \<notin> set e \<and> length (join path e) \<le> 550"

lemma name_join:
  assumes "CHR ''/'' \<notin> set e"
  shows "drop (length (join path e) - length e) (join path e) = e"
proof -
  have "dropWhile (\<lambda>c. c = CHR ''/'') e = e" using assms by (cases e) auto
  then show ?thesis by (simp add: join_def)
qed

lemma perror_fits: "length path \<le> 550 \<Longrightarrow> perror_msg [Some ''ls: '', Some path, None] = Inr (''ls: '' @ path)"
  by (simp add: perror_msg_def)

text \<open>A small file system: a directory \<open>d\<close> with a file, a directory, a hidden file and an entry that is gone.\<close>

definition demo_stat :: "mode_t \<Rightarrow> stat_t" where
  "demo_stat m = \<lparr>st_mode = m, st_ino = 1, st_nlink = 1, st_uid = 0, st_gid = 0, st_rdev = 0, st_size = 0, st_blocks = 0,
     st_atime = 0, st_mtime = 0, st_ctime = 0\<rparr>"

definition demo_files :: "string \<Rightarrow> nat + stat_t" where
  "demo_files p = (if p = ''d'' \<or> p = ''d/s'' then Inr (demo_stat 0x41ED)
     else if p = ''d/a'' \<or> p = ''d/s/x'' then Inr (demo_stat 0x81A4) else Inl ENOENT)"

definition demo_tree :: ls_env where
  "demo_tree = missing_files\<lparr>env_stat := demo_files, env_lstat := demo_files,
     env_readdir := (\<lambda>p. if p = ''d'' then Some [''.'', ''..'', ''a'', ''.h'', ''s'', ''gone'']
       else if p = ''d/s'' then Some [''x''] else None)\<rparr>"

end
