(* ===== verification/Ls_Dir.thy ===== *)
theory Ls_Dir
  imports Ls_Heap
begin

text \<open>
  Reading one directory on a conforming library: \<open>list_dir\<close> makes a node for every visible entry that it
  can \<open>stat\<close>, gives back what it allocated for the others, and reports failures in \<open>status\<close>.
\<close>

lemma visit_hidden:
  "\<not> visible (disp_opts S) e \<Longrightarrow> visit_entry E A path e (dn, n, S) = Inr (dn, n, S)"
  by (auto simp: visit_entry_def visible_def strcmp_eq_0)

text \<open>A visible entry gets memory for its node and its name.\<close>

lemma visit_visible:
  assumes c: "conforming A ok" "ok (ls_lib S) H" and v: "visible (disp_opts S) e" and f: "entry_fits path e"
  obtains cur fa l where "cur \<noteq> NULL" "fa \<noteq> NULL" "cur \<noteq> fa" "cur \<notin> H" "fa \<notin> H" "ok l (insert fa (insert cur H))"
    "visit_entry E A path e (dn, n, S) = chain_node E A cur (dn, n, S\<lparr>ls_lib := l, dn_at := (dn_at S)(cur := (dn_at S cur)
       \<lparr>fullname_at := fa, fullname := join path e, name_off := length (join path e) - length e\<rparr>)\<rparr>)"
proof -
  from xmalloc_ok [OF c, of 168] obtain cur l1 where
    cur: "xmalloc A (ls_lib S) sizeof_dnode = Inr (cur, l1)" "cur \<noteq> NULL" "cur \<notin> H" "ok l1 (insert cur H)"
    by (auto simp: sizeof_dnode_def elim!: givesE)
  from xmalloc_ok [OF c(1) cur(4), of "length (join path e) + 1"] f obtain fa l where
    fa: "xmalloc A l1 (of_nat (length (join path e) + 1)) = Inr (fa, l)" "fa \<noteq> NULL" "fa \<notin> insert cur H"
      "ok l (insert fa (insert cur H))"
    by (auto simp: entry_fits_def elim!: givesE)
  have "concat_path_file A l1 (Some path) e = Inr (fa, join path e, l)"
    using fa(1) by (subst concat_path_join) simp
  moreover have "\<not> (strcmp e ''.'' = 0 \<and> disp_opts S AND DISP_DOT = 0)" "\<not> (strcmp e ''..'' = 0 \<and> disp_opts S AND DISP_DOT = 0)"
    "\<not> ((e \<noteq> [] \<and> hd e = CHR ''.'') \<and> disp_opts S AND DISP_HIDDEN = 0)"
    using v by (auto simp: visible_def strcmp_eq_0)
  ultimately have "visit_entry E A path e (dn, n, S) = chain_node E A cur (dn, n, S\<lparr>ls_lib := l, dn_at := (dn_at S)(cur := (dn_at S cur)
       \<lparr>fullname_at := fa, fullname := join path e, name_off := length (join path e) - length e\<rparr>)\<rparr>)"
    unfolding visit_entry_def prod.case by (simp only: if_False cur(1) bindE_simps prod.case)
  with cur fa show ?thesis by (intro that [of cur fa l]) auto
qed

lemma chain_node_found:
  assumes "file_stat E (follow_links S) (fullname (dn_at S cur)) = Inr st"
  shows "chain_node E A cur (dn, n, S) = Inr (cur, n + 1, S\<lparr>dn_at := (dn_at S)(cur := (dn_at S cur)\<lparr>dstat := st, dn_next := dn\<rparr>)\<rparr>)"
  using assms by (simp add: chain_node_def my_stat_def file_stat_def split: if_splits)

lemma chain_node_missing:
  assumes c: "conforming A ok" "ok (ls_lib S) (insert fa (insert cur H))" "cur \<notin> H" "fa \<notin> H" "cur \<noteq> fa"
    and m: "file_stat E (follow_links S) (fullname (dn_at S cur)) = Inl e" "length (fullname (dn_at S cur)) \<le> 550"
    and f: "fullname_at (dn_at S cur) = fa"
  obtains l where "ok l H" "chain_node E A cur (dn, n, S) = Inr (dn, n, S\<lparr>errno := e, status := 1, ls_lib := l\<rparr>)"
proof -
  from conforming_free [OF c(1,2), of fa] obtain l1 where
    l1: "lib_free A (ls_lib S) fa = Inr l1" "ok l1 (insert cur H)"
    using c(4,5) by (auto simp: insert_Diff_if elim!: takesE)
  from conforming_free [OF c(1) l1(2), of cur] obtain l where "lib_free A l1 cur = Inr l" "ok l H"
    using c(3) by (auto simp: insert_Diff_if elim!: takesE)
  then show ?thesis
    using that [of l] l1(1) m f by (simp add: chain_node_def my_stat_def file_stat_def perror_fits split: if_splits)
qed

text \<open>The invariant of the loop over the entries \<open>es\<close> read so far: \<open>xs\<close> is the chain from \<open>dn\<close>.\<close>

definition dir_inv :: "ls_env \<Rightarrow> string \<Rightarrow> ('s \<Rightarrow> addr set \<Rightarrow> bool) \<Rightarrow> addr set \<Rightarrow> 's ls \<Rightarrow> string list \<Rightarrow>
    addr list \<Rightarrow> addr \<times> nat \<times> 's ls \<Rightarrow> bool" where
  "dir_inv E path ok H S0 es xs = (\<lambda>(dn, n, S).
     node_chain (dn_at S) dn xs \<and> n = length xs \<and> built E path ok H S xs (rev (listed E S0 path es)) \<and>
     opts_of S = opts_of S0 \<and> out S = out S0 \<and> (\<forall>x\<in>H. dn_at S x = dn_at S0 x) \<and>
     status S = (if \<exists>e\<in>set es. visible (disp_opts S0) e \<and> \<not> found E (follow_links S0) path e then 1 else status S0))"

lemma built_upd:
  assumes "built E path ok H S xs es" "cur \<notin> set xs"
    "ok l (H \<union> set (node_frees (dn_at S) xs))" "follow_links T = follow_links S"
    "dn_at T = (dn_at S)(cur := d)" "ls_lib T = l"
  shows "built E path ok H T xs es"
proof -
  have e: "dn_at T x = dn_at S x" if "x \<in> set xs" for x using that assms(2,5) by auto
  have "node_frees (dn_at T) xs = node_frees (dn_at S) xs" by (rule node_frees_cong) (rule e)
  moreover have "list_all2 (\<lambda>x f. node_for E (follow_links T) path (dn_at T x) f) xs es"
    by (rule list.rel_mono_strong [of "\<lambda>x e. node_for E (follow_links S) path (dn_at S x) e"])
      (use assms(1,4) e in \<open>simp_all add: built_def\<close>)
  ultimately show ?thesis using assms(1,3,6) by (simp add: built_def)
qed

lemma listed_snoc:
  "listed E S path (es @ [e]) = listed E S path es @ (if visible (disp_opts S) e \<and> found E (follow_links S) path e then [e] else [])"
  by (simp add: listed_def)

lemma visit_found:
  assumes c: "conforming A ok" and i: "dir_inv E path ok H S0 es xs (dn, n, S)" and e: "entry_fits path e"
    and v: "visible (disp_opts S0) e" "found E (follow_links S0) path e"
  shows "\<exists>cur T. visit_entry E A path e (dn, n, S) = Inr T \<and> dir_inv E path ok H S0 (es @ [e]) (cur # xs) T"
proof -
  let ?H = "H \<union> set (node_frees (dn_at S) xs)"
  have S: "node_chain (dn_at S) dn xs" "n = length xs" "built E path ok H S xs (rev (listed E S0 path es))"
    "opts_of S = opts_of S0" "out S = out S0" "\<forall>x\<in>H. dn_at S x = dn_at S0 x"
    "status S = (if \<exists>e\<in>set es. visible (disp_opts S0) e \<and> \<not> found E (follow_links S0) path e then 1 else status S0)"
    using i by (simp_all add: dir_inv_def)
  note o = opts_ofD [OF S(4)]
  have k: "ok (ls_lib S) ?H" using S(3) by (simp add: built_def)
  have "visible (disp_opts S) e" using v(1) o by simp
  from visit_visible [OF c k this e] obtain cur fa l where
    f: "cur \<noteq> NULL" "fa \<noteq> NULL" "cur \<noteq> fa" "cur \<notin> ?H" "fa \<notin> ?H" "ok l (insert fa (insert cur ?H))"
      "visit_entry E A path e (dn, n, S) = chain_node E A cur (dn, n, S\<lparr>ls_lib := l, dn_at := (dn_at S)(cur := (dn_at S cur)
         \<lparr>fullname_at := fa, fullname := join path e, name_off := length (join path e) - length e\<rparr>)\<rparr>)" .
  obtain st where st: "file_stat E (follow_links S) (join path e) = Inr st"
    using v(2) o by (cases "file_stat E (follow_links S) (join path e)") (auto simp: found_def)
  define d where "d = (dn_at S cur)\<lparr>fullname_at := fa, fullname := join path e, name_off := length (join path e) - length e,
    dstat := st, dn_next := dn\<rparr>"
  define T where "T = S\<lparr>ls_lib := l, dn_at := (dn_at S)(cur := d)\<rparr>"
  have T: "visit_entry E A path e (dn, n, S) = Inr (cur, n + 1, T)"
    unfolding f(7) using st by (subst chain_node_found [of _ _ _ st]) (simp_all add: T_def d_def)
  have fr: "cur \<notin> set xs" using f(4) node_frees_contains [of cur xs] by auto
  have old: "dn_at T x = dn_at S x" if "x \<in> set xs" for x using that fr by (auto simp: T_def)
  have nf: "node_frees (dn_at T) xs = node_frees (dn_at S) xs" by (rule node_frees_cong) (rule old)
  have ch: "node_chain (dn_at T) dn xs" using S(1) old node_chain_cong [of xs "dn_at T" "dn_at S"] by simp
  have nd: "node_for E (follow_links T) path (dn_at T cur) e"
    using st f(2) name_join [of e path] e by (simp add: node_for_def T_def d_def name_def entry_fits_def)
  have "list_all2 (\<lambda>x e. node_for E (follow_links T) path (dn_at T x) e) xs (rev (listed E S0 path es))"
    by (rule list.rel_mono_strong [of "\<lambda>x e. node_for E (follow_links S) path (dn_at S x) e"])
      (use S(3) old in \<open>simp_all add: built_def T_def\<close>)
  moreover have "dn_at T cur = d" by (simp add: T_def)
  then have "node_frees (dn_at T) (cur # xs) = fa # cur # node_frees (dn_at S) xs"
    using nf f(2) by (simp add: d_def)
  moreover have "distinct (node_frees (dn_at S) xs)" "set (node_frees (dn_at S) xs) \<inter> H = {}"
    using S(3) by (simp_all add: built_def)
  moreover have "ok (ls_lib T) (H \<union> set (fa # cur # node_frees (dn_at S) xs))" using f(6) by (simp add: T_def Un_insert_right)
  ultimately have "built E path ok H T (cur # xs) (rev (listed E S0 path (es @ [e])))"
    using nd v f(3-5) unfolding built_def listed_snoc by (simp del: node_frees_simps(2))
  moreover have "node_chain (dn_at T) cur (cur # xs)" using ch f(1) by (simp add: T_def d_def)
  moreover have "\<forall>x\<in>H. dn_at T x = dn_at S0 x" using S(6) f(4) by (auto simp: T_def)
  ultimately have "dir_inv E path ok H S0 (es @ [e]) (cur # xs) (cur, n + 1, T)"
    using S(2,4,5,7) v(2) by (simp add: dir_inv_def T_def)
  with T show ?thesis by blast
qed

lemma visit_missing:
  assumes c: "conforming A ok" and i: "dir_inv E path ok H S0 es xs (dn, n, S)" and e: "entry_fits path e"
    and v: "visible (disp_opts S0) e" "\<not> found E (follow_links S0) path e"
  shows "\<exists>T. visit_entry E A path e (dn, n, S) = Inr T \<and> dir_inv E path ok H S0 (es @ [e]) xs T"
proof -
  let ?H = "H \<union> set (node_frees (dn_at S) xs)"
  have S: "node_chain (dn_at S) dn xs" "n = length xs" "built E path ok H S xs (rev (listed E S0 path es))"
    "opts_of S = opts_of S0" "out S = out S0" "\<forall>x\<in>H. dn_at S x = dn_at S0 x"
    using i by (simp_all add: dir_inv_def)
  note o = opts_ofD [OF S(4)]
  have k: "ok (ls_lib S) ?H" using S(3) by (simp add: built_def)
  have "visible (disp_opts S) e" using v(1) o by simp
  from visit_visible [OF c k this e] obtain cur fa l where
    f: "cur \<noteq> NULL" "fa \<noteq> NULL" "cur \<noteq> fa" "cur \<notin> ?H" "fa \<notin> ?H" "ok l (insert fa (insert cur ?H))"
      "visit_entry E A path e (dn, n, S) = chain_node E A cur (dn, n, S\<lparr>ls_lib := l, dn_at := (dn_at S)(cur := (dn_at S cur)
         \<lparr>fullname_at := fa, fullname := join path e, name_off := length (join path e) - length e\<rparr>)\<rparr>)" .
  obtain er where er: "file_stat E (follow_links S) (join path e) = Inl er"
    using v(2) o by (cases "file_stat E (follow_links S) (join path e)") (auto simp: found_def)
  let ?d = "(dn_at S cur)\<lparr>fullname_at := fa, fullname := join path e, name_off := length (join path e) - length e\<rparr>"
  let ?S = "S\<lparr>ls_lib := l, dn_at := (dn_at S)(cur := ?d)\<rparr>"
  have "ok (ls_lib ?S) (insert fa (insert cur ?H))" "file_stat E (follow_links ?S) (fullname (dn_at ?S cur)) = Inl er"
    "length (fullname (dn_at ?S cur)) \<le> 550" "fullname_at (dn_at ?S cur) = fa" using f(6) er e by (simp_all add: entry_fits_def)
  from chain_node_missing [OF c this(1) f(4,5,3) this(2-4)] obtain l2 where
    l2: "ok l2 ?H" "visit_entry E A path e (dn, n, S) = Inr (dn, n, ?S\<lparr>errno := er, status := 1, ls_lib := l2\<rparr>)"
    unfolding f(7) by metis
  let ?T = "?S\<lparr>errno := er, status := 1, ls_lib := l2\<rparr>"
  have fr: "cur \<notin> set xs" using f(4) node_frees_contains [of cur xs] by auto
  have "built E path ok H ?T xs (rev (listed E S0 path es))"
    by (rule built_upd [OF S(3) fr l2(1)]) simp_all
  moreover have "dn_at ?T x = dn_at S x" if "x \<in> set xs" for x using that fr by auto
  then have "node_chain (dn_at ?T) dn xs" using S(1) node_chain_cong [of xs "dn_at ?T" "dn_at S"] by blast
  moreover have "\<forall>x\<in>H. dn_at ?T x = dn_at S0 x" using S(6) f(4) by auto
  ultimately have "dir_inv E path ok H S0 (es @ [e]) xs (dn, n, ?T)"
    using S(2,4,5) v by (simp add: dir_inv_def listed_snoc)
  with l2(2) show ?thesis by blast
qed

lemma visit_all:
  assumes c: "conforming A ok" and e: "\<forall>e \<in> set es'. entry_fits path e"
  shows "dir_inv E path ok H S0 es xs X \<Longrightarrow> \<exists>xs' Y. foldE (visit_entry E A path) es' X = Inr Y \<and> dir_inv E path ok H S0 (es @ es') xs' Y"
  using e
proof (induction es' arbitrary: es xs X)
  case (Cons e es')
  obtain dn n S where X: "X = (dn, n, S)" by (cases X) auto
  have o: "disp_opts S = disp_opts S0" using Cons.prems(1) opts_ofD(1) [of S S0] by (simp add: X dir_inv_def)
  have "\<exists>xs' Y. visit_entry E A path e X = Inr Y \<and> dir_inv E path ok H S0 (es @ [e]) xs' Y"
  proof (cases "visible (disp_opts S0) e")
    case True
    with visit_found [OF c Cons.prems(1) [unfolded X]] visit_missing [OF c Cons.prems(1) [unfolded X]] Cons.prems(2) show ?thesis
      unfolding X by (metis list.set_intros(1))
  next
    case False
    then have "dir_inv E path ok H S0 (es @ [e]) xs X" "visit_entry E A path e X = Inr X"
      using Cons.prems(1) o by (auto simp: X dir_inv_def listed_snoc visit_hidden)
    then show ?thesis by blast
  qed
  then obtain xs1 Y where "visit_entry E A path e X = Inr Y" "dir_inv E path ok H S0 (es @ [e]) xs1 Y" by blast
  moreover from this(2) Cons.prems(2) Cons.IH [of "es @ [e]" xs1 Y] obtain xs' Z where
    "foldE (visit_entry E A path) es' Y = Inr Z" "dir_inv E path ok H S0 (es @ e # es') xs' Z" by auto
  ultimately show ?case by auto
qed auto

text \<open>What \<open>list_dir\<close> returns: nothing when there is nothing to show, or an array of the nodes along their chain.\<close>

definition dir_result :: "ls_env \<Rightarrow> string \<Rightarrow> ('s \<Rightarrow> addr set \<Rightarrow> bool) \<Rightarrow> addr set \<Rightarrow> 's ls \<Rightarrow> string list \<Rightarrow> dnarray \<Rightarrow> bool" where
  "dir_result E path ok H S es dnp \<longleftrightarrow> (case dnp of
     None \<Rightarrow> es = [] \<and> ok (ls_lib S) H
   | Some (base, xs) \<Rightarrow> es \<noteq> [] \<and> xs \<noteq> [] \<and> node_chain (dn_at S) (hd xs) xs \<and> base \<notin> H \<and>
       base \<notin> set (node_frees (dn_at S) xs) \<and> base \<noteq> NULL \<and> built E path ok (insert base H) S xs (rev es))"

lemma list_dir_ok:
  assumes c: "conforming A ok" and k: "ok (ls_lib S) H"
    and d: "env_readdir E path = Some es" "length es < 2 ^ 31" "\<forall>e \<in> set es. entry_fits path e"
  shows "\<exists>dnp S'. list_dir E A (Some path) S = Inr (dnp, S') \<and> dir_result E path ok H S' (listed E S path es) dnp \<and>
    opts_of S' = opts_of S \<and> out S' = out S \<and> (\<forall>x\<in>H. dn_at S' x = dn_at S x) \<and>
    status S' = (if \<exists>e\<in>set es. visible (disp_opts S) e \<and> \<not> found E (follow_links S) path e then 1 else status S)"
proof -
  have "dir_inv E path ok H S [] [] (NULL, 0, S)"
    using k by (simp add: dir_inv_def built_def listed_def)
  from visit_all [OF c d(3) this] obtain xs dn n T where
    T: "foldE (visit_entry E A path) es (NULL, 0, S) = Inr (dn, n, T)" "dir_inv E path ok H S es xs (dn, n, T)" by auto
  have i: "node_chain (dn_at T) dn xs" "n = length xs" "built E path ok H T xs (rev (listed E S path es))"
    "opts_of T = opts_of S" "out T = out S" "\<forall>x\<in>H. dn_at T x = dn_at S x"
    "status T = (if \<exists>e\<in>set es. visible (disp_opts S) e \<and> \<not> found E (follow_links S) path e then 1 else status S)"
    using T(2) by (simp_all add: dir_inv_def)
  have len: "length xs = length (listed E S path es)"
    using i(3) by (auto simp: built_def dest: list_all2_lengthD)
  show ?thesis
  proof (cases "xs = []")
    case True
    then have "list_dir E A (Some path) S = Inr (None, T)" using d(1) T(1) i(2) by (simp add: list_dir_def)
    moreover have "dir_result E path ok H T (listed E S path es) None"
      using True len i(3) by (simp add: dir_result_def built_def)
    ultimately show ?thesis using i by blast
  next
    case False
    have "length xs \<le> length es" unfolding len listed_def by (meson length_filter_le le_trans)
    then have "length xs < 2 ^ 31" "0 < length xs" using d(2) False by auto
    moreover have "ok (ls_lib T) (H \<union> set (node_frees (dn_at T) xs))" using i(3) by (simp add: built_def)
    ultimately obtain base l where b: "dnalloc A (ls_lib T) n = Inr (Some (base, replicate n NULL), l)" "base \<noteq> NULL"
      "base \<notin> H \<union> set (node_frees (dn_at T) xs)" "ok l (insert base (H \<union> set (node_frees (dn_at T) xs)))"
      using dnalloc_ok [OF c] i(2) by metis
    let ?T = "T\<lparr>ls_lib := l\<rparr>"
    have "list_dir E A (Some path) S = Inr (Some (base, xs), ?T)"
      using d(1) T(1) i(2) False b(1) fill_nodes_chain [OF i(1)] by (simp add: list_dir_def node_array_def Suc_le_eq)
    moreover have "node_chain (dn_at ?T) (hd xs) xs" using i(1) False by (cases xs) auto
    then have "dir_result E path ok H ?T (listed E S path es) (Some (base, xs))"
      using b i(3) False len by (auto simp: dir_result_def built_def)
    ultimately show ?thesis using i by fastforce
  qed
qed

lemma dir_result_count:
  "dir_result E path ok H S es dnp \<Longrightarrow> countfiles (dn_at S) dnp = Some (length es)"
  by (auto simp: dir_result_def built_def countfiles_chain split: option.splits dest: list_all2_lengthD)
    (simp add: countfiles_def)

text \<open>
  C33: On a conforming library whose memory does not run out, for a directory that can be read, of fewer than \<open>2 ^ 31\<close>
  entries with paths of at most 550 bytes (\<open>entry_fits\<close>), \<open>list_dir\<close> returns exactly the entries that the options show
  and that can be examined, each with its path, its name and its \<open>stat\<close>, in the reverse of the order in which \<open>readdir\<close>
  gives them; the nodes, their names and the array lie in new memory, everything allocated for the other entries is
  given back, the count that \<open>showdirs\<close> takes from the chain is right, and a failing \<open>stat\<close> shows in the exit status.
\<close>

theorem list_dir_exact:
  assumes "conforming A ok" "ok (ls_lib S) H"
    and "env_readdir E path = Some es" "length es < 2 ^ 31" "\<forall>e \<in> set es. entry_fits path e"
  shows "\<exists>dnp S'. list_dir E A (Some path) S = Inr (dnp, S') \<and> dir_result E path ok H S' (listed E S path es) dnp \<and>
    countfiles (dn_at S') dnp = Some (length (listed E S path es)) \<and> opts_of S' = opts_of S \<and> out S' = out S \<and>
    (\<forall>x\<in>H. dn_at S' x = dn_at S x) \<and>
    status S' = (if \<exists>e\<in>set es. visible (disp_opts S) e \<and> \<not> found E (follow_links S) path e then 1 else status S)"
  using list_dir_ok [OF assms] dir_result_count by metis

lemma list_dir_exact_witness:
  "\<exists>dnp S'. list_dir demo_tree bump_lib (Some ''d'') (ls_start 8) = Inr (dnp, S') \<and>
     dir_result demo_tree ''d'' bump_ok {} S' [''a'', ''s''] dnp \<and> countfiles (dn_at S') dnp = Some 2 \<and> status S' = 1"
proof -
  have f: "\<forall>e \<in> set [''.'', ''..'', ''a'', ''.h'', ''s'', ''gone'']. entry_fits ''d'' e"
    by (simp add: entry_fits_def join_def)
  have l: "listed demo_tree (ls_start (8 :: nat)) ''d'' [''.'', ''..'', ''a'', ''.h'', ''s'', ''gone''] = [''a'', ''s'']"
    by (simp add: listed_def visible_def found_def file_stat_def join_def demo_tree_def demo_files_def ls_start_def)
  have g: "visible (disp_opts (ls_start (8 :: nat))) ''gone'' \<and> \<not> found demo_tree (follow_links (ls_start (8 :: nat))) ''d'' ''gone''"
    by (simp add: visible_def found_def file_stat_def join_def demo_tree_def demo_files_def ls_start_def)
  have "bump_ok (ls_lib (ls_start (8 :: nat))) {}" by (simp add: bump_ok_def ls_start_def)
  moreover have "env_readdir demo_tree ''d'' = Some [''.'', ''..'', ''a'', ''.h'', ''s'', ''gone'']" by (simp add: demo_tree_def)
  moreover have "length [''.'', ''..'', ''a'', ''.h'', ''s'', ''gone''] < 2 ^ 31" by simp
  ultimately obtain dnp S' where "list_dir demo_tree bump_lib (Some ''d'') (ls_start 8) = Inr (dnp, S')"
     "dir_result demo_tree ''d'' bump_ok {} S' [''a'', ''s''] dnp" "countfiles (dn_at S') dnp = Some (length [''a'', ''s''])" "status S' = 1"
    using list_dir_exact [OF bump_conforming _ _ _ f] g unfolding l [symmetric] by fastforce
  then show ?thesis by (auto simp: numeral_2_eq_2)
qed

end
