(* ===== verification/Ls_Returns.thy ===== *)
theory Ls_Returns
  imports Ls_Dir
begin

text \<open>
  The lister returns: on a conforming library and a directory tree of finite depth whose paths fit the
  message buffer, printing a file, a table and a tree ends without an undefined step, and leaves
  the options and everything its callers hold as they were.
\<close>

subsection \<open>Symbolic links\<close>

lemma readlink_loop_ok:
  assumes c: "conforming A ok" and n: "NULL \<notin> H" and t: "case target of None \<Rightarrow> length path \<le> 550 | Some t \<Rightarrow> length t < 2 ^ 31 \<and> bufsize \<le> length t"
    and s: "ok s (if buf = NULL then H else insert buf H)" "buf \<notin> H" and b: "target = None \<longrightarrow> bufsize = 0"
  shows "\<exists>s' b. readlink_loop A path target s buf bufsize = Inr (map_option (Pair b) target, s') \<and> b \<notin> H \<and> ok s' (insert b H)"
  using t s b
proof (induction "case target of None \<Rightarrow> 0 | Some t \<Rightarrow> length t + 1 - bufsize" arbitrary: s buf bufsize rule: less_induct)
  case less
  let ?H = "if buf = NULL then H else insert buf H"
  have sz: "of_nat (bufsize + 80) \<noteq> (0 :: size_t)"
    by (rule size_nonzero) (use less.prems in \<open>auto split: option.splits\<close>)
  have H: "?H - {buf} = H" using less.prems(3) n by auto
  have "buf = NULL \<or> buf \<in> ?H" by simp
  from conforming_realloc [OF c less.prems(2) this sz] obtain b s1 where
    b: "lib_realloc A s buf (of_nat (bufsize + 80)) = Inr (b, s1)" "b \<noteq> NULL" "b \<notin> H" "ok s1 (insert b H)"
    unfolding H by (rule givesE)
  have x: "xrealloc A s buf (of_nat (bufsize + 80)) = Inr (b, s1)" using b(1,2) by (simp add: xrealloc_def)
  show ?case
  proof (cases target)
    case None
    with x less.prems(1) b show ?thesis
      by (subst readlink_loop.simps) (auto simp: perror_fits)
  next
    case (Some t)
    show ?thesis
    proof (cases "bufsize + 80 \<le> length t")
      case True
      have "ok s1 (if b = NULL then H else insert b H)" using b by simp
      moreover have "length t + 1 - (bufsize + 80) < length t + 1 - bufsize" using True by simp
      ultimately obtain s' b' where
        "readlink_loop A path target s1 b (bufsize + 80) = Inr (map_option (Pair b') target, s')" "b' \<notin> H" "ok s' (insert b' H)"
        using less.hyps [of "bufsize + 80" s1 b] True less.prems(1) Some b(3) by fastforce
      moreover have "readlink_loop A path target s buf bufsize = readlink_loop A path target s1 b (bufsize + 80)"
        using x Some True by (subst readlink_loop.simps) (simp add: Let_def)
      ultimately show ?thesis by metis
    next
      case False
      then have "readlink_loop A path target s buf bufsize = Inr (Some (b, t), s1)"
        using x Some by (subst readlink_loop.simps) (simp add: Let_def)
      with b Some show ?thesis by fastforce
    qed
  qed
qed

text \<open>\<open>xreadlink\<close> reads links of any length in full.\<close>

lemma xreadlink_ok:
  assumes "conforming A ok" "ok s H" "case target of None \<Rightarrow> length path \<le> 550 | Some t \<Rightarrow> length t < 2 ^ 31"
  obtains b s' where "xreadlink A s path target = Inr (map_option (Pair b) target, s')" "b \<notin> H" "ok s' (insert b H)"
  using readlink_loop_ok [OF assms(1) conforming_null [OF assms(1,2)], where target = target and path = path and s = s
      and buf = NULL and bufsize = 0] assms conforming_null [OF assms(1,2)]
  by (auto simp: xreadlink_def split: option.splits)

subsection \<open>Printing one file\<close>

text \<open>\<open>S'\<close> has the options of \<open>S\<close>, the nodes at \<open>H\<close>, and at least the blocks of \<open>H\<close>.\<close>

definition steady :: "('s \<Rightarrow> addr set \<Rightarrow> bool) \<Rightarrow> addr set \<Rightarrow> 's ls \<Rightarrow> 's ls \<Rightarrow> bool" where
  "steady ok H S S' \<longleftrightarrow> opts_of S' = opts_of S \<and> (\<forall>x\<in>H. dn_at S' x = dn_at S x) \<and> (\<exists>H'. H \<subseteq> H' \<and> ok (ls_lib S') H')"

lemma steady_trans: "steady ok H S T \<Longrightarrow> steady ok H T U \<Longrightarrow> steady ok H S U"
  by (simp add: steady_def)

lemma steady_mono: "steady ok H' S T \<Longrightarrow> H \<subseteq> H' \<Longrightarrow> steady ok H S T"
  unfolding steady_def by blast

lemma steadyI:
  "opts_of S' = opts_of S \<Longrightarrow> \<forall>x\<in>H. dn_at S' x = dn_at S x \<Longrightarrow> H \<subseteq> H' \<Longrightarrow> ok (ls_lib S') H' \<Longrightarrow> steady ok H S S'"
  unfolding steady_def by blast

lemma steadyE:
  assumes "steady ok H S T"
  obtains H' where "H \<subseteq> H'" "ok (ls_lib T) H'"
  using assms unfolding steady_def by blast

text \<open>Printing touches neither options, nor nodes, nor the library.\<close>

definition quiet :: "'s ls \<Rightarrow> 's ls \<Rightarrow> bool" where
  "quiet S S' \<longleftrightarrow> opts_of S' = opts_of S \<and> dn_at S' = dn_at S \<and> ls_lib S' = ls_lib S"

lemma quiet_simps [simp]:
  "quiet S (put s T) = quiet S T" "quiet S (add_column n T) = quiet S T" "quiet S (put_color m T) = quiet S T"
  "quiet S (put_reset T) = quiet S T" "quiet S (newline T) = quiet S T" "quiet S (nexttabstop T) = quiet S T"
  "quiet S (put_blocks b T) = quiet S T" "quiet S (put_size st T) = quiet S T" "quiet S (put_time E t T) = quiet S T"
  "quiet S (T\<lparr>errno := e\<rparr>) = quiet S T" "quiet S (T\<lparr>column_width := w\<rparr>) = quiet S T"
  by (simp_all add: quiet_def put_def add_column_def put_color_def put_reset_def newline_def nexttabstop_def put_blocks_def put_size_def
      put_time_def Let_def opts_of_def split: prod.split)

lemma quiet_refl [simp]: "quiet S S"
  by (simp add: quiet_def)

lemma quiet_steady: "quiet T U \<Longrightarrow> steady ok H S T \<Longrightarrow> steady ok H S U"
  by (simp add: quiet_def steady_def)

lemma quiet_color: "quiet S T \<Longrightarrow> show_color T = show_color S"
  by (simp add: quiet_def opts_of_def)

lemma show_color_put [simp]: "show_color (put s S) = show_color S" "show_color (put_color m S) = show_color S"
  by (simp_all add: put_def put_color_def split: prod.split)

text \<open>A node that agrees with the file system, with a path and a link that fit.\<close>

definition node_seen :: "ls_env \<Rightarrow> bool \<Rightarrow> dnode \<Rightarrow> bool" where
  "node_seen E follow d \<longleftrightarrow> file_stat E follow (fullname d) = Inr (dstat d) \<and> length (fullname d) \<le> 550 \<and>
     (case env_readlink E (fullname d) of None \<Rightarrow> True | Some t \<Rightarrow> length t < 2 ^ 31)"

lemma put_name_quiet:
  assumes "put_name E d info S = (S', info')"
  shows "quiet S S'" "info \<noteq> None \<Longrightarrow> info' \<noteq> None"
    "show_color S \<Longrightarrow> node_seen E False d \<Longrightarrow> info' \<noteq> None"
  using assms by (auto simp: put_name_def Let_def node_seen_def file_stat_def split: if_splits sum.splits prod.splits)

lemma put_target_ok:
  assumes "node_seen E (follow_links S) d" "show_color S \<Longrightarrow> \<not> follow_links S \<Longrightarrow> info \<noteq> None"
  shows "\<exists>S' app' info'. put_target E d app info text S = Inr (S', app', info') \<and> quiet S S' \<and> (info \<noteq> None \<longrightarrow> info' \<noteq> None)"
proof (cases "env_stat E (fullname d)")
  case (Inl e)
  then have "show_color S \<Longrightarrow> info \<noteq> None" using assms by (auto simp: node_seen_def file_stat_def split: if_splits)
  then show ?thesis using Inl by (cases "show_color S"; cases info) (simp_all add: put_target_def Let_def)
next
  case (Inr st)
  then show ?thesis by (simp add: put_target_def Let_def)
qed

lemma put_link_ok:
  assumes c: "conforming A ok" and s: "steady ok H S T" and d: "node_seen E (follow_links S) d"
    and i: "show_color S \<Longrightarrow> \<not> follow_links S \<Longrightarrow> info \<noteq> None"
  shows "\<exists>T' app' info'. put_link E A d app info T = Inr (T', app', info') \<and> steady ok H S T' \<and> (info \<noteq> None \<longrightarrow> info' \<noteq> None)"
proof (cases "S_ISLNK (st_mode (dstat d))")
  case False
  then show ?thesis using s by (simp add: put_link_def)
next
  case True
  obtain H' where H': "H \<subseteq> H'" "ok (ls_lib T) H'" using s by (rule steadyE)
  have o: "opts_of T = opts_of S" "\<forall>x\<in>H. dn_at T x = dn_at S x" using s by (simp_all add: steady_def)
  have "case env_readlink E (fullname d) of None \<Rightarrow> length (fullname d) \<le> 550 | Some t \<Rightarrow> length t < 2 ^ 31"
    using d by (auto simp: node_seen_def split: option.splits)
  from xreadlink_ok [OF c H'(2) this] obtain b l where
    b: "xreadlink A (ls_lib T) (fullname d) (env_readlink E (fullname d)) = Inr (map_option (Pair b) (env_readlink E (fullname d)), l)"
      "b \<notin> H'" "ok l (insert b H')" .
  show ?thesis
  proof (cases "env_readlink E (fullname d)")
    case None
    then have "put_link E A d app info T = Inr (T\<lparr>ls_lib := l\<rparr>, app, info)" using True b(1) by (simp add: put_link_def)
    moreover have "steady ok H S (T\<lparr>ls_lib := l\<rparr>)" using o b(3) H'(1) by (intro steadyI [where H' = "insert b H'"]) auto
    ultimately show ?thesis by blast
  next
    case (Some tgt)
    let ?T = "T\<lparr>ls_lib := l\<rparr>"
    have "node_seen E (follow_links ?T) d" "show_color ?T \<Longrightarrow> \<not> follow_links ?T \<Longrightarrow> info \<noteq> None"
      using d i opts_ofD [OF o(1)] by simp_all
    from put_target_ok [OF this, of app tgt] obtain T' app' info' where
      T': "put_target E d app info tgt ?T = Inr (T', app', info')" "quiet ?T T'" "info \<noteq> None \<longrightarrow> info' \<noteq> None" by blast
    have l': "ls_lib T' = l" using T'(2) by (simp add: quiet_def)
    from conforming_free [OF c b(3), of b] obtain l2 where l2: "lib_free A l b = Inr l2" "ok l2 H'"
      using b(2) by (auto elim!: takesE)
    then have "put_link E A d app info T = Inr (T'\<lparr>ls_lib := l2\<rparr>, app', info')"
      using True b(1) Some T'(1) l' by (simp add: put_link_def)
    moreover have "steady ok H S (T'\<lparr>ls_lib := l2\<rparr>)"
      using T'(2) o l2(2) H'(1) by (intro steadyI [where H' = "H'"]) (auto simp: quiet_def)
    ultimately show ?thesis using T'(3) by blast
  qed
qed

lemma list_item_ok:
  assumes c: "conforming A ok" and s: "steady ok H S T" and d: "node_seen E (follow_links S) d" and f: "bit (list_fmt S) 10"
    and i: "10 < i \<Longrightarrow> show_color S \<Longrightarrow> \<not> follow_links S \<Longrightarrow> info \<noteq> None" and n: "i < 32"
  shows "\<exists>T' app' info'. list_item E A ttime d i (T, app, info) = Inr (T', app', info') \<and> steady ok H S T' \<and>
    (10 \<le> i \<longrightarrow> show_color S \<longrightarrow> \<not> follow_links S \<longrightarrow> info' \<noteq> None)"
proof -
  have o: "list_fmt T = list_fmt S" "show_color T = show_color S" using s by (simp_all add: steady_def opts_of_def)
  let ?b = "list_fmt T AND push_bit i 1"
  have b: "?b = (if bit (list_fmt S) i then push_bit i 1 else 0)"
    unfolding o by (rule bit_word_eqI) (auto simp: bit_simps)
  have b10: "?b = LIST_FILENAME" if "i = 10" using f that unfolding b by (simp add: LIST_FILENAME_def)
  have b11: "10 < i" if "?b = LIST_SYMLINK"
  proof -
    have "bit ?b 11" using that by (simp add: LIST_SYMLINK_def)
    then show ?thesis unfolding b by (auto simp: bit_simps split: if_splits)
  qed
  show ?thesis
  proof (cases "?b = LIST_FILENAME")
    case True
    obtain U info' where U: "put_name E d info T = (U, info')" by fastforce
    have "10 \<le> i \<longrightarrow> show_color S \<longrightarrow> \<not> follow_links S \<longrightarrow> info' \<noteq> None"
      using put_name_quiet(2,3) [OF U] d i o by (cases "i = 10") auto
    moreover have "list_item E A ttime d i (T, app, info) = Inr (U, app, info')"
      using True U by (simp add: list_item_def list_masks)
    ultimately show ?thesis using quiet_steady [OF put_name_quiet(1) [OF U] s] by blast
  next
    case False
    show ?thesis
    proof (cases "?b = LIST_SYMLINK")
      case True
      have "list_item E A ttime d i (T, app, info) = put_link E A d app info T"
        using True by (simp add: list_item_def list_masks)
      then show ?thesis using put_link_ok [OF c s d, of info app] i [OF b11 [OF True]] by (metis less_imp_le)
    next
      case nl: False
      define Q where "Q r \<longleftrightarrow> (\<exists>U a. r = Inr (U, a, info) \<and> quiet T U)" for r :: "('a ls \<times> char \<times> stat_t option) outcome"
      have q: "quiet T U \<Longrightarrow> Q (Inr (U, a, info))" "Q r \<Longrightarrow> Q r' \<Longrightarrow> Q (if c then r else r')" for U a r r' c
        by (auto simp: Q_def)
      have "Q (list_item E A ttime d i (T, app, info))"
        unfolding list_item_def prod.case Let_def using False nl
        by (simp only: if_False) (intro q; simp)
      then obtain U a where U: "list_item E A ttime d i (T, app, info) = Inr (U, a, info)" "quiet T U"
        unfolding Q_def by blast
      have "10 \<le> i \<longrightarrow> show_color S \<longrightarrow> \<not> follow_links S \<longrightarrow> info \<noteq> None"
        using i b10 False by (cases "i = 10") auto
      with U quiet_steady [OF U(2) s] show ?thesis by blast
    qed
  qed
qed

lemma list_items_ok:
  assumes c: "conforming A ok" and d: "node_seen E (follow_links S) d" and f: "bit (list_fmt S) 10"
  shows "set is \<subseteq> {..<32} \<Longrightarrow> sorted is \<Longrightarrow> steady ok H S T \<Longrightarrow> is = [] \<or> hd is \<le> 10 \<or> (show_color S \<longrightarrow> \<not> follow_links S \<longrightarrow> info \<noteq> None) \<Longrightarrow>
    (\<forall>i j. i < length is \<longrightarrow> is ! i > 10 \<longrightarrow> i > 0 \<longrightarrow> is ! (i - 1) \<ge> 10) \<Longrightarrow>
    \<exists>T' app' info'. foldE (list_item E A ttime d) is (T, app, info) = Inr (T', app', info') \<and> steady ok H S T'"
proof (induction "is" arbitrary: T app info)
  case (Cons i "is")
  have "10 < i \<Longrightarrow> show_color S \<Longrightarrow> \<not> follow_links S \<Longrightarrow> info \<noteq> None" "i < 32" using Cons.prems by auto
  from list_item_ok [OF c Cons.prems(3) d f this] obtain T' app' info' where
    T': "list_item E A ttime d i (T, app, info) = Inr (T', app', info')" "steady ok H S T'"
      "10 \<le> i \<longrightarrow> show_color S \<longrightarrow> \<not> follow_links S \<longrightarrow> info' \<noteq> None" by blast
  have "is = [] \<or> hd is \<le> 10 \<or> (show_color S \<longrightarrow> \<not> follow_links S \<longrightarrow> info' \<noteq> None)"
    using Cons.prems(5) [rule_format, of 1] T'(3) by (cases "is") auto
  moreover have "is ! (k - 1) \<ge> 10" if "k < length is" "is ! k > 10" "k > 0" for k
    using Cons.prems(5) [rule_format, of "Suc k"] that by (simp add: nth_Cons')
  ultimately show ?case using Cons.IH [OF _ _ T'(2), of info' app'] Cons.prems(1,2) T'(1) by auto
qed simp

lemma list_single_ok:
  assumes c: "conforming A ok" and k: "H \<subseteq> H'" "ok (ls_lib S) H'" and d: "node_seen E (follow_links S) (dn_at S a)" and f: "bit (list_fmt S) 10"
  shows "\<exists>S'. list_single E A a S = Inr S' \<and> steady ok H S S'"
proof (cases "a = NULL \<or> fullname_at (dn_at S a) = NULL")
  case True
  then show ?thesis using k by (auto simp: list_single_def steady_def)
next
  case False
  have s: "steady ok H S S" using k by (auto simp: steady_def)
  have "\<exists>T' app' info'. foldE (list_item E A t (dn_at S a)) [0..<32] (S, app, None) = Inr (T', app', info') \<and> steady ok H S T'" for t app
    by (rule list_items_ok [OF c d f _ _ s]) (auto simp: nth_append)
  with False show ?thesis by (simp add: list_single_def Let_def) (metis bindE_simps(2) case_prod_conv)
qed

subsection \<open>Printing many files\<close>

lemma foldE_ok:
  assumes "\<And>x T. x \<in> set xs \<Longrightarrow> P T \<Longrightarrow> \<exists>T'. f x T = Inr T' \<and> P T'"
  shows "P S \<Longrightarrow> \<exists>S'. foldE f xs S = Inr S' \<and> P S'"
  using assms
proof (induction xs arbitrary: S)
  case (Cons x xs)
  then obtain T where "f x S = Inr T" "P T" by (metis list.set_intros(1))
  with Cons show ?case by auto
qed simp

text \<open>The nodes of an array, all held and all seen.\<close>

definition array_seen :: "ls_env \<Rightarrow> addr set \<Rightarrow> 's ls \<Rightarrow> addr list \<Rightarrow> bool" where
  "array_seen E H S xs \<longleftrightarrow> set xs \<subseteq> H \<and> (\<forall>x \<in> set xs. node_seen E (follow_links S) (dn_at S x))"

lemma array_seen_steady: "array_seen E H S xs \<Longrightarrow> steady ok H S T \<Longrightarrow> array_seen E H T xs"
  unfolding array_seen_def steady_def opts_of_def by auto

lemma show_line_ok:
  assumes c: "conforming A ok" and x: "array_seen E H S xs" and f: "bit (list_fmt S) 10" and r: "set row \<subseteq> set xs"
    and s: "steady ok H S T"
  shows "\<exists>T'. show_line E A row T = Inr T' \<and> steady ok H S T'"
proof -
  have "\<exists>U. foldE (\<lambda>d T. list_single E A d (nexttabstop T)) row T = Inr U \<and> steady ok H S U"
  proof (rule foldE_ok [where P = "steady ok H S", OF _ s])
    fix d U assume d: "d \<in> set row" and U: "steady ok H S U"
    have U': "steady ok H S (nexttabstop U)" by (rule quiet_steady [OF _ U]) simp
    obtain H' where H': "H \<subseteq> H'" "ok (ls_lib (nexttabstop U)) H'" using U' by (rule steadyE)
    have "array_seen E H (nexttabstop U) xs" by (rule array_seen_steady [OF x U'])
    then have "node_seen E (follow_links (nexttabstop U)) (dn_at (nexttabstop U) d)" using d r by (auto simp: array_seen_def)
    moreover have "bit (list_fmt (nexttabstop U)) 10" using f U' by (simp add: steady_def opts_of_def)
    ultimately show "\<exists>V. list_single E A d (nexttabstop U) = Inr V \<and> steady ok H S V"
      using list_single_ok [OF c H'] steady_trans [OF U'] by blast
  qed
  then obtain U where "foldE (\<lambda>d T. list_single E A d (nexttabstop T)) row T = Inr U" "steady ok H S U" by blast
  then show ?thesis using quiet_steady [of U "newline U" ok H S] by (simp add: show_line_def)
qed

lemma showfiles_ok:
  assumes c: "conforming A ok" and k: "H \<subseteq> H'" "ok (ls_lib S) H'" and x: "array_seen E H S xs" and f: "bit (list_fmt S) 10"
    and n: "xs \<noteq> []"
  shows "\<exists>S'. showfiles E A (Some (base, xs)) (length xs) S = Inr S' \<and> steady ok H S S'"
proof -
  obtain rows w where r: "showfiles E A (Some (base, xs)) (length xs) S = foldE (show_line E A) rows (S\<lparr>column_width := w\<rparr>)"
    "mset (concat rows) = mset xs" using showfiles_rows [OF n] by blast
  have s: "steady ok H S (S\<lparr>column_width := w\<rparr>)" using k by (auto simp: steady_def)
  have "set row \<subseteq> set xs" if "row \<in> set rows" for row
    using that r(2) by (metis UN_upper set_concat mset_eq_setD)
  then have "\<exists>S'. foldE (show_line E A) rows (S\<lparr>column_width := w\<rparr>) = Inr S' \<and> steady ok H S S'"
    by (intro foldE_ok [where P = "steady ok H S", OF _ s]) (rule show_line_ok [OF c x f])
  then show ?thesis unfolding r(1) .
qed

subsection \<open>Directory trees\<close>

text \<open>
  The tree below \<open>p\<close> has at most \<open>n\<close> levels of directories, its names are names, its paths fit the message
  buffer, and its links and directories have a length that an \<open>int\<close> holds.
\<close>

fun tree_ok :: "ls_env \<Rightarrow> bool \<Rightarrow> nat \<Rightarrow> string \<Rightarrow> bool" where
  "tree_ok E follow 0 p = False"
| "tree_ok E follow (Suc n) p = (length p \<le> 550 \<and> (case env_readdir E p of None \<Rightarrow> True | Some es \<Rightarrow>
     length es < 2 ^ 31 \<and> (\<forall>e\<in>set es. entry_fits p e \<and>
       (case env_readlink E (join p e) of None \<Rightarrow> True | Some t \<Rightarrow> length t < 2 ^ 31) \<and>
       (case file_stat E follow (join p e) of Inl _ \<Rightarrow> True | Inr st \<Rightarrow>
          S_ISDIR (st_mode st) \<and> e \<noteq> ''.'' \<and> e \<noteq> ''..'' \<longrightarrow> tree_ok E follow n (join p e)))))"

lemma built_nodes:
  assumes b: "built E p ok H S xs (rev (listed E T p es))" and x: "x \<in> set xs"
    and t: "tree_ok E (follow_links S) (Suc n) p" and r: "env_readdir E p = Some es"
  shows "node_seen E (follow_links S) (dn_at S x)"
    and "is_subdir (dn_at S x) \<Longrightarrow> tree_ok E (follow_links S) n (fullname (dn_at S x))"
proof -
  obtain i where i: "i < length xs" "x = xs ! i" using x by (auto simp: in_set_conv_nth)
  have "list_all2 (\<lambda>x e. node_for E (follow_links S) p (dn_at S x) e) xs (rev (listed E T p es))"
    using b by (simp add: built_def)
  from list_all2_nthD [OF this i(1)] list_all2_lengthD [OF this] i obtain e where
    e: "e \<in> set (rev (listed E T p es))" "node_for E (follow_links S) p (dn_at S x) e" by (metis nth_mem)
  then have i: "e \<in> set es" by (auto simp: listed_def)
  have f: "entry_fits p e" "case env_readlink E (join p e) of None \<Rightarrow> True | Some t \<Rightarrow> length t < 2 ^ 31"
    "case file_stat E (follow_links S) (join p e) of Inl _ \<Rightarrow> True | Inr st \<Rightarrow>
       S_ISDIR (st_mode st) \<and> e \<noteq> ''.'' \<and> e \<noteq> ''..'' \<longrightarrow> tree_ok E (follow_links S) n (join p e)"
    using t r i by auto
  show "node_seen E (follow_links S) (dn_at S x)"
    using e(2) f(1,2) by (simp add: node_for_def node_seen_def entry_fits_def)
  show "tree_ok E (follow_links S) n (fullname (dn_at S x))" if "is_subdir (dn_at S x)"
    using that e(2) f(3) by (simp add: node_for_def is_subdir_def strcmp_eq_0)
qed

lemma bindO_unit: "bindO m (\<lambda>x. Some (Inr x)) = m"
  by (auto simp: bindO_def split: option.splits sum.splits)

lemma show_dir_list_Cons:
  "show_dir_list E A n (x # xs) S = bindO (show_dir_list E A n [x] S) (show_dir_list E A n xs)"
proof -
  have "show_dir_list E A n [] = (\<lambda>S. Some (Inr S))" by (rule ext) simp
  then show ?thesis by (simp only: show_dir_list.simps Let_def bindO_unit)
qed

lemma sort_array_perm:
  obtains zs where "sort_array S (Some (base, xs)) n = Some (base, zs)" "mset zs = mset xs" "length zs = length xs"
proof -
  let ?zs = "shellsort (\<lambda>a b. sortcmp (sort_opts S) (sort_order S) (dn_at S a) (dn_at S b)) xs n"
  have "mset ?zs = mset xs" by (simp add: shellsort_mset)
  then show ?thesis using that [of ?zs] mset_eq_length [of ?zs xs] by (simp add: sort_array_def)
qed

text \<open>All trees of at most \<open>n\<close> levels are listed within the depth \<open>n + 1\<close>.\<close>

definition trees_shown :: "ls_env \<Rightarrow> 's libc \<Rightarrow> ('s \<Rightarrow> addr set \<Rightarrow> bool) \<Rightarrow> nat \<Rightarrow> bool" where
  "trees_shown E A ok n \<longleftrightarrow> (\<forall>S H base xs. ok (ls_lib S) H \<longrightarrow> set xs \<subseteq> H \<longrightarrow> bit (list_fmt S) 10 \<longrightarrow>
     (\<forall>x\<in>set xs. tree_ok E (follow_links S) n (fullname (dn_at S x))) \<longrightarrow>
     (\<exists>S'. showdirs E A (Suc n) (Some (base, xs)) (length xs) S = Some (Inr S') \<and> steady ok H S S'))"

text \<open>What \<open>list_dir\<close> has put into an array: a chain of nodes in memory of its own.\<close>

definition shelf :: "ls_env \<Rightarrow> ('s \<Rightarrow> addr set \<Rightarrow> bool) \<Rightarrow> addr set \<Rightarrow> nat \<Rightarrow> 's ls \<Rightarrow> addr \<Rightarrow> addr list \<Rightarrow> bool" where
  "shelf E ok H n S base ys \<longleftrightarrow> ys \<noteq> [] \<and> length ys < 2 ^ 31 \<and> node_chain (dn_at S) (hd ys) ys \<and>
     distinct (node_frees (dn_at S) ys @ [base]) \<and> set (node_frees (dn_at S) ys @ [base]) \<inter> H = {} \<and>
     ok (ls_lib S) (H \<union> set (node_frees (dn_at S) ys @ [base])) \<and>
     (\<forall>x\<in>set ys. node_seen E (follow_links S) (dn_at S x) \<and>
       (is_subdir (dn_at S x) \<longrightarrow> tree_ok E (follow_links S) n (fullname (dn_at S x))))"

lemma list_dir_tree:
  assumes c: "conforming A ok" and k: "ok (ls_lib S) H" and t: "tree_ok E (follow_links S) (Suc n) p"
  shows "\<exists>dnp S'. list_dir E A (Some p) S = Inr (dnp, S') \<and> steady ok H S S' \<and> countfiles (dn_at S') dnp = Some (case dnp of None \<Rightarrow> 0 | Some (_, ys) \<Rightarrow> length ys) \<and>
    (case dnp of None \<Rightarrow> True | Some (base, ys) \<Rightarrow> shelf E ok H n S' base ys)"
proof (cases "env_readdir E p")
  case None
  then have "list_dir E A (Some p) S = Inr (None, S\<lparr>status := 1\<rparr>)"
    using t by (simp add: list_dir_def perror_fits)
  then show ?thesis using k by (auto simp: steady_def countfiles_def)
next
  case (Some es)
  have e: "length es < 2 ^ 31" "\<forall>e\<in>set es. entry_fits p e" using t Some by auto
  from list_dir_ok [OF c k Some e] obtain dnp S' where
    d: "list_dir E A (Some p) S = Inr (dnp, S')" "dir_result E p ok H S' (listed E S p es) dnp" "opts_of S' = opts_of S"
      "\<forall>x\<in>H. dn_at S' x = dn_at S x" by blast
  show ?thesis
  proof (cases dnp)
    case None
    then have "steady ok H S S'" using d by (auto simp: steady_def dir_result_def)
    with d(1) None show ?thesis by (auto simp: countfiles_def)
  next
    case [simp]: (Some b)
    obtain base ys where b: "b = (base, ys)" by fastforce
    have r: "ys \<noteq> []" "node_chain (dn_at S') (hd ys) ys" "base \<notin> H" "base \<notin> set (node_frees (dn_at S') ys)"
      "built E p ok (insert base H) S' ys (rev (listed E S p es))"
      using d(2) by (simp_all add: dir_result_def b)
    have "length ys = length (listed E S p es)" using r(5) by (auto simp: built_def dest: list_all2_lengthD)
    then have len: "length ys < 2 ^ 31" using e(1) unfolding listed_def by (metis length_filter_le le_less_trans)
    have m: "H \<union> set (node_frees (dn_at S') ys @ [base]) = insert base H \<union> set (node_frees (dn_at S') ys)" by auto
    have "shelf E ok H n S' base ys"
      unfolding shelf_def m using r len built_nodes [OF r(5) _ _ \<open>env_readdir E p = Some es\<close>] t opts_ofD(7) [OF d(3)]
      by (auto simp: built_def)
    moreover have "steady ok H S S'"
      by (rule steadyI [where H' = "insert base H \<union> set (node_frees (dn_at S') ys)"]) (use d r(5) in \<open>auto simp: built_def\<close>)
    moreover have "countfiles (dn_at S') dnp = Some (length ys)" using countfiles_chain [OF r(2,1)] by (simp add: b)
    ultimately show ?thesis using d(1) by (auto simp: b)
  qed
qed

text \<open>The recursive part of \<open>showdirs\<close>, for the array \<open>zs\<close> of one directory.\<close>

lemma show_subdirs_ok:
  assumes c: "conforming A ok" and i: "trees_shown E A ok n" and k: "ok (ls_lib S) H" and f: "bit (list_fmt S) 10"
    and z: "set zs \<subseteq> H" "length zs < 2 ^ 31" "zs \<noteq> []" "\<forall>x\<in>set zs. is_subdir (dn_at S x) \<longrightarrow> tree_ok E (follow_links S) n (fullname (dn_at S x))"
  shows "\<exists>S'. bindO (Some (splitdnarray A (dn_at S) (ls_lib S) (Some (base, zs)) (length zs) SPLIT_SUBDIR)) (\<lambda>(dnd, l).
      bindO (Some (from_option (countsubdirs (dn_at S) (Some (base, zs)) (length zs)))) (\<lambda>dndirs.
        if dndirs > 0
        then bindO (showdirs E A (Suc n) (sort_array S dnd dndirs) dndirs (S\<lparr>ls_lib := l\<rparr>)) (\<lambda>S5. Some (free_array A dnd S5))
        else Some (Inr (S\<lparr>ls_lib := l\<rparr>)))) = Some (Inr S') \<and> steady ok H S S'"
proof -
  let ?ws = "filter (\<lambda>a. split_keeps SPLIT_SUBDIR (dn_at S a)) (take (length zs) zs)"
  have cnt: "countsubdirs (dn_at S) (Some (base, zs)) (length zs) = Some (length ?ws)"
    using split_count [of "length zs" zs SPLIT_SUBDIR "dn_at S" base] z(3) by simp
  show ?thesis
  proof (cases "?ws = []")
    case True
    then have "splitdnarray A (dn_at S) (ls_lib S) (Some (base, zs)) (length zs) SPLIT_SUBDIR = Inr (None, ls_lib S)"
      using splitdnarray_split [of "length zs" zs SPLIT_SUBDIR "dn_at S" A "ls_lib S" NULL "ls_lib S" base] by simp
    with True cnt k show ?thesis by (auto simp: steady_def)
  next
    case False
    have "length ?ws < 2 ^ 31" using z(2) by (metis length_filter_le le_less_trans take_all order_refl)
    then obtain db l where d: "dnalloc A (ls_lib S) (length ?ws) = Inr (Some (db, replicate (length ?ws) NULL), l)"
      "db \<noteq> NULL" "db \<notin> H" "ok l (insert db H)"
      using dnalloc_ok [OF c k] False by (metis length_greater_0_conv)
    have sp: "splitdnarray A (dn_at S) (ls_lib S) (Some (base, zs)) (length zs) SPLIT_SUBDIR = Inr (Some (db, ?ws), l)"
      using splitdnarray_split [OF order_refl, OF d(1)] False by simp
    obtain vs where v: "sort_array S (Some (db, ?ws)) (length ?ws) = Some (db, vs)" "mset vs = mset ?ws" "length vs = length ?ws"
      by (rule sort_array_perm)
    let ?S = "S\<lparr>ls_lib := l\<rparr>"
    have sv: "set vs = set ?ws" using v(2) by (rule mset_eq_setD)
    have "ok (ls_lib ?S) (insert db H)" "set vs \<subseteq> insert db H" "bit (list_fmt ?S) 10"
      "\<forall>x\<in>set vs. tree_ok E (follow_links ?S) n (fullname (dn_at ?S x))"
      unfolding sv using d(4) z f by auto
    then obtain T where T: "showdirs E A (Suc n) (Some (db, vs)) (length vs) ?S = Some (Inr T)" "steady ok (insert db H) ?S T"
      using i unfolding trees_shown_def by blast
    obtain H' where H': "insert db H \<subseteq> H'" "ok (ls_lib T) H'" using T(2) by (rule steadyE)
    have "db = NULL \<or> db \<in> H'" using H'(1) by blast
    from conforming_free [OF c H'(2) this] obtain l2 where l2: "lib_free A (ls_lib T) db = Inr l2" "ok l2 (H' - {db})"
      by (rule takesE)
    have "steady ok H S (T\<lparr>ls_lib := l2\<rparr>)"
      by (rule steadyI [where H' = "H' - {db}"]) (use T(2) H'(1) d(3) l2(2) in \<open>auto simp: steady_def\<close>)
    then show ?thesis using sp cnt False v T(1) l2(1) by (simp add: free_array_def)
  qed
qed

lemma dfree_ok:
  assumes c: "conforming A ok" and k: "ok s H" and n: "node_chain N a ys" "distinct (node_frees N ys @ [base])"
    "set (node_frees N ys @ [base]) \<subseteq> H" and z: "zs \<noteq> []" "zs ! 0 \<in> set ys"
  obtains s' D where "dfree A N (Some (base, zs)) s = Inr s'" "ok s' (H - D)" "D \<subseteq> set (node_frees N ys @ [base])"
proof -
  obtain i where i: "i < length ys" "zs ! 0 = ys ! i" using z(2) by (auto simp: in_set_conv_nth)
  have e: "node_frees N ys = node_frees N (take i ys) @ node_frees N (drop i ys)"
    by (metis append_take_drop_id node_frees_simps(3))
  let ?ps = "node_frees N (drop i ys) @ [base]"
  have "distinct ?ps" "set ?ps \<subseteq> H" "set ?ps \<subseteq> set (node_frees N ys @ [base])" using n(2,3) unfolding e by auto
  moreover from this frees_ok [OF c k] obtain s' where "foldE (\<lambda>p s. lib_free A s p) ?ps s = Inr s'" "ok s' (H - set ?ps)"
    by (blast elim: takesE)
  ultimately show ?thesis using that [of s' "set ?ps"] dfree_suffix [OF n(1) i z(1)] by metis
qed

lemma shelf_kept:
  assumes "shelf E ok H n S base ys" "steady ok (H \<union> set (node_frees (dn_at S) ys @ [base])) S T"
  shows "node_chain (dn_at T) (hd ys) ys" "node_frees (dn_at T) ys = node_frees (dn_at S) ys"
proof -
  have "dn_at T x = dn_at S x" if "x \<in> set ys" for x
    using assms(2) node_frees_contains [OF that, of "dn_at S"] by (auto simp: steady_def)
  then show "node_chain (dn_at T) (hd ys) ys" "node_frees (dn_at T) ys = node_frees (dn_at S) ys"
    using assms(1) node_chain_cong [of ys "dn_at T" "dn_at S"] node_frees_cong [of ys "dn_at T" "dn_at S"]
    unfolding shelf_def by blast+
qed

text \<open>Listing the array of one directory, its subdirectories, and giving it back.\<close>

lemma show_shelf_ok:
  assumes c: "conforming A ok" and i: "trees_shown E A ok n" and f: "bit (list_fmt S) 10" and s: "shelf E ok H n S base ys"
  shows "\<exists>S'. (let subdnp1 = sort_array S (Some (base, ys)) (length ys)
     in bindO (Some (showfiles E A subdnp1 (length ys) S)) (\<lambda>S3.
        bindO (if disp_opts S3 AND DISP_RECURSIVE \<noteq> 0
               then bindO (Some (splitdnarray A (dn_at S3) (ls_lib S3) subdnp1 (length ys) SPLIT_SUBDIR)) (\<lambda>(dnd, l).
                    bindO (Some (from_option (countsubdirs (dn_at S3) subdnp1 (length ys)))) (\<lambda>dndirs.
                      if dndirs > 0
                      then bindO (showdirs E A (Suc n) (sort_array S3 dnd dndirs) dndirs (S3\<lparr>ls_lib := l\<rparr>)) (\<lambda>S5.
                             Some (free_array A dnd S5))
                      else Some (Inr (S3\<lparr>ls_lib := l\<rparr>))))
               else Some (Inr S3)) (\<lambda>S6.
        bindO (Some (dfree A (dn_at S6) subdnp1 (ls_lib S6))) (\<lambda>l. Some (Inr (S6\<lparr>ls_lib := l\<rparr>)))))) =
     Some (Inr S') \<and> steady ok H S S'"
proof -
  let ?M = "H \<union> set (node_frees (dn_at S) ys @ [base])"
  have y: "ys \<noteq> []" "length ys < 2 ^ 31" "distinct (node_frees (dn_at S) ys @ [base])" "set (node_frees (dn_at S) ys @ [base]) \<inter> H = {}"
    "ok (ls_lib S) ?M" "\<forall>x\<in>set ys. node_seen E (follow_links S) (dn_at S x)"
    "\<forall>x\<in>set ys. is_subdir (dn_at S x) \<longrightarrow> tree_ok E (follow_links S) n (fullname (dn_at S x))"
    using s by (simp_all add: shelf_def)
  obtain zs where z: "sort_array S (Some (base, ys)) (length ys) = Some (base, zs)" "mset zs = mset ys" "length zs = length ys"
    by (rule sort_array_perm)
  have zs: "set zs = set ys" "zs \<noteq> []" using z(2) y(1) by (auto dest: mset_eq_setD)
  have sub: "set zs \<subseteq> ?M" using node_frees_contains [of _ ys "dn_at S"] zs(1) by auto
  then have "array_seen E ?M S zs" using y(6) zs(1) by (simp add: array_seen_def)
  from showfiles_ok [OF c order_refl y(5) this f zs(2)] obtain S3 where
    S3: "showfiles E A (Some (base, zs)) (length ys) S = Inr S3" "steady ok ?M S S3" unfolding z(3) by blast
  have o3: "bit (list_fmt S3) 10" "follow_links S3 = follow_links S" using f S3(2) by (simp_all add: steady_def opts_of_def)
  obtain H3 where H3: "?M \<subseteq> H3" "ok (ls_lib S3) H3" using S3(2) by (rule steadyE)
  let ?rec = "if disp_opts S3 AND DISP_RECURSIVE \<noteq> 0
     then bindO (Some (splitdnarray A (dn_at S3) (ls_lib S3) (Some (base, zs)) (length ys) SPLIT_SUBDIR)) (\<lambda>(dnd, l).
          bindO (Some (from_option (countsubdirs (dn_at S3) (Some (base, zs)) (length ys)))) (\<lambda>dndirs.
            if dndirs > 0
            then bindO (showdirs E A (Suc n) (sort_array S3 dnd dndirs) dndirs (S3\<lparr>ls_lib := l\<rparr>)) (\<lambda>S5. Some (free_array A dnd S5))
            else Some (Inr (S3\<lparr>ls_lib := l\<rparr>))))
     else Some (Inr S3)"
  have "\<forall>x\<in>set zs. is_subdir (dn_at S3 x) \<longrightarrow> tree_ok E (follow_links S3) n (fullname (dn_at S3 x))"
    using y(7) zs(1) sub S3(2) o3(2) by (auto simp: steady_def)
  then have r: "\<forall>x\<in>set zs. is_subdir (dn_at S3 x) \<longrightarrow> tree_ok E (follow_links S3) n (fullname (dn_at S3 x))" .
  have l: "length zs < 2 ^ 31" "set zs \<subseteq> H3" using y(2) z(3) sub H3(1) by auto
  have "steady ok H3 S3 S3" using H3(2) by (auto simp: steady_def)
  then have "\<exists>S4. ?rec = Some (Inr S4) \<and> steady ok H3 S3 S4"
    using show_subdirs_ok [OF c i H3(2) o3(1) l(2,1) zs(2) r, of base] unfolding z(3)
    by (cases "disp_opts S3 AND DISP_RECURSIVE \<noteq> 0") (simp_all only: if_True if_False simp_thms, blast+)
  then obtain S4 where S4: "?rec = Some (Inr S4)" "steady ok H3 S3 S4" by blast
  have S6: "steady ok ?M S S4" by (rule steady_trans [OF S3(2) steady_mono [OF S4(2) H3(1)]])
  obtain H4 where H4: "?M \<subseteq> H4" "ok (ls_lib S4) H4" using S6 by (rule steadyE)
  note kept = shelf_kept [OF s S6]
  have in4: "set (node_frees (dn_at S4) ys @ [base]) \<subseteq> H4" "distinct (node_frees (dn_at S4) ys @ [base])"
    using kept(2) H4(1) y(3) by auto
  have z0: "zs ! 0 \<in> set ys" using zs by (metis length_greater_0_conv nth_mem)
  from dfree_ok [OF c H4(2) kept(1) in4(2,1) zs(2) z0] obtain l D where
    l: "dfree A (dn_at S4) (Some (base, zs)) (ls_lib S4) = Inr l" "ok l (H4 - D)" "D \<subseteq> set (node_frees (dn_at S4) ys @ [base])" .
  have "H \<subseteq> H4 - D" using y(4) l(3) H4(1) kept(2) by auto
  then have "steady ok H S (S4\<lparr>ls_lib := l\<rparr>)"
    using S6 l(2) by (intro steadyI [where H' = "H4 - D"]) (auto simp: steady_def)
  then show ?thesis unfolding z(1) Let_def S3(1) bindO_simps S4(1) l(1) by blast
qed

lemma show_one_dir_ok:
  assumes c: "conforming A ok" and i: "trees_shown E A ok n" and k: "H0 \<subseteq> H" "ok (ls_lib S) H" and f: "bit (list_fmt S) 10"
    and t: "tree_ok E (follow_links S) (Suc n) (fullname (dn_at S x))"
  shows "\<exists>S'. show_dir_list E A (Suc n) [x] S = Some (Inr S') \<and> steady ok H0 S S'"
proof -
  define S1 where "S1 = (if disp_opts S AND (DISP_DIRNAME OR DISP_RECURSIVE) \<noteq> 0
    then put ([newline_char] @ fullname (dn_at S x) @ '':'' @ [newline_char]) S else S)"
  have "quiet S S1" "steady ok H S S" using k(2) by (auto simp: S1_def steady_def)
  then have s1: "steady ok H S S1" by (rule quiet_steady)
  have k1: "ok (ls_lib S1) H" using k(2) by (simp add: S1_def put_def)
  have "follow_links S1 = follow_links S" by (simp add: S1_def put_def)
  then have o: "tree_ok E (follow_links S1) (Suc n) (fullname (dn_at S x))" using t by (simp only:)
  from list_dir_tree [OF c k1 o] obtain dnp S2 where
    d: "list_dir E A (Some (fullname (dn_at S x))) S1 = Inr (dnp, S2)" "steady ok H S1 S2"
      "countfiles (dn_at S2) dnp = Some (case dnp of None \<Rightarrow> 0 | Some (_, ys) \<Rightarrow> length ys)"
      "case dnp of None \<Rightarrow> True | Some (base, ys) \<Rightarrow> shelf E ok H n S2 base ys" by blast
  have s2: "steady ok H S S2" by (rule steady_trans [OF s1 d(2)])
  have f2: "bit (list_fmt S2) 10" using f s2 by (simp add: steady_def opts_of_def)
  have u: "show_dir_list E A (Suc n) [] = (\<lambda>S. Some (Inr S))" by (rule ext) simp
  show ?thesis
  proof (cases dnp)
    case None
    then have "show_dir_list E A (Suc n) [x] S = Some (Inr S2)"
      using d(1,3) by (simp add: S1_def [symmetric] Let_def del: showdirs.simps)
    then show ?thesis using steady_mono [OF s2 k(1)] by blast
  next
    case (Some b)
    obtain base ys where b: "b = (base, ys)" by fastforce
    have sh: "shelf E ok H n S2 base ys" "0 < length ys" using d(4) Some b by (auto simp: shelf_def)
    from show_shelf_ok [OF c i f2 sh(1)] obtain S' where S': "steady ok H S2 S'"
      "show_dir_list E A (Suc n) [x] S = Some (Inr S')"
      using d(1,3) sh(2) Some b
      by (auto simp: S1_def [symmetric] u bindO_unit Let_def simp del: showdirs.simps)
    then show ?thesis using steady_mono [OF steady_trans [OF s2 S'(1)] k(1)] by blast
  qed
qed

lemma show_dirs_ok:
  assumes c: "conforming A ok" and i: "trees_shown E A ok n"
  shows "H0 \<subseteq> H \<Longrightarrow> ok (ls_lib S) H \<Longrightarrow> bit (list_fmt S) 10 \<Longrightarrow> set xs \<subseteq> H0 \<Longrightarrow>
    \<forall>x\<in>set xs. tree_ok E (follow_links S) (Suc n) (fullname (dn_at S x)) \<Longrightarrow>
    \<exists>S'. show_dir_list E A (Suc n) xs S = Some (Inr S') \<and> steady ok H0 S S'"
proof (induction xs arbitrary: S H)
  case Nil
  then show ?case by (auto simp: steady_def)
next
  case (Cons x xs)
  have t: "tree_ok E (follow_links S) (Suc n) (fullname (dn_at S x))" using Cons.prems(5) by (meson list.set_intros(1))
  from show_one_dir_ok [OF c i Cons.prems(1-3) t] obtain T where
    T: "show_dir_list E A (Suc n) [x] S = Some (Inr T)" "steady ok H0 S T" by blast
  obtain H' where H': "H0 \<subseteq> H'" "ok (ls_lib T) H'" using T(2) by (rule steadyE)
  have o: "opts_of T = opts_of S" "\<forall>x\<in>H0. dn_at T x = dn_at S x" using T(2) by (simp_all add: steady_def)
  have "bit (list_fmt T) 10" "set xs \<subseteq> H0" using Cons.prems(3,4) opts_ofD [OF o(1)] by simp_all
  moreover have "\<forall>x\<in>set xs. tree_ok E (follow_links T) (Suc n) (fullname (dn_at T x))"
    using Cons.prems(4,5) o(2) unfolding opts_ofD(7) [OF o(1)] by (metis list.set_intros(2) subsetD)
  ultimately obtain S' where "show_dir_list E A (Suc n) xs T = Some (Inr S')" "steady ok H0 T S'"
    using Cons.IH [OF H'] by blast
  then show ?case using T(1) steady_trans [OF T(2)] by (subst show_dir_list_Cons) (simp del: showdirs.simps)
qed

lemma all_trees_shown:
  assumes c: "conforming (A :: 's libc) ok"
  shows "trees_shown E A ok n"
proof (induction n)
  case 0
  show ?case unfolding trees_shown_def
  proof (intro allI impI)
    fix S :: "'s ls" and H base and xs :: "addr list"
    assume "ok (ls_lib S) H" "\<forall>x\<in>set xs. tree_ok E (follow_links S) 0 (fullname (dn_at S x))"
    then show "\<exists>S'. showdirs E A (Suc 0) (Some (base, xs)) (length xs) S = Some (Inr S') \<and> steady ok H S S'"
      by (cases xs) (auto simp: steady_def)
  qed
next
  case (Suc n)
  show ?case unfolding trees_shown_def
  proof (intro allI impI)
    fix S :: "'s ls" and H base and xs :: "addr list"
    assume k: "ok (ls_lib S) H" and x: "set xs \<subseteq> H" and f: "bit (list_fmt S) 10"
      and t: "\<forall>x\<in>set xs. tree_ok E (follow_links S) (Suc n) (fullname (dn_at S x))"
    have "showdirs E A (Suc (Suc n)) (Some (base, xs)) (length xs) S = (if xs = [] then Some (Inr S) else show_dir_list E A (Suc n) xs S)"
      by (simp add: Suc_le_eq)
    then show "\<exists>S'. showdirs E A (Suc (Suc n)) (Some (base, xs)) (length xs) S = Some (Inr S') \<and> steady ok H S S'"
      using show_dirs_ok [OF c Suc.IH order_refl k f x t] k by (cases "xs = []") (auto simp: steady_def simp del: showdirs.simps)
  qed
qed

end
