(* ===== verification/Ls_Render.thy ===== *)
theory Ls_Render
  imports Ls_Heap Gc_Correct
begin

text \<open>
  How modes, sizes and paths are rendered, what the options come to, and how the lister uses memory: on the
  allocator of \<open>src/wlmalloc.c\<close> a symbolic link cannot be read, and sorting makes \<open>dfree\<close> lose nodes.
\<close>

subsection \<open>Modes\<close>

text \<open>Reading the permission bits back from a mode string.\<close>

definition parse_mode :: "string \<Rightarrow> mode_t" where
  "parse_mode s = foldr (\<lambda>i m.
     (if s ! Suc i \<in> set ''rwxst'' then MBIT ! i else 0) OR (if s ! Suc i \<in> set ''sStT'' then SBIT ! i else 0) OR m) [0..<9] 0"

lemma upt_9: "[0..<9] = [0, 1, 2, 3, 4, 5, 6, 7, 8::nat]"
  by (simp add: upt_0_step upt_rec_numeral)

lemma and_bit: "(m :: mode_t) AND 2 ^ k = (if bit m k then 2 ^ k else 0)"
  by (rule bit_word_eqI) (auto simp: bit_simps)

lemma nine: "i < 9 \<longleftrightarrow> i = 0 \<or> i = 1 \<or> i = 2 \<or> i = 3 \<or> i = 4 \<or> i = 5 \<or> i = 6 \<or> i = 7 \<or> i = (8::nat)"
  by auto

lemma mode_char:
  assumes "i < 9"
  shows "(mode_string m ! Suc i \<in> set ''rwxst'') = (m AND MBIT ! i \<noteq> 0)"
    "(mode_string m ! Suc i \<in> set ''sStT'') = (m AND SBIT ! i \<noteq> 0)"
proof -
  have c: "mode_string m ! Suc i =
     (if m AND SBIT ! i \<noteq> 0 then (if m AND MBIT ! i \<noteq> 0 then SMODE1 ! i else SMODE0 ! i)
      else (if m AND MBIT ! i \<noteq> 0 then MODE1 ! i else MODE0 ! i))"
    using assms by (simp add: mode_string_def)
  show "(mode_string m ! Suc i \<in> set ''rwxst'') = (m AND MBIT ! i \<noteq> 0)"
    "(mode_string m ! Suc i \<in> set ''sStT'') = (m AND SBIT ! i \<noteq> 0)"
    unfolding c using assms nine [of i]
    by (auto simp: SBIT_def SMODE1_def SMODE0_def MODE1_def MODE0_def)
qed

lemma parse_mode_string:
  "parse_mode (mode_string m) = foldr (\<lambda>i k. (m AND MBIT ! i) OR (m AND SBIT ! i) OR k) [0..<9] 0"
proof -
  have pow: "m AND b = (if m AND b \<noteq> 0 then b else 0)" if "b = 0 \<or> (\<exists>k. b = 2 ^ k)" for b
    using that and_bit [of m] by auto
  have pw: "b = 0 \<or> (\<exists>k. b = 2 ^ k)" if "b \<in> set SBIT \<union> set MBIT" for b :: mode_t
  proof -
    have "\<exists>k \<in> set [0..<12]. b = 2 ^ k" if "b \<noteq> 0"
      using that \<open>b \<in> set SBIT \<union> set MBIT\<close> by (auto simp: SBIT_def MBIT_def upt_0_step upt_rec_numeral)
    then show ?thesis by blast
  qed
  have len: "length MBIT = 9" "length SBIT = 9" by (simp_all add: MBIT_def SBIT_def)
  have q: "m AND MBIT ! i = (if m AND MBIT ! i \<noteq> 0 then MBIT ! i else 0)"
    "m AND SBIT ! i = (if m AND SBIT ! i \<noteq> 0 then SBIT ! i else 0)" if "i < 9" for i
    by (rule pow, rule pw, rule UnI2, rule nth_mem, simp add: len that, rule pow, rule pw, rule UnI1, rule nth_mem, simp add: len that)
  show ?thesis unfolding parse_mode_def
  proof (rule foldr_cong [OF refl refl])
    fix i and k :: mode_t assume "i \<in> set [0..<9]"
    then have i: "i < 9" by simp
    show "(if mode_string m ! Suc i \<in> set ''rwxst'' then MBIT ! i else 0) OR (if mode_string m ! Suc i \<in> set ''sStT'' then SBIT ! i else 0) OR k =
      (m AND MBIT ! i) OR (m AND SBIT ! i) OR k"
      unfolding mode_char [OF i] q [OF i, symmetric] by (rule refl)
  qed
qed

text \<open>
  C36: The ten characters of \<open>mode_string\<close> determine all twelve permission bits, the set-user-ID,
  set-group-ID and sticky bits included.
\<close>

theorem mode_string_faithful:
  "length (mode_string m) = 10 \<and> hd (mode_string m) = TYPECHAR m \<and> parse_mode (mode_string m) = m AND 0xFFF"
proof -
  have "parse_mode (mode_string m) = m AND 0xFFF"
    unfolding parse_mode_string upt_9 by (simp add: MBIT_def SBIT_def bit.conj_disj_distrib [symmetric])
  then show ?thesis by (simp add: mode_string_def)
qed

subsection \<open>Sizes\<close>






text \<open>1101107 bytes are just more than 1.05 MiB, and are shown as 1.0M.\<close>

theorem human_readable_cut: "make_human_readable_str 1101107 1 0 = ''1.0M''"
proof -
  have len: "length zero_and_units = 6" by (simp add: zero_and_units_def)
  have "human_loop 1 3 0 True = (1, 3, 0, True)"
    by (subst human_loop.simps) (simp add: KILOBYTE_def)
  then have "human_loop 1075 2 3 True = (1, 3, 0, True)"
    by (subst human_loop.simps) (simp add: KILOBYTE_def len flip: numeral_2_eq_2 numeral_3_eq_3)
  then have h: "human_loop 1101107 1 0 False = (1, 3, 0, True)"
    by (subst human_loop.simps) (simp add: KILOBYTE_def len flip: numeral_2_eq_2)
  have d: "digits 1 = ''1''" "digits 0 = ''0''" by (simp_all add: digits.simps)
  have "unat (1101107 * 1 :: 64 word) = 1101107" by simp
  then show ?thesis
    unfolding make_human_readable_str_def by (simp add: h d zero_and_units_def del: One_nat_def)
qed

text \<open>
  Rounding up can leave 1024 in front of the unit: one byte less than 1 MiB is shown as 1024.0k.
\<close>

theorem human_readable_1024: "make_human_readable_str 1048575 1 0 = ''1024.0k''"
proof -
  have len: "length zero_and_units = 6" by (simp add: zero_and_units_def)
  have "human_loop 1023 2 10 True = (1023, 2, 10, True)"
    by (subst human_loop.simps) (simp add: KILOBYTE_def)
  then have h: "human_loop 1048575 1 0 False = (1023, 2, 10, True)"
    by (subst human_loop.simps) (simp add: KILOBYTE_def len flip: numeral_2_eq_2)
  have d: "digits 1024 = ''1024''" "digits 0 = ''0''" by (simp_all add: digits.simps)
  have "unat (1048575 * 1 :: 64 word) = 1048575" by simp
  then show ?thesis
    unfolding make_human_readable_str_def by (simp add: h d zero_and_units_def del: One_nat_def)
qed

subsection \<open>Options\<close>

text \<open>What holds after any sequence of options.\<close>

definition opts_inv :: "'s ls \<Rightarrow> bool" where
  "opts_inv S \<longleftrightarrow> style_fmt S \<in> {STYLE_AUTO, STYLE_LONG, STYLE_SINGLE, STYLE_COLUMNS} \<and>
     sort_opts S \<in> {SORT_NAME, SORT_SIZE, SORT_ATIME, SORT_CTIME, SORT_MTIME, SORT_VERSION, SORT_EXT} \<and>
     bit (list_fmt S) 10 \<and> (style_fmt S = STYLE_LONG \<longrightarrow> bit (list_fmt S) 4) \<and>
     time_fmt S \<in> {0, TIME_CHANGE, TIME_ACCESS} \<and> sort_order S \<in> {0, SORT_REVERSE}"

lemmas opt_consts = STYLE_AUTO_def STYLE_LONG_def STYLE_SINGLE_def STYLE_COLUMNS_def SORT_NAME_def SORT_SIZE_def
  SORT_ATIME_def SORT_CTIME_def SORT_MTIME_def SORT_VERSION_def SORT_EXT_def TIME_CHANGE_def TIME_ACCESS_def SORT_REVERSE_def

lemma long_bits: "bit LIST_LONG 10" "bit LIST_LONG 4"
  by (simp_all add: LIST_LONG_def list_masks bit_simps)

lemma default_opts_inv: "opts_inv (default_opts E S)"
  by (simp add: opts_inv_def default_opts_def Let_def LIST_SHORT_def LIST_FILENAME_def opt_consts bit_simps)

lemma opts_inv_upd:
  assumes "opts_inv S"
  shows "opts_inv (S\<lparr>disp_opts := d\<rparr>)" "opts_inv (S\<lparr>list_fmt := list_fmt S OR m\<rparr>)"
    "opts_inv (S\<lparr>style_fmt := STYLE_SINGLE\<rparr>)" "opts_inv (S\<lparr>style_fmt := STYLE_COLUMNS\<rparr>)"
    "opts_inv (S\<lparr>style_fmt := STYLE_LONG, list_fmt := list_fmt S OR LIST_LONG, ls_disp_hr := h\<rparr>)"
    "opts_inv (S\<lparr>sort_order := sort_order S OR SORT_REVERSE\<rparr>)"
    "opts_inv (S\<lparr>sort_opts := SORT_SIZE\<rparr>)" "opts_inv (S\<lparr>sort_opts := SORT_VERSION\<rparr>)" "opts_inv (S\<lparr>sort_opts := SORT_EXT\<rparr>)"
    "opts_inv (S\<lparr>sort_opts := SORT_MTIME\<rparr>)" "opts_inv (S\<lparr>time_fmt := TIME_CHANGE, sort_opts := SORT_CTIME\<rparr>)"
    "opts_inv (S\<lparr>time_fmt := TIME_ACCESS, sort_opts := SORT_ATIME\<rparr>)" "opts_inv (S\<lparr>follow_links := l\<rparr>)"
    "opts_inv (S\<lparr>tabstops := w\<rparr>)" "opts_inv (S\<lparr>terminal_width := w\<rparr>)" "opts_inv (S\<lparr>ls_disp_hr := h\<rparr>)" "opts_inv S"
  using assms unfolding opts_inv_def by (auto simp: opt_consts long_bits bit_or_iff)

lemma if_Some_eq: "(if b then Some x else y) = Some z \<longleftrightarrow> b \<and> x = z \<or> \<not> b \<and> y = Some z"
  by auto

lemma apply_opt_inv:
  assumes "apply_opt p S = Some S'" "opts_inv S"
  shows "opts_inv S'"
proof -
  obtain c a where p: "p = (c, a)" by fastforce
  have "apply_opt (c, a) S = Some S' \<Longrightarrow> opts_inv S'"
    unfolding apply_opt_def prod.case if_Some_eq
    by (elim disjE conjE; (erule subst, rule opts_inv_upd [OF assms(2)])?) simp_all
  with assms(1) show ?thesis unfolding p by blast
qed

lemma apply_opts_inv: "apply_opts ps S = Some S' \<Longrightarrow> opts_inv S \<Longrightarrow> opts_inv S'"
proof (induction ps arbitrary: S)
  case (Cons p ps)
  then obtain T where "apply_opt p S = Some T" "apply_opts ps T = Some S'" by (auto simp: bind_eq_Some_conv)
  with Cons apply_opt_inv show ?case by blast
qed simp

lemma mask_bit: "(w :: u32) AND 2 ^ k \<noteq> 0 \<longleftrightarrow> bit w k"
  by (simp add: and_exp_eq_0_iff_not_bit)

lemma disp_bits: "(w :: u32) AND DISP_NOLIST \<noteq> 0 \<longleftrightarrow> bit w 3" "w AND DISP_RECURSIVE \<noteq> 0 \<longleftrightarrow> bit w 4"
  "w AND LIST_ID_NUMERIC \<noteq> 0 \<longleftrightarrow> bit w 5" "w AND LIST_ID_NAME \<noteq> 0 \<longleftrightarrow> bit w 4" "w AND LIST_FILENAME \<noteq> 0 \<longleftrightarrow> bit w 10"
  using mask_bit [of w 3] mask_bit [of w 4] mask_bit [of w 5] mask_bit [of w 10]
  by (simp_all add: disp_masks list_masks)

lemmas disp_bits0 = disp_bits [THEN arg_cong [where f = Not], unfolded not_not]

lemma settle_disp: "disp_opts (settle_opts E S) = (if bit (disp_opts S) 3 then disp_opts S AND NOT DISP_RECURSIVE else disp_opts S)"
  and settle_sort: "sort_opts (settle_opts E S) = (if time_fmt S AND TIME_ACCESS \<noteq> 0 then SORT_ATIME
      else if time_fmt S AND TIME_CHANGE \<noteq> 0 then SORT_CTIME else sort_opts S)"
  and settle_time: "time_fmt (settle_opts E S) = time_fmt S"
  and settle_style: "style_fmt (settle_opts E S) = (if style_fmt S = STYLE_AUTO then if env_tty E then STYLE_COLUMNS else STYLE_SINGLE
      else style_fmt S)"
  and settle_list: "list_fmt (settle_opts E S) = (if style_fmt S \<noteq> STYLE_LONG then list_fmt S AND NOT LIST_ID_NUMERIC
      else if bit (list_fmt S) 5 then list_fmt S AND NOT LIST_ID_NAME else list_fmt S)"
  unfolding settle_opts_def Let_def disp_bits [symmetric] by (simp_all add: STYLE_LONG_def STYLE_AUTO_def)

lemma settled_bits:
  "\<not> bit (w AND NOT DISP_RECURSIVE) 4" "\<not> bit (w AND NOT LIST_ID_NUMERIC) 5" "\<not> bit (w AND NOT LIST_ID_NAME) 4"
  "bit (w AND NOT LIST_ID_NUMERIC) 10 \<longleftrightarrow> bit w 10" "bit (w AND NOT LIST_ID_NAME) 10 \<longleftrightarrow> bit w 10"
  "bit (w AND NOT LIST_ID_NAME) 5 \<longleftrightarrow> bit w 5" "bit (w AND NOT DISP_RECURSIVE) 3 \<longleftrightarrow> bit w 3" for w :: u32
  by (simp_all add: disp_masks list_masks bit_simps)

text \<open>
  C38: Whatever options are given, in any order, the listing that follows has a definite style, one of the
  seven sort criteria and always the file name; with \<open>-d\<close> it never recurses; user and group are shown
  as numbers only in the long style and then not as names too; \<open>-c\<close> and \<open>-u\<close> decide the sort criterion.
\<close>

theorem options_settle:
  assumes "apply_opts opts (default_opts E S0) = Some Sa"
  shows "let S = settle_opts E Sa in
    style_fmt S \<in> {STYLE_LONG, STYLE_SINGLE, STYLE_COLUMNS} \<and>
    sort_opts S \<in> {SORT_NAME, SORT_SIZE, SORT_ATIME, SORT_CTIME, SORT_MTIME, SORT_VERSION, SORT_EXT} \<and>
    list_fmt S AND LIST_FILENAME \<noteq> 0 \<and>
    (disp_opts S AND DISP_NOLIST = 0 \<or> disp_opts S AND DISP_RECURSIVE = 0) \<and>
    (list_fmt S AND LIST_ID_NUMERIC = 0 \<or> style_fmt S = STYLE_LONG \<and> list_fmt S AND LIST_ID_NAME = 0) \<and>
    (style_fmt S = STYLE_LONG \<longrightarrow> list_fmt S AND LIST_ID_NUMERIC \<noteq> 0 \<or> list_fmt S AND LIST_ID_NAME \<noteq> 0) \<and>
    (time_fmt S = TIME_CHANGE \<longrightarrow> sort_opts S = SORT_CTIME) \<and> (time_fmt S = TIME_ACCESS \<longrightarrow> sort_opts S = SORT_ATIME)"
proof -
  let ?S = "settle_opts E Sa"
  have inv: "opts_inv Sa" by (rule apply_opts_inv [OF assms default_opts_inv])
  have f: "bit (list_fmt Sa) 10" "style_fmt Sa = STYLE_LONG \<Longrightarrow> bit (list_fmt Sa) 4"
    and t: "time_fmt Sa \<in> {0, TIME_CHANGE, TIME_ACCESS}"
    and o: "sort_opts Sa \<in> {SORT_NAME, SORT_SIZE, SORT_ATIME, SORT_CTIME, SORT_MTIME, SORT_VERSION, SORT_EXT}"
    using inv by (simp_all add: opts_inv_def)
  have la: "STYLE_LONG \<noteq> STYLE_AUTO" "STYLE_COLUMNS \<noteq> STYLE_LONG" "STYLE_SINGLE \<noteq> STYLE_LONG"
    by (simp_all add: STYLE_LONG_def STYLE_AUTO_def STYLE_COLUMNS_def STYLE_SINGLE_def)
  have long: "style_fmt ?S = STYLE_LONG \<longleftrightarrow> style_fmt Sa = STYLE_LONG" using la by (auto simp: settle_style)
  have "style_fmt ?S \<in> {STYLE_LONG, STYLE_SINGLE, STYLE_COLUMNS}" using inv by (auto simp: opts_inv_def settle_style)
  moreover have "sort_opts ?S \<in> {SORT_NAME, SORT_SIZE, SORT_ATIME, SORT_CTIME, SORT_MTIME, SORT_VERSION, SORT_EXT}"
    unfolding settle_sort using o by (cases "time_fmt Sa AND TIME_ACCESS \<noteq> 0"; cases "time_fmt Sa AND TIME_CHANGE \<noteq> 0") simp_all
  moreover have "bit (list_fmt ?S) 10" unfolding settle_list using f(1) by (simp add: settled_bits)
  moreover have "\<not> bit (disp_opts ?S) 3 \<or> \<not> bit (disp_opts ?S) 4" unfolding settle_disp by (simp add: settled_bits)
  moreover have "\<not> bit (list_fmt ?S) 5 \<or> style_fmt ?S = STYLE_LONG \<and> \<not> bit (list_fmt ?S) 4"
    unfolding long settle_list by (simp add: settled_bits)
  moreover have "style_fmt ?S = STYLE_LONG \<longrightarrow> bit (list_fmt ?S) 5 \<or> bit (list_fmt ?S) 4"
    unfolding long settle_list using f(2) by (simp add: settled_bits)
  moreover have "time_fmt ?S = TIME_CHANGE \<longrightarrow> sort_opts ?S = SORT_CTIME" "time_fmt ?S = TIME_ACCESS \<longrightarrow> sort_opts ?S = SORT_ATIME"
    unfolding settle_time settle_sort by (auto simp: TIME_CHANGE_def TIME_ACCESS_def)
  ultimately show ?thesis unfolding Let_def disp_bits disp_bits0 by blast
qed


lemma options_settle_witness:
  "\<exists>Sa. apply_opts [(CHR ''l'', []), (CHR ''n'', []), (CHR ''R'', []), (CHR ''d'', [])] (default_opts missing_files (ls_start (0 :: nat))) = Some Sa \<and>
     (disp_opts (settle_opts missing_files Sa) AND DISP_NOLIST = 0 \<or> disp_opts (settle_opts missing_files Sa) AND DISP_RECURSIVE = 0)"
proof -
  obtain Sa where Sa: "apply_opts [(CHR ''l'', []), (CHR ''n'', []), (CHR ''R'', []), (CHR ''d'', [])] (default_opts missing_files (ls_start (0 :: nat))) = Some Sa"
    by (simp add: apply_opt_def)
  from options_settle [OF Sa] Sa show ?thesis by (auto simp: Let_def)
qed

subsection \<open>Paths\<close>

text \<open>
  \<open>concat_path_file\<close> asks for exactly as many bytes as the joined path and its NUL need, whatever the
  path and the name are, so that \<open>sprintf\<close> never runs over the buffer.
\<close>

theorem concat_path_fits:
  "concat_path_file A s path file =
     bindE (xmalloc A s (of_nat (length (join (case path of None \<Rightarrow> '''' | Some p \<Rightarrow> p) file) + 1)))
       (\<lambda>(buf, s1). Inr (buf, join (case path of None \<Rightarrow> '''' | Some p \<Rightarrow> p) file, s1))"
  by (rule concat_path_join)

subsection \<open>The lister on the allocator\<close>

text \<open>
  On the allocator of this repository a symbolic link is never listed: \<open>xreadlink\<close> starts with
  \<open>xrealloc(NULL, 80)\<close>, the allocator's \<open>realloc\<close> returns \<open>NULL\<close> for a null pointer, and the error exit calls
  \<open>perror_msg\<close> without the \<open>NULL\<close> that ends its arguments.
\<close>

theorem link_listing_fails:
  "put_link E (wl_lib OS tc) d app info S =
     (if S_ISLNK (st_mode (dstat d)) then Inl Undefined else Inr (S, app, info))"
  by (simp add: put_link_def xreadlink_def readlink_loop.simps xrealloc_def realloc_def ERR_EXIT_def perror_msg_def)

text \<open>
  \<open>perror_msg\<close> joins its arguments in 555 bytes without looking at their length: for a path of 551 or
  more bytes the message of a failing \<open>stat\<close> runs over the buffer, for a shorter one it fits.
\<close>

theorem perror_overflow:
  "perror_msg [Some ''ls: '', Some path, None] = (if length path \<ge> 551 then Inl Undefined else Inr (''ls: '' @ path))"
  by (simp add: perror_msg_def)

subsection \<open>Freeing a sorted array\<close>

text \<open>
  \<open>dfree\<close> follows the chain from the first element of the array. After sorting, that element is some
  node of the chain, and the nodes before it, with their names, are never given back; none are lost
  exactly when the sorted array begins with the head of the chain.
\<close>

theorem dfree_frees_suffix:
  assumes "node_chain N a xs" "i < length xs" "ys ! 0 = xs ! i" "ys \<noteq> []"
  shows "dfree A N (Some (base, ys)) s = foldE (\<lambda>p s. lib_free A s p) (node_frees N (drop i xs) @ [base]) s"
  using assms by (rule dfree_suffix)

text \<open>Two files, read in the order a, b: the chain holds b and then a, the sorted array begins with a.\<close>

lemma demo_sorted: "sort_array demo_ls (Some (4, [8, 16])) 2 = Some (4, [16, 8])"
proof -
  have "sortcmp (sort_opts demo_ls) (sort_order demo_ls) (dn_at demo_ls 8) (dn_at demo_ls 16) = 1"
    by (simp add: sortcmp_def demo_ls_def ls_start_def name_def SORT_NAME_def SORT_SIZE_def SORT_ATIME_def SORT_CTIME_def
        SORT_MTIME_def SORT_DIR_def SORT_REVERSE_def)
  then show ?thesis
    by (simp add: sort_array_def shellsort_def shell_gaps.simps shell_pass_def shell_inner.simps swap_def upt_rec)
qed

lemma dfree_frees_suffix_witness:
  "dfree bump_lib (dn_at demo_ls) (sort_array demo_ls (Some (4, [8, 16])) 2) 100 = foldE (\<lambda>p s. lib_free bump_lib s p) [20, 16, 4] 100"
proof -
  have "node_chain (dn_at demo_ls) 8 [8, 16]" by (simp add: demo_ls_def)
  from dfree_frees_suffix [OF this, of 1 "[16, 8]" bump_lib 4 100] show ?thesis
    unfolding demo_sorted by (simp add: node_frees_def demo_ls_def)
qed

end
