(* ===== verification/Ls_Program.thy ===== *)
theory Ls_Program
  imports Ls_Returns Ls_Render
begin

text \<open>
  The lister as a whole: on a conforming library, for arguments whose trees have a bounded depth and
  paths that fit, every command line makes the program end, without an undefined step.
\<close>

subsection \<open>Directory trees\<close>

text \<open>
  C34: On a conforming library whose memory does not run out, \<open>showdirs\<close> ends: for directories whose trees have at most \<open>n\<close>
  levels, paths of at most 550 bytes, fewer than \<open>2 ^ 31\<close> entries each and link targets shorter than \<open>2 ^ 31\<close> (\<open>tree_ok\<close>), a
  recursion depth of \<open>n + 1\<close> is enough, with or without \<open>-R\<close>. Then no step on the way is undefined (no pointer outside
  an array is followed, nothing is freed twice, no buffer of the messages overruns), and the options and all nodes of
  the caller stay as they are. Longer paths can overrun the message buffer (\<open>perror_overflow\<close>).
\<close>

theorem showdirs_returns:
  assumes "conforming A ok" "ok (ls_lib S) H" "set xs \<subseteq> H" "list_fmt S AND LIST_FILENAME \<noteq> 0"
    and "\<forall>x\<in>set xs. tree_ok E (follow_links S) n (fullname (dn_at S x))"
  shows "\<exists>S'. showdirs E A (Suc n) (Some (base, xs)) (length xs) S = Some (Inr S') \<and>
    opts_of S' = opts_of S \<and> (\<forall>x\<in>H. dn_at S' x = dn_at S x)"
proof -
  have "bit (list_fmt S) 10" using assms(4) by (simp add: disp_bits)
  then show ?thesis
    using all_trees_shown [OF assms(1), of E n] assms(2,3,5) unfolding trees_shown_def steady_def by metis
qed

text \<open>The directory \<open>d\<close> of \<open>demo_tree\<close>, recursively.\<close>

definition demo_walk :: "nat ls" where
  "demo_walk = (ls_start 200)\<lparr>list_fmt := LIST_SHORT, disp_opts := DISP_RECURSIVE, dn_at := (\<lambda>_. \<lparr>name_off = 0, fullname_at = 12,
     fullname = ''d'', dstat = demo_stat 0x41ED, dn_next = NULL\<rparr>)\<rparr>"

lemma demo_tree_ok: "tree_ok demo_tree False (Suc (Suc 0)) ''d''"
  by (simp add: demo_tree_def entry_fits_def join_def file_stat_def demo_files_def demo_stat_def S_ISDIR_def missing_files_def)

lemma showdirs_returns_witness:
  "\<exists>S'. showdirs demo_tree bump_lib 3 (Some (4, [8])) 1 demo_walk = Some (Inr S') \<and> opts_of S' = opts_of demo_walk"
proof -
  have "bump_ok (ls_lib demo_walk) {4, 8, 12}" "set [8] \<subseteq> {4, 8, 12 :: addr}" "list_fmt demo_walk AND LIST_FILENAME \<noteq> 0"
    "\<forall>x\<in>set [8]. tree_ok demo_tree (follow_links demo_walk) (Suc (Suc 0)) (fullname (dn_at demo_walk x))"
    using demo_tree_ok by (simp_all add: demo_walk_def bump_ok_def ls_start_def LIST_SHORT_def LIST_FILENAME_def)
  from showdirs_returns [OF bump_conforming this, of 4] show ?thesis by (auto simp: numeral_3_eq_3)
qed

subsection \<open>The arguments\<close>

text \<open>An argument that fits, and whose tree does when it is a directory.\<close>

definition arg_ok :: "ls_env \<Rightarrow> bool \<Rightarrow> nat \<Rightarrow> string \<Rightarrow> bool" where
  "arg_ok E follow n a \<longleftrightarrow> length a \<le> 550 \<and> (case env_readlink E a of None \<Rightarrow> True | Some t \<Rightarrow> length t < 2 ^ 31) \<and>
     (case file_stat E follow a of Inl _ \<Rightarrow> True | Inr st \<Rightarrow> S_ISDIR (st_mode st) \<longrightarrow> tree_ok E follow n a)"

definition arg_node :: "ls_env \<Rightarrow> nat \<Rightarrow> 's ls \<Rightarrow> addr \<Rightarrow> bool" where
  "arg_node E n S x \<longleftrightarrow> node_seen E (follow_links S) (dn_at S x) \<and>
     (S_ISDIR (st_mode (dstat (dn_at S x))) \<longrightarrow> tree_ok E (follow_links S) n (fullname (dn_at S x)))"

text \<open>The nodes \<open>xs\<close> made so far: a chain from \<open>dn\<close>, all held.\<close>

definition args_inv :: "ls_env \<Rightarrow> ('s \<Rightarrow> addr set \<Rightarrow> bool) \<Rightarrow> nat \<Rightarrow> 's ls \<Rightarrow> addr list \<Rightarrow> addr \<times> nat \<times> 's ls \<Rightarrow> bool" where
  "args_inv E ok n S0 xs = (\<lambda>(dn, k, S). node_chain (dn_at S) dn xs \<and> k = length xs \<and> opts_of S = opts_of S0 \<and>
     (\<exists>H. set xs \<subseteq> H \<and> ok (ls_lib S) H) \<and> (\<forall>x\<in>set xs. arg_node E n S x))"

lemma args_invI:
  "node_chain (dn_at S) dn xs \<Longrightarrow> k = length xs \<Longrightarrow> opts_of S = opts_of S0 \<Longrightarrow> set xs \<subseteq> H \<Longrightarrow> ok (ls_lib S) H \<Longrightarrow>
   \<forall>x\<in>set xs. arg_node E n S x \<Longrightarrow> args_inv E ok n S0 xs (dn, k, S)"
  unfolding args_inv_def by blast

lemma arg_node_upd:
  assumes "arg_node E n S x" "x \<noteq> cur" "dn_at T = (dn_at S)(cur := d)" "follow_links T = follow_links S"
  shows "arg_node E n T x"
  using assms by (simp add: arg_node_def)

lemma ball_ConsI: "P x \<Longrightarrow> (\<And>y. y \<in> set xs \<Longrightarrow> P y) \<Longrightarrow> \<forall>y\<in>set (x # xs). P y"
  by simp

lemma xstrdup_ok:
  assumes "conforming A ok" "ok s H" "length a < 2 ^ 31"
  shows "gives ok H (xstrdup A s a)"
proof -
  have "of_nat (length a + 1) \<noteq> (0 :: size_t)" by (rule size_nonzero) (use assms(3) in auto)
  from conforming_malloc [OF assms(1,2) this] show ?thesis by (elim givesE) (simp add: xstrdup_def gives_def)
qed

lemma visit_arg_ok:
  assumes c: "conforming A ok" and i: "args_inv E ok n S0 xs X" and a: "arg_ok E (follow_links S0) n a"
  shows "\<exists>xs' Y. visit_arg E A a X = Inr Y \<and> args_inv E ok n S0 xs' Y \<and> length xs' \<le> length xs + 1"
proof -
  obtain dn k S where X: "X = (dn, k, S)" by (cases X) auto
  obtain H where S: "node_chain (dn_at S) dn xs" "k = length xs" "opts_of S = opts_of S0" "set xs \<subseteq> H" "ok (ls_lib S) H"
    "\<forall>x\<in>set xs. arg_node E n S x"
    using i by (auto simp: args_inv_def X)
  have fl: "follow_links S = follow_links S0" using S(3) by (rule opts_ofD)
  from xmalloc_ok [OF c S(5), of 168] obtain cur l1 where
    cur: "xmalloc A (ls_lib S) sizeof_dnode = Inr (cur, l1)" "cur \<noteq> NULL" "cur \<notin> H" "ok l1 (insert cur H)"
    by (auto simp: sizeof_dnode_def elim!: givesE)
  have "length a < 2 ^ 31" using a by (simp add: arg_ok_def)
  from xstrdup_ok [OF c cur(4) this] obtain fa l where
    fa: "xstrdup A l1 a = Inr (fa, l)" "fa \<noteq> NULL" "fa \<notin> insert cur H" "ok l (insert fa (insert cur H))"
    by (rule givesE)
  let ?d = "(dn_at S cur)\<lparr>fullname_at := fa, fullname := a, name_off := 0\<rparr>"
  let ?S = "S\<lparr>ls_lib := l, dn_at := (dn_at S)(cur := ?d)\<rparr>"
  have v: "visit_arg E A a X = chain_node E A cur (dn, k, ?S)" using cur(1) fa(1) by (simp add: visit_arg_def X)
  have notin: "x \<noteq> cur" if "x \<in> set xs" for x using that S(4) cur(3) by auto
  show ?thesis
  proof (cases "file_stat E (follow_links S0) a")
    case (Inl e)
    have "ok (ls_lib ?S) (insert fa (insert cur H))" "cur \<notin> H" "fa \<notin> H" "cur \<noteq> fa"
      "file_stat E (follow_links ?S) (fullname (dn_at ?S cur)) = Inl e" "length (fullname (dn_at ?S cur)) \<le> 550"
      "fullname_at (dn_at ?S cur) = fa" using fa cur Inl fl a by (auto simp: arg_ok_def)
    from chain_node_missing [OF c this] obtain l2 where
      l2: "ok l2 H" "visit_arg E A a X = Inr (dn, k, ?S\<lparr>errno := e, status := 1, ls_lib := l2\<rparr>)" unfolding v by metis
    let ?T = "?S\<lparr>errno := e, status := 1, ls_lib := l2\<rparr>"
    have "dn_at ?T x = dn_at S x" if "x \<in> set xs" for x using notin [OF that] by simp
    then have ch: "node_chain (dn_at ?T) dn xs" using S(1) node_chain_cong [of xs "dn_at ?T" "dn_at S"] by blast
    have t: "dn_at ?T = (dn_at S)(cur := ?d)" "follow_links ?T = follow_links S" by simp_all
    then have an: "\<forall>x\<in>set xs. arg_node E n ?T x" using S(6) notin arg_node_upd [OF _ _ t, of E n] by blast
    have "args_inv E ok n S0 xs (dn, k, ?T)"
      by (rule args_invI [OF ch _ _ S(4) _ an]) (use S(2,3) l2(1) in simp_all)
    with l2(2) show ?thesis by (intro exI [of _ xs]) auto
  next
    case (Inr st)
    let ?T = "?S\<lparr>dn_at := (dn_at ?S)(cur := (dn_at ?S cur)\<lparr>dstat := st, dn_next := dn\<rparr>)\<rparr>"
    have "file_stat E (follow_links ?S) (fullname (dn_at ?S cur)) = Inr st" using Inr fl by simp
    from chain_node_found [OF this] have r: "visit_arg E A a X = Inr (cur, k + 1, ?T)" unfolding v .
    have t: "dn_at ?T = (dn_at S)(cur := ?d\<lparr>dstat := st, dn_next := dn\<rparr>)" "follow_links ?T = follow_links S" by simp_all
    have "dn_at ?T x = dn_at S x" if "x \<in> set xs" for x using notin [OF that] by simp
    then have "node_chain (dn_at ?T) dn xs" using S(1) node_chain_cong [of xs "dn_at ?T" "dn_at S"] by blast
    then have "node_chain (dn_at ?T) cur (cur # xs)" using cur(2) by simp
    moreover have new: "arg_node E n ?T cur"
      using Inr fl a by (auto simp: arg_node_def node_seen_def arg_ok_def)
    have "arg_node E n ?T x" if "x \<in> set xs" for x
      by (rule arg_node_upd [OF _ notin [OF that] t]) (use S(6) that in blast)
    with new have "\<forall>x\<in>set (cur # xs). arg_node E n ?T x" by (rule ball_ConsI)
    moreover have "set (cur # xs) \<subseteq> insert fa (insert cur H)" using S(4) by auto
    ultimately have "args_inv E ok n S0 (cur # xs) (cur, k + 1, ?T)"
      by (elim args_invI [rotated 3]) (use S(2,3) fa(4) in simp_all)
    with r show ?thesis by (intro exI [of _ "cur # xs"]) auto
  qed
qed

lemma visit_args_ok:
  assumes c: "conforming A ok" and a: "\<forall>a\<in>set av. arg_ok E (follow_links S0) n a"
  shows "args_inv E ok n S0 xs X \<Longrightarrow>
    \<exists>xs' Y. foldE (visit_arg E A) av X = Inr Y \<and> args_inv E ok n S0 xs' Y \<and> length xs' \<le> length xs + length av"
  using a
proof (induction av arbitrary: xs X)
  case (Cons a av)
  then obtain ys Y where "visit_arg E A a X = Inr Y" "args_inv E ok n S0 ys Y" "length ys \<le> length xs + 1"
    using visit_arg_ok [OF c] by (metis list.set_intros(1))
  with Cons.IH [of ys Y] Cons.prems(2) show ?case by fastforce
qed auto

subsection \<open>The whole program\<close>

text \<open>\<open>-L\<close> makes the lister look through symbolic links.\<close>

definition follows :: "(char \<times> string) list \<Rightarrow> bool" where
  "follows opts \<longleftrightarrow> CHR ''L'' \<in> set (map fst opts)"

lemma apply_opt_keeps:
  assumes "apply_opt (c, a) S = Some S'"
  shows "ls_lib S' = ls_lib S" "follow_links S' = (c = CHR ''L'' \<or> follow_links S)"
proof -
  define Q where "Q r \<longleftrightarrow> (\<forall>T. r = Some T \<longrightarrow> ls_lib T = ls_lib S \<and> follow_links T = follow_links S)" for r :: "'a ls option"
  have q: "Q r \<Longrightarrow> Q r' \<Longrightarrow> Q (if b then r else r')" "ls_lib T = ls_lib S \<Longrightarrow> follow_links T = follow_links S \<Longrightarrow> Q (Some T)" "Q None"
    for r r' b T by (simp_all add: Q_def)
  have "ls_lib S' = ls_lib S \<and> follow_links S' = (c = CHR ''L'' \<or> follow_links S)"
  proof (cases "c = CHR ''L''")
    case True
    with assms show ?thesis by (auto simp: apply_opt_def)
  next
    case False
    have "Q (apply_opt (c, a) S)"
      unfolding apply_opt_def prod.case using False by (simp only: if_False) (intro q; simp)
    with assms False show ?thesis unfolding Q_def by simp
  qed
  then show "ls_lib S' = ls_lib S" "follow_links S' = (c = CHR ''L'' \<or> follow_links S)" by simp_all
qed

lemma apply_opts_follow:
  "apply_opts opts S = Some S' \<Longrightarrow> follow_links S' = (follows opts \<or> follow_links S)"
proof (induction opts arbitrary: S)
  case (Cons p opts)
  then obtain T where "apply_opt p S = Some T" "apply_opts opts T = Some S'" by (auto simp: bind_eq_Some_conv)
  with Cons.IH [of T] show ?case using apply_opt_keeps(2) [of "fst p" "snd p" S T] by (auto simp: follows_def)
qed (simp add: follows_def)

lemma settled:
  assumes "apply_opts opts (default_opts E (ls_start l)) = Some Sa"
  shows "follow_links (settle_opts E Sa) = follows opts" "bit (list_fmt (settle_opts E Sa)) 10"
    "ls_lib (settle_opts E Sa) = l"
proof -
  have "apply_opts opts S = Some S' \<Longrightarrow> ls_lib S' = ls_lib S" for S S' :: "'a ls"
  proof (induction opts arbitrary: S)
    case (Cons p opts)
    then obtain T where "apply_opt p S = Some T" "apply_opts opts T = Some S'" by (auto simp: bind_eq_Some_conv)
    with Cons.IH [of T] show ?case using apply_opt_keeps(1) [of "fst p" "snd p" S T] by simp
  qed simp
  from this [OF assms] show "ls_lib (settle_opts E Sa) = l"
    by (simp add: settle_opts_def Let_def default_opts_def ls_start_def)
  show "follow_links (settle_opts E Sa) = follows opts"
    using apply_opts_follow [OF assms] by (simp add: settle_opts_def Let_def default_opts_def ls_start_def)
  have "opts_inv Sa" by (rule apply_opts_inv [OF assms default_opts_inv])
  then show "bit (list_fmt (settle_opts E Sa)) 10" unfolding settle_list by (simp add: opts_inv_def settled_bits)
qed

lemma make_av_ok:
  assumes c: "conforming A ok" and k: "ok (ls_lib S) H" and n: "length args < 2 ^ 31"
  shows "\<exists>l H'. make_av A args S = Inr (if args = [] then [''.''] else args, S\<lparr>ls_lib := l\<rparr>) \<and> ok l H'"
proof (cases "args = []")
  case True
  from xcalloc_ok [OF c k, of 1] obtain p l1 where "xcalloc A (ls_lib S) 1 sizeof_ptr = Inr (p, l1)" "ok l1 (insert p H)"
    by (auto elim!: givesE)
  moreover from xstrdup_ok [OF c this(2), of "''.''"] obtain q l2 where "xstrdup A l1 ''.'' = Inr (q, l2)" "ok l2 (insert q (insert p H))"
    by (auto elim!: givesE)
  ultimately show ?thesis using True by (auto simp: make_av_def)
next
  case False
  then have "0 < length args" by simp
  from xcalloc_ok [OF c k this n] obtain p l1 where "xcalloc A (ls_lib S) (of_nat (length args)) sizeof_ptr = Inr (p, l1)" "ok l1 (insert p H)"
    by (auto elim!: givesE)
  with False show ?thesis by (auto simp: make_av_def Suc_le_eq)
qed

lemma node_array_ok:
  assumes c: "conforming A ok" and k: "ok (ls_lib S) H" and n: "node_chain (dn_at S) dn xs" "length xs < 2 ^ 31"
  shows "\<exists>base l H'. node_array A dn (length xs) S = Inr (if xs = [] then None else Some (base, xs), S\<lparr>ls_lib := l\<rparr>) \<and> H \<subseteq> H' \<and> ok l H'"
proof (cases "xs = []")
  case True
  then show ?thesis using k by (auto simp: node_array_def dnalloc_def intro!: exI [of _ "ls_lib S"])
next
  case False
  then have "0 < length xs" by simp
  from dnalloc_ok [OF c k this n(2)] obtain b l where
    "dnalloc A (ls_lib S) (length xs) = Inr (Some (b, replicate (length xs) NULL), l)" "ok l (insert b H)" .
  then show ?thesis using False fill_nodes_chain [OF n(1)]
    by (auto simp: node_array_def intro!: exI [of _ "insert b H"])
qed

lemma splitdnarray_ok:
  assumes c: "conforming A ok" and k: "ok s H" and n: "length xs < 2 ^ 31"
  shows "\<exists>p l H'. splitdnarray A N s (Some (b, xs)) (length xs) which =
      Inr (if filter (\<lambda>a. split_keeps which (N a)) xs = [] then None else Some (p, filter (\<lambda>a. split_keeps which (N a)) xs), l) \<and>
    H \<subseteq> H' \<and> ok l H'"
proof (cases "filter (\<lambda>a. split_keeps which (N a)) xs = []")
  case True
  then have "splitdnarray A N s (Some (b, xs)) (length xs) which = Inr (None, s)"
    using splitdnarray_split [of "length xs" xs which N A s NULL s b] by simp
  with True k show ?thesis by auto
next
  case False
  have "length (filter (\<lambda>a. split_keeps which (N a)) xs) < 2 ^ 31" using n by (metis length_filter_le le_less_trans)
  then obtain p l where "dnalloc A s (length (filter (\<lambda>a. split_keeps which (N a)) xs)) =
      Inr (Some (p, replicate (length (filter (\<lambda>a. split_keeps which (N a)) xs)) NULL), l)" "ok l (insert p H)"
    using dnalloc_ok [OF c k] False by (metis length_greater_0_conv)
  then have "splitdnarray A N s (Some (b, xs)) (length xs) which = Inr (Some (p, filter (\<lambda>a. split_keeps which (N a)) xs), l)"
    using splitdnarray_split [of "length xs" xs which N A s p l b] False by simp
  with False \<open>ok l (insert p H)\<close> show ?thesis by auto
qed

lemma show_sorted_ok:
  assumes c: "conforming A ok" and k: "H \<subseteq> H'" "ok (ls_lib S) H'" and x: "array_seen E H S xs" and f: "bit (list_fmt S) 10"
  shows "\<exists>S'. (if 0 < length xs then showfiles E A (sort_array S (if xs = [] then None else Some (b, xs)) (length xs)) (length xs) S else Inr S) = Inr S' \<and>
    steady ok H S S'"
proof (cases "xs = []")
  case True
  then show ?thesis using k by (auto simp: steady_def)
next
  case False
  obtain zs where z: "sort_array S (Some (b, xs)) (length xs) = Some (b, zs)" "mset zs = mset xs" "length zs = length xs"
    by (rule sort_array_perm)
  then have "array_seen E H S zs" "zs \<noteq> []" using x False by (auto simp: array_seen_def dest: mset_eq_setD)
  from showfiles_ok [OF c k this(1) f this(2), of b] show ?thesis using z False by simp
qed

lemma show_trees_ok:
  assumes c: "conforming A ok" and k: "H \<subseteq> H'" "ok (ls_lib S) H'" and x: "set xs \<subseteq> H" and f: "bit (list_fmt S) 10"
    and t: "\<forall>x\<in>set xs. tree_ok E (follow_links S) n (fullname (dn_at S x))"
  shows "\<exists>S'. (if 0 < length xs then showdirs E A (Suc n) (sort_array S (if xs = [] then None else Some (b, xs)) (length xs)) (length xs) S
    else Some (Inr S)) = Some (Inr S')"
proof (cases "xs = []")
  case False
  obtain zs where z: "sort_array S (Some (b, xs)) (length xs) = Some (b, zs)" "mset zs = mset xs" "length zs = length xs"
    by (rule sort_array_perm)
  have s: "set zs = set xs" using z(2) by (rule mset_eq_setD)
  have "set zs \<subseteq> H'" "\<forall>x\<in>set zs. tree_ok E (follow_links S) n (fullname (dn_at S x))" using x t k unfolding s by auto
  then have "\<exists>S'. showdirs E A (Suc n) (Some (b, zs)) (length zs) S = Some (Inr S')"
    using all_trees_shown [OF c, of E n] k(2) f unfolding trees_shown_def by blast
  then show ?thesis using z False by (simp del: showdirs.simps)
qed simp

text \<open>The arguments as they are listed: directories and the other files.\<close>

lemma ls_body_ok:
  assumes c: "conforming A ok" and i: "args_inv E ok n S0 xs (dn, k, S1)" and f: "bit (list_fmt S0) 10" and len: "length xs < 2 ^ 31"
  shows "\<exists>r. bindO (Some (node_array A dn k S1)) (\<lambda>(dnp, S2).
      if disp_opts S2 AND DISP_NOLIST \<noteq> 0
      then bindO (Some (if k > 0 then showfiles E A (sort_array S2 dnp k) k S2 else Inr S2))
             (\<lambda>S3. Some (Inr (Some (status S3), S3)))
      else bindO (Some (splitdnarray A (dn_at S2) (ls_lib S2) dnp k SPLIT_DIR)) (\<lambda>(dnd, l3).
           bindO (Some (splitdnarray A (dn_at S2) l3 dnp k SPLIT_FILE)) (\<lambda>(dnf, l4).
           bindO (Some (from_option (countdirs (dn_at S2) dnp k))) (\<lambda>dndirs.
           let S4 = S2\<lparr>ls_lib := l4\<rparr>; dnfiles = k - dndirs
           in bindO (Some (if dnfiles > 0 then showfiles E A (sort_array S4 dnf dnfiles) dnfiles S4 else Inr S4)) (\<lambda>S5.
              bindO (if dndirs > 0 then showdirs E A (Suc n) (sort_array S5 dnd dndirs) dndirs S5 else Some (Inr S5))
                (\<lambda>S6. Some (Inr (Some (status S6), S6)))))))) = Some (Inr r)"
proof -
  obtain H where S1: "node_chain (dn_at S1) dn xs" "k = length xs" "opts_of S1 = opts_of S0" "set xs \<subseteq> H" "ok (ls_lib S1) H"
    "\<forall>x\<in>set xs. arg_node E n S1 x" using i by (auto simp: args_inv_def)
  from node_array_ok [OF c S1(5,1) len] obtain base l H2 where
    na: "node_array A dn k S1 = Inr (if xs = [] then None else Some (base, xs), S1\<lparr>ls_lib := l\<rparr>)" "H \<subseteq> H2" "ok l H2"
    unfolding S1(2) by blast
  let ?N = "dn_at S1" and ?S2 = "S1\<lparr>ls_lib := l\<rparr>" and ?dnp = "if xs = [] then None else Some (base, xs)"
  have f1: "bit (list_fmt S1) 10" using f opts_ofD(3) [OF S1(3)] by simp
  have seen: "\<forall>x\<in>set xs. node_seen E (follow_links S1) (?N x)" using S1(6) by (simp add: arg_node_def)
  show ?thesis
  proof (cases "disp_opts ?S2 AND DISP_NOLIST \<noteq> 0")
    case True
    have "array_seen E H ?S2 xs" "ok (ls_lib ?S2) H2" "bit (list_fmt ?S2) 10" using S1(4) seen na(3) f1 by (simp_all add: array_seen_def)
    from show_sorted_ok [OF c na(2) this(2,1,3), of base] obtain S3 where
      "(if 0 < length xs then showfiles E A (sort_array ?S2 ?dnp (length xs)) (length xs) ?S2 else Inr ?S2) = Inr S3" by blast
    then show ?thesis unfolding na(1) bindO_simps prod.case if_P [OF True] unfolding S1(2) by (simp only: bindO_simps) blast
  next
    case False
    let ?ds = "filter (\<lambda>a. split_keeps SPLIT_DIR (?N a)) xs" and ?fs = "filter (\<lambda>a. split_keeps SPLIT_FILE (?N a)) xs"
    have "\<exists>pd l3 H3. splitdnarray A ?N l ?dnp (length xs) SPLIT_DIR = Inr (if ?ds = [] then None else Some (pd, ?ds), l3) \<and> H2 \<subseteq> H3 \<and> ok l3 H3"
      using splitdnarray_ok [OF c na(3) len, of ?N base SPLIT_DIR] na(3) by (cases "xs = []") (auto simp: splitdnarray_def)
    then obtain pd l3 H3 where d: "splitdnarray A ?N l ?dnp (length xs) SPLIT_DIR = Inr (if ?ds = [] then None else Some (pd, ?ds), l3)"
      "H2 \<subseteq> H3" "ok l3 H3" by blast
    have "\<exists>pf l4 H4. splitdnarray A ?N l3 ?dnp (length xs) SPLIT_FILE = Inr (if ?fs = [] then None else Some (pf, ?fs), l4) \<and> H3 \<subseteq> H4 \<and> ok l4 H4"
      using splitdnarray_ok [OF c d(3) len, of ?N base SPLIT_FILE] d(3) by (cases "xs = []") (auto simp: splitdnarray_def)
    then obtain pf l4 H4 where e: "splitdnarray A ?N l3 ?dnp (length xs) SPLIT_FILE = Inr (if ?fs = [] then None else Some (pf, ?fs), l4)"
      "H3 \<subseteq> H4" "ok l4 H4" by blast
    have cnt: "countdirs ?N ?dnp (length xs) = Some (length ?ds)"
      using count_loop_filter [of 0 "length xs" xs "\<lambda>a. S_ISDIR (st_mode (dstat (?N a)))" 0] by (auto simp: countdirs_def Suc_le_eq)
    have nf: "length xs - length ?ds = length ?fs"
      using sum_length_filter_compl [of "\<lambda>a. split_keeps SPLIT_DIR (?N a)" xs] by simp
    let ?S4 = "S1\<lparr>ls_lib := l4\<rparr>"
    have H4: "H \<subseteq> H4" "ok (ls_lib ?S4) H4" "bit (list_fmt ?S4) 10" using na(2) d(2) e(2,3) f1 by auto
    have "array_seen E H ?S4 ?fs" using S1(4) seen by (auto simp: array_seen_def)
    from show_sorted_ok [OF c H4(1,2) this H4(3), of pf] obtain S5 where
      S5: "(if 0 < length ?fs then showfiles E A (sort_array ?S4 (if ?fs = [] then None else Some (pf, ?fs)) (length ?fs)) (length ?fs) ?S4
        else Inr ?S4) = Inr S5" "steady ok H ?S4 S5" by blast
    obtain H5 where H5: "H \<subseteq> H5" "ok (ls_lib S5) H5" using S5(2) by (rule steadyE)
    have o5: "opts_of S5 = opts_of S1" "\<forall>x\<in>H. dn_at S5 x = ?N x" using S5(2) by (simp_all add: steady_def)
    have "set ?ds \<subseteq> H" "bit (list_fmt S5) 10" "\<forall>x\<in>set ?ds. tree_ok E (follow_links S5) n (fullname (dn_at S5 x))"
      using S1(4,6) f1 o5 opts_ofD(3,7) [OF o5(1)] by (auto simp: arg_node_def subset_iff)
    from show_trees_ok [OF c H5 this, of pd] obtain S6 where
      S6: "(if 0 < length ?ds then showdirs E A (Suc n) (sort_array S5 (if ?ds = [] then None else Some (pd, ?ds)) (length ?ds)) (length ?ds) S5
        else Some (Inr S5)) = Some (Inr S6)" by blast
    have s: "dn_at ?S2 = ?N" "ls_lib ?S2 = l" "?S2\<lparr>ls_lib := l4\<rparr> = ?S4" by simp_all
    show ?thesis
      unfolding na(1) bindO_simps prod.case if_not_P [OF False] s unfolding S1(2) d(1) e(1) cnt bindO_simps prod.case from_option_simps
        Let_def nf s S5(1) S6 by blast
  qed
qed

text \<open>
  C35: The program ends and returns 0 for every command line, on a conforming library, when the trees of
  the arguments (of the current directory when there are none) have at most \<open>n\<close> levels and paths of at most
  550 bytes: a recursion depth of \<open>n + 1\<close> is enough and no step is undefined. With \<open>-L\<close> this is asked of the trees
  as they are seen through symbolic links.
\<close>

theorem ls_returns:
  assumes "conforming A ok" "ok l H" "length args < 2 ^ 31"
    and "\<forall>a\<in>set (if args = [] then [''.''] else args). arg_ok E (follows opts) n a"
  shows "\<exists>S'. ls_program E A (Suc n) opts args (ls_start l) = Some (Inr (0, S'))"
proof (cases "apply_opts opts (default_opts E (ls_start l))")
  case None
  then show ?thesis by (simp add: ls_program_def ls_main_def)
next
  case (Some Sa)
  let ?av = "if args = [] then [''.''] else args"
  note st = settled [OF Some]
  have "ok (ls_lib (settle_opts E Sa)) H" using st(3) assms(2) by simp
  from make_av_ok [OF assms(1) this assms(3)] obtain l1 H1 where
    av: "make_av A args (settle_opts E Sa) = Inr (?av, (settle_opts E Sa)\<lparr>ls_lib := l1\<rparr>)" "ok l1 H1" by blast
  define S where "S = (if length ?av > 1 then (settle_opts E Sa)\<lparr>ls_lib := l1, disp_opts := disp_opts (settle_opts E Sa) OR DISP_DIRNAME\<rparr>
    else (settle_opts E Sa)\<lparr>ls_lib := l1\<rparr>)"
  have S: "follow_links S = follows opts" "bit (list_fmt S) 10" "ls_lib S = l1" using st by (simp_all add: S_def)
  have "args_inv E ok n S [] (NULL, 0, S)" using av(2) S(3) by (auto simp: args_inv_def)
  from visit_args_ok [OF assms(1) _ this, of ?av] assms(4) S(1) obtain xs Y where
    Y: "foldE (visit_arg E A) ?av (NULL, 0, S) = Inr Y" "args_inv E ok n S xs Y" "length xs \<le> length ?av" by auto
  obtain dn k S1 where y: "Y = (dn, k, S1)" by (cases Y) auto
  have "length xs < 2 ^ 31" using Y(3) assms(3) by (auto split: if_splits)
  from ls_body_ok [OF assms(1) Y(2) [unfolded y] S(2) this] show ?thesis
    unfolding ls_program_def ls_main_def Some option.case av(1) bindO_simps prod.case Let_def
    using Y(1) unfolding y S_def by (auto simp del: showdirs.simps)
qed

text \<open>\<open>ls -lR d\<close> on the small file system.\<close>

lemma ls_returns_witness:
  "\<exists>S'. ls_program demo_tree bump_lib 3 [(CHR ''l'', []), (CHR ''R'', [])] [''d''] (ls_start 8) = Some (Inr (0, S'))"
proof -
  have "\<not> follows [(CHR ''l'', []), (CHR ''R'', [])]" by (simp add: follows_def)
  moreover have "arg_ok demo_tree False (Suc (Suc 0)) ''d''"
    unfolding arg_ok_def using demo_tree_ok by (simp add: demo_tree_def missing_files_def split: sum.split del: tree_ok.simps)
  ultimately have "\<forall>a\<in>set (if [''d''] = [] then [''.''] else [''d'']). arg_ok demo_tree (follows [(CHR ''l'', []), (CHR ''R'', [])]) (Suc (Suc 0)) a"
    by simp
  moreover have "bump_ok 8 {}" "length [''d''] < 2 ^ 31" by (simp_all add: bump_ok_def)
  ultimately show ?thesis using ls_returns [OF bump_conforming] by (metis numeral_3_eq_3)
qed

end
