(* ===== verification/Spec2Isabelle.thy ===== *)
theory Spec2Isabelle
  imports Base_Correct Alloc_Twice Thread_Exit Tri_Demo Gc_Bugs Gc_Run Gcbench_Gc Log Ls_Program
begin

text \<open>
  A verification library for 3RMM (\<open>src/src\<close>): a thread-caching memory allocator that replaces the libc
  functions \<open>malloc\<close>, \<open>free\<close>, \<open>calloc\<close> and \<open>realloc\<close>, redundant (triple) storage on top of it, a
  conservative garbage collector on top of it, the logger the collector uses, the directory lister \<open>ls.c\<close>, the
  program the allocator is tried on, and the two programs under \<open>src/test_benchmark\<close>.

  \<^bold>\<open>Parts of the program and theories.\<close>

  \<^item> \<open>Prelude\<close>: LP64 machine types, the outcome of a C call (\<open>Exit\<close>, \<open>Deadlock\<close>, \<open>Undefined\<close> or a value), the
    byte memory with \<open>memcpy\<close>, \<open>memset\<close>, \<open>memcmp\<close>.
  \<^item> \<open>Ring_Interface\<close>, \<open>Link_List\<close>: the intrusive list of \<open>src/list.h\<close>, a memory of links with many disjoint
    rings; the locale is the contract the allocator relies on and \<open>Link_List\<close> interprets it.
    \<open>Base_Correct\<close> states the list properties: insertion, removal, splicing and traversal refine
    operations on lists.
  \<^item> \<open>Size_Class\<close>: the tables and \<open>size2cls\<close> of \<open>src/wlmalloc.c\<close> and the generator \<open>src/sizeclass.c\<close>. The generator is
    shown to make exactly these tables.
  \<^item> \<open>Span\<close>, \<open>Pool\<close>, \<open>Tcache\<close>, \<open>Malloc\<close>: span headers and their blocks (\<open>get_blk\<close>, \<open>release_blk\<close>), the global pool
    (\<open>global_init\<close>, \<open>acquire_span\<close>, the system calls), the cache of a thread (\<open>small_alloc\<close>, \<open>span_free_blk\<close>,
    \<open>thread_exit\<close>) and the entry points. The state is the record \<open>wl\<close>: the links, a span header per address, the
    pool, a cache per thread, user memory, and the number of system calls made. \<open>mmap\<close>, \<open>munmap\<close> and the place
    of static storage are the record \<open>os_env\<close>; \<open>env_ok\<close> states what the proofs need of them: the pool's structure and
    the cache of the thread lie apart, and mapped areas are not \<open>NULL\<close>, end at most at \<open>2 ^ 47\<close> and are apart from both.
  \<^item> \<open>Alloc_Inv\<close>, \<open>Alloc_Safe\<close>, \<open>Alloc_Init\<close>: the invariant \<open>alloc_wf\<close> of a state with a view of its lists, and that every
    operation keeps it. \<open>Client\<close>: the orderly runs of a program of one thread (\<open>reach\<close>), by rule induction: it asks for
    1 to 16384 bytes at a time, gives back blocks it holds, writes inside them, and makes no request while a suspended
    span of the class has a free block again (\<open>can_ask\<close>). The properties over runs are about these runs only; the
    other runs are in the model too, and go wrong: \<open>Alloc_Bugs\<close> has states from which the code does not do what it means
    to, \<open>Alloc_Twice\<close> a run of thirteen requests, evaluated step by step, that leaves the invariant there and ends with
    one block handed out twice. \<open>Alloc_Progress\<close>: requests are answered while the first area lasts. \<open>Alloc_Correct\<close>: the
    resulting properties. \<open>Thread_Exit\<close>: what the exit of a thread hands to the pool, for all contents of the lists of
    the thread and the pool, and how after an orderly run a block that outlives its thread brings the allocator down.
  \<^item> \<open>Block_Interface\<close>: the store of blocks as a locale, what the layers above rely on; \<open>Client\<close> interprets it on
    the allocator.
  \<^item> \<open>Tri_Mod\<close>: \<open>tri_mod_alloc\<close>, \<open>tri_mod_free\<close>, \<open>tri_mod_read\<close>, \<open>tri_mod_write\<close>; the read refines a majority vote.
    \<open>Tri_Demo\<close>: the program \<open>test_benchmark/tri_mod_test.c\<close>, which damages one copy and reads the value back.
  \<^item> \<open>Gc\<close>: the collector of \<open>src/wlgc.c\<close> over any C library \<open>A\<close>. \<open>Gc_Table\<close>: the hash table; \<open>Gc_Mark\<close>: marking against
    reachability; \<open>Gc_Sweep\<close>, \<open>Gc_Collect\<close>: sweeping, collecting, allocating and freeing inside the locale \<open>gc_store\<close>,
    which extends the store of blocks; \<open>Gc_Resize\<close>: doubling the table. \<open>Gc_Correct\<close> interprets the locale on the
    allocator and states the properties; \<open>Gc_Bugs\<close> shows that \<open>gc_realloc\<close> enters a block twice, and
    that \<open>gc_init\<close> writes behind its table on the allocator of this repository. \<open>Gc_Inv\<close>, \<open>Gc_Heap\<close> add the memory of
    the table itself: the invariant \<open>gc_inv\<close>, the locale \<open>gc_heap\<close>, a store of blocks with \<open>calloc\<close> and \<open>realloc\<close>, which may
    refuse any request with \<open>NULL\<close> or stop the process, and bounded addresses, and that every operation of the interface
    but \<open>gc_realloc\<close> keeps the invariant, also when the table is doubled. The code tests the answer of the library for the
    program's blocks, not for its own nodes and tables: \<open>refused\<close> says which request was refused when a call takes an
    undefined step. The locale is interpreted on the allocator of this repository; \<open>Gc_Lib\<close> shows that it also holds of a
    library that answers \<open>NULL\<close> when its addresses are used up.
    \<open>Gc_Run\<close>: the runs of a program over any such library (\<open>gc_run\<close>), by rule induction, and what they guarantee. They
    contain every operation of the interface except \<open>gc_realloc\<close> on a tracked block, which breaks the table
    (theory \<open>Gc_Bugs\<close>). These runs ask for blocks of any size, so the library is a parameter there: the
    allocator of this repository is sound for requests up to 16384 bytes only.
  \<^item> \<open>Text\<close>: the number formats, padding and string comparison of libc that the logger and the lister use.
    \<open>Log\<close>: the logger of \<open>src/log.c\<close>.
  \<^item> \<open>Ls_Util\<close>, \<open>Ls_Node\<close>, \<open>Ls_Sort\<close>, \<open>Ls_Show\<close>, \<open>Ls_Main\<close>: the lister \<open>src/ls.c\<close>, bottom up. \<open>Ls_Util\<close>: the small helpers
    (\<open>bb_mode_string\<close>, \<open>make_human_readable_str\<close>, \<open>concat_path_file\<close>, \<open>xreadlink\<close>, \<open>perror_msg\<close>, the checked allocations). \<open>Ls_Node\<close>: the
    entries \<open>struct dnode\<close> and the arrays and chains over them. \<open>Ls_Sort\<close>: \<open>shellsort\<close>, proved over a locale of comparisons.
    \<open>Ls_Show\<close>: \<open>list_single\<close> and \<open>showfiles\<close>. \<open>Ls_Main\<close>: \<open>my_stat\<close>, \<open>list_dir\<close>, \<open>showdirs\<close>, the options and \<open>ls_main\<close>.
    The state is the record \<open>ls\<close>: the static variables of the program, the state of the C library the program runs on (a parameter, instantiated by the allocator of this
    repository or by a plain one), the nodes by address (\<open>dn_at\<close>) and the text printed; an array of nodes is its address with its elements. File system, clock, names of
    users and terminal are the record \<open>ls_env\<close>, and what \<open>getopt\<close> returns is an input.
    \<open>Ls_Correct\<close> interprets the locale on \<open>sortcmp\<close> and states the properties of sorting and printing, \<open>Ls_Render\<close> those
    of the texts, paths and options.
  \<^item> \<open>Libc\<close>, \<open>Ls_Heap\<close>, \<open>Ls_Dir\<close>, \<open>Ls_Returns\<close>, \<open>Ls_Program\<close>: the lister on a \<open>conforming\<close> C library, one whose \<open>malloc\<close>, \<open>calloc\<close>,
    \<open>realloc\<close> and \<open>free\<close> do what the standard says and whose memory does not run out (the allocator of this repository is not
    one: its \<open>realloc\<close> refuses a null pointer, see \<open>link_listing_fails\<close>). \<open>Libc\<close>: the contract; \<open>Ls_Heap\<close>: chains of nodes.
    \<open>Ls_Dir\<close>: what \<open>list_dir\<close> returns. \<open>Ls_Returns\<close>: printing and the recursion over directories return, for trees
    that are \<open>tree_ok\<close>. \<open>Ls_Program\<close>: so does the program.
  \<^item> \<open>Gcbench\<close>: the benchmark \<open>test_benchmark/gcbench.c\<close> in both configurations, with \<open>-DGC\<close> (a \<open>collector\<close> is given) and
    without. \<open>Gcbench_Trees\<close>: its trees as those of the library theory \<open>Tree\<close>, and the locale \<open>counted_heap\<close>, an allocator
    with the blocks in use and the most bytes in use so far. \<open>Gcbench_Correct\<close>, without \<open>-DGC\<close>, interprets it on every
    conforming library, as it is and with a meter: the benchmark ends, prints what it should, gives its nodes back, and
    announces its peak of storage correctly. \<open>Gcbench_Gc\<close> carries this over to the build with \<open>-DGC\<close>, by relating it to the
    other one on a library whose \<open>free\<close> does nothing.

  \<^bold>\<open>Loops.\<close> Loops over linked structures are \<open>partial_function (option)\<close>: \<open>None\<close> means that the loop does not end, and
  the theorems prove the value \<open>Some\<close>. \<open>gc_mark_alloc\<close> takes a bound on the recursion depth; the marking property shows
  that one more than the number of tracked blocks is enough. The table has at most \<open>2 ^ 48\<close> buckets in any run, as
  addresses are below \<open>2 ^ 47\<close>, so that doubling it does not wrap. \<open>showdirs\<close> takes a bound on the depth of the directory
  tree and is \<open>None\<close> beyond it; \<open>Ls_Program\<close> shows that one more than the levels of the tree is enough.

  \<^bold>\<open>Not modelled.\<close> The interleaving of two threads inside one call (one step is one whole call; locks are flags,
  so a lock that is never released shows as \<open>Deadlock\<close>). The allocator's properties over runs are for requests up to
  16384 bytes; larger blocks have their own mapping and are modelled, with the errors found in them in
  \<open>Alloc_Bugs\<close>. Messages on stderr. The usage text of the lister and its \<open>fopen\<close> wrapper, which it does not call; the copies of the
  names of users and groups into a fixed buffer. For the build of the benchmark with \<open>-DGC\<close>
  the collector is an argument (\<open>collecting\<close>): what the scan of the real stack finds depends on where the compiler puts
  the variables. The shell script \<open>bench.sh\<close> and the small test mains,
  which only call the library and print.
\<close>

end
